(* ===== verification/Benet_Prelude.thy ===== *)
theory Benet_Prelude
  imports Main "HOL-Library.Word"
begin

unbundle bit_operations_syntax

text \<open>
  Shared vocabulary of the benet development: the result type in which every assertion,
  every \<open>BELOG_CRITICAL\<close> and every undefined behaviour of the C++ code is a value, the
  \<open>size_t\<close> arithmetic of the buffers, error numbers and results of system calls, the
  byte image of machine words, and the list lemmas the components share.
\<close>

named_theorems res_simps \<open>rewrite rules for the result type\<close>
named_theorems size_defs \<open>definitions of the size_t arithmetic\<close>

subsection \<open>Names of the model's basic types\<close>

type_synonym byte = "8 word"
type_synonym fd = int
type_synonym ptr = nat
type_synonym thread_id = nat

subsection \<open>Results\<close>

text \<open>
  \<open>AssertFail\<close> is a failed \<open>assert\<close> (a build without \<open>NDEBUG\<close>), \<open>Critical\<close> the
  \<open>std::exit(2)\<close> of \<open>BELOG_CRITICAL\<close>, \<open>LengthError\<close> the \<open>std::length_error\<close> of
  a \<open>std::vector\<close>, \<open>BadFunctionCall\<close> the exception of an empty \<open>std::function\<close>; the
  others are undefined behaviour: an access outside an array, the read of an object that
  was never initialised, the use of a destroyed object, and an arithmetic conversion or
  signed sum out of range.
\<close>

datatype err = AssertFail | Critical | LengthError | BadFunctionCall
  | OutOfBounds | Indeterminate | Dangling | Overflow

type_synonym 'a res = "err + 'a"

definition andthen :: "'a res \<Rightarrow> ('a \<Rightarrow> 'b res) \<Rightarrow> 'b res" where
  "andthen m f = (case m of Inl e \<Rightarrow> Inl e | Inr x \<Rightarrow> f x)"

definition assert_then :: "bool \<Rightarrow> 'a res \<Rightarrow> 'a res" where
  "assert_then P k = (if P then k else Inl AssertFail)"

lemma andthen_Inr [simp]: "andthen (Inr x) f = f x"
  by (simp add: andthen_def)

lemma andthen_Inl [simp]: "andthen (Inl e) f = Inl e"
  by (simp add: andthen_def)

lemma andthen_eq_Inr [res_simps]: "andthen m f = Inr y \<longleftrightarrow> (\<exists>x. m = Inr x \<and> f x = Inr y)"
  by (cases m) auto

lemma andthen_eq_Inl [res_simps]:
  "andthen m f = Inl e \<longleftrightarrow> m = Inl e \<or> (\<exists>x. m = Inr x \<and> f x = Inl e)"
  by (cases m) auto

text \<open>With this congruence rule the simplifier evaluates a sequence from the left.\<close>

lemma andthen_weak_cong: "m = m' \<Longrightarrow> andthen m f = andthen m' f"
  by simp

lemma andthen_assoc: "andthen (andthen m f) g = andthen m (\<lambda>x. andthen (f x) g)"
  by (cases m) auto

lemma assert_then_True [simp]: "P \<Longrightarrow> assert_then P k = k"
  by (simp add: assert_then_def)

lemma assert_then_False [simp]: "\<not> P \<Longrightarrow> assert_then P k = Inl AssertFail"
  by (simp add: assert_then_def)

lemma assert_then_eq_Inr [res_simps]: "assert_then P k = Inr y \<longleftrightarrow> P \<and> k = Inr y"
  by (simp add: assert_then_def)

subsection \<open>size\_t\<close>

text \<open>
  \<open>std::size_t\<close> has 64 bits on the platforms the library builds for. A value is a \<open>nat\<close>;
  the sum and the difference wrap around.
\<close>

definition size_modulus :: nat where
  "size_modulus = 2 ^ 64"

definition size_add :: "nat \<Rightarrow> nat \<Rightarrow> nat" where
  [size_defs]: "size_add a b = (a + b) mod size_modulus"

definition size_sub :: "nat \<Rightarrow> nat \<Rightarrow> nat" where
  [size_defs]: "size_sub a b = (a + size_modulus - b mod size_modulus) mod size_modulus"

lemma size_add_exact: "a + b < size_modulus \<Longrightarrow> size_add a b = a + b"
  by (simp add: size_add_def)

lemma size_sub_exact: "b \<le> a \<Longrightarrow> a < size_modulus \<Longrightarrow> size_sub a b = a - b"
proof -
  assume "b \<le> a" and "a < size_modulus"
  then have "a + size_modulus - b mod size_modulus = (a - b) + size_modulus"
    by simp
  with \<open>a < size_modulus\<close> show ?thesis
    by (simp add: size_sub_def)
qed

lemma size_add_less: "size_add a b < size_modulus"
  by (simp add: size_add_def size_modulus_def)

text \<open>\<open>std::vector<char>::max_size()\<close> is \<open>PTRDIFF_MAX\<close>.\<close>

definition vector_max :: nat where
  "vector_max = 2 ^ 63 - 1"

lemma vector_max_less: "n \<le> vector_max \<Longrightarrow> n < size_modulus"
  by (simp add: vector_max_def size_modulus_def)

lemma vector_max_add: "m \<le> vector_max \<Longrightarrow> n \<le> vector_max \<Longrightarrow> m + n + 2 \<le> size_modulus"
  by (simp add: vector_max_def size_modulus_def)

subsection \<open>System calls\<close>

text \<open>
  The error numbers the code distinguishes; on Linux \<open>EWOULDBLOCK\<close> is \<open>EAGAIN\<close>.
\<close>

datatype errno = EAGAIN | EINTR | EPIPE | ECONNRESET | EMFILE | ECONNABORTED | EPROTO
  | EPERM | EBADF | EFAULT | EINVAL | ENFILE | ENOBUFS | ENOMEM | ENOTSOCK | EOPNOTSUPP
  | EEXIST | ENOENT | EOther nat

datatype 'a sysret = SysErr errno | SysOk 'a

subsection \<open>Arrays\<close>

lemma all_le_Suc: "(\<forall>i\<le>Suc n. P i) \<longleftrightarrow> P 0 \<and> (\<forall>i\<le>n. P (Suc i))"
  by (auto simp: less_Suc_eq_0_disj simp flip: less_Suc_eq_le)

text \<open>
  Reading and writing a run of cells of an array, with the bounds the C++ code has to
  respect, and the loop of \<open>std::copy\<close> inside one array.
\<close>

definition mem_load :: "'a list \<Rightarrow> nat \<Rightarrow> nat \<Rightarrow> 'a list res" where
  "mem_load bs i n = (if i + n \<le> length bs then Inr (take n (drop i bs)) else Inl OutOfBounds)"

definition mem_store :: "'a list \<Rightarrow> nat \<Rightarrow> 'a list \<Rightarrow> 'a list res" where
  "mem_store bs i xs =
     (if i + length xs \<le> length bs then Inr (take i bs @ xs @ drop (i + length xs) bs)
      else Inl OutOfBounds)"

function copy_fwd :: "'a list \<Rightarrow> nat \<Rightarrow> nat \<Rightarrow> nat \<Rightarrow> 'a list res" where
  "copy_fwd bs s e d =
     (if s = e then Inr bs
      else if s < length bs \<and> d < length bs
      then copy_fwd (bs[d := bs ! s]) (Suc s) e (Suc d)
      else Inl OutOfBounds)"
  by pat_completeness auto
termination
  by (relation "measure (\<lambda>(bs, s, e, d). length bs - s)") auto

declare copy_fwd.simps [simp del]

lemma take_drop_update_left:
  "d \<le> s \<Longrightarrow> take n (drop (Suc s) (bs[d := v])) = take n (drop (Suc s) bs)"
  by (simp add: drop_update_cancel)

lemma copy_fwd_down:
  "d \<le> s \<Longrightarrow> s \<le> e \<Longrightarrow> e \<le> length bs \<Longrightarrow>
   copy_fwd bs s e d = Inr (take d bs @ take (e - s) (drop s bs) @ drop (d + (e - s)) bs)"
proof (induction bs s e d rule: copy_fwd.induct)
  case (1 bs s e d)
  show ?case
  proof (cases "s = e")
    case True
    then show ?thesis by (simp add: copy_fwd.simps [of bs e e d])
  next
    case False
    with "1.prems" have lt: "s < length bs" "d < length bs" "Suc s \<le> e" by auto
    let ?cs = "bs[d := bs ! s]"
    have "copy_fwd bs s e d = copy_fwd ?cs (Suc s) e (Suc d)"
      using False lt by (simp add: copy_fwd.simps [of bs s e d])
    also have "\<dots> = Inr (take (Suc d) ?cs @ take (e - Suc s) (drop (Suc s) ?cs)
        @ drop (Suc d + (e - Suc s)) ?cs)"
      using "1.IH" False lt "1.prems" by simp
    also have "take (Suc d) ?cs = take d bs @ [bs ! s]"
      using lt by (simp add: take_Suc_conv_app_nth)
    also have "take (e - Suc s) (drop (Suc s) ?cs) = take (e - Suc s) (drop (Suc s) bs)"
      using "1.prems"(1) by (rule take_drop_update_left)
    also have "drop (Suc d + (e - Suc s)) ?cs = drop (d + (e - s)) bs"
      using lt by (simp add: drop_update_cancel Suc_diff_Suc)
    also have "take (e - s) (drop s bs) = bs ! s # take (e - Suc s) (drop (Suc s) bs)"
      using lt by (simp add: Cons_nth_drop_Suc [symmetric] Suc_diff_Suc take_Cons' )
    ultimately show ?thesis
      by simp
  qed
qed

subsection \<open>The byte image of a machine word\<close>

text \<open>
  \<open>mem_of_word\<close> is the object representation on a little-endian host, \<open>word_of_mem\<close> the
  word a \<open>memcpy\<close> of these bytes yields, \<open>bswap\<close> the exchange of the byte order that
  \<open>htobe16\<close>, \<open>htobe32\<close>, \<open>htobe64\<close> and their inverses perform there.
\<close>

definition mem_of_word :: "'a::len word \<Rightarrow> byte list" where
  "mem_of_word w = map (\<lambda>i. ucast (drop_bit (8 * i) w)) [0..<LENGTH('a) div 8]"

fun word_of_mem :: "byte list \<Rightarrow> 'a::len word" where
  "word_of_mem [] = 0"
| "word_of_mem (b # bs) = ucast b OR push_bit 8 (word_of_mem bs)"

definition bswap :: "'a::len word \<Rightarrow> 'a word" where
  "bswap w = word_of_mem (rev (mem_of_word w))"

lemma length_mem_of_word [simp]: "length (mem_of_word (w :: 'a::len word)) = LENGTH('a) div 8"
  by (simp add: mem_of_word_def)

lemma bit_word_of_mem:
  "bit (word_of_mem bs :: 'a::len word) n \<longleftrightarrow>
   n < LENGTH('a) \<and> n < 8 * length bs \<and> bit (bs ! (n div 8)) (n mod 8)"
proof (induction bs arbitrary: n)
  case Nil
  then show ?case by simp
next
  case (Cons b bs)
  show ?case
  proof (cases "n < 8")
    case True
    then show ?thesis
      by (auto simp: bit_simps)
  next
    case False
    then have "n div 8 = Suc ((n - 8) div 8)" and "n mod 8 = (n - 8) mod 8"
      by (auto simp: le_div_geq le_mod_geq)
    moreover have "\<not> bit b n"
      using False by (auto dest: bit_imp_le_length)
    ultimately show ?thesis
      using False Cons.IH [of "n - 8"] by (auto simp: bit_simps)
  qed
qed

lemma word_of_mem_of_word:
  assumes "8 dvd LENGTH('a)"
  shows "word_of_mem (mem_of_word w) = (w :: 'a::len word)"
proof (rule bit_word_eqI)
  fix n assume n: "n < LENGTH('a)"
  with assms have "n div 8 < LENGTH('a) div 8" and lt: "n < 8 * (LENGTH('a) div 8)"
    by (auto simp: dvd_def)
  then show "bit (word_of_mem (mem_of_word w) :: 'a word) n \<longleftrightarrow> bit w n"
    using n by (auto simp: bit_word_of_mem mem_of_word_def bit_simps)
qed

lemma mem_of_word_of_mem:
  assumes "LENGTH('a) = 8 * length bs"
  shows "mem_of_word (word_of_mem bs :: 'a::len word) = bs"
proof (rule nth_equalityI)
  show "length (mem_of_word (word_of_mem bs :: 'a word)) = length bs"
    using assms by simp
  fix i assume "i < length (mem_of_word (word_of_mem bs :: 'a word))"
  with assms have i: "i < length bs" by simp
  show "mem_of_word (word_of_mem bs :: 'a word) ! i = bs ! i"
  proof (rule bit_word_eqI)
    fix n assume "n < LENGTH(8)"
    then have n: "n < 8" by simp
    then have "8 * i + n < 8 * length bs" "(8 * i + n) div 8 = i" "(8 * i + n) mod 8 = n"
      using i by auto
    then show "bit (mem_of_word (word_of_mem bs :: 'a word) ! i) n \<longleftrightarrow> bit (bs ! i) n"
      using i n assms by (simp add: mem_of_word_def bit_simps bit_word_of_mem)
  qed
qed

lemma mem_of_bswap:
  assumes "8 dvd LENGTH('a)"
  shows "mem_of_word (bswap (w :: 'a::len word)) = rev (mem_of_word w)"
  using assms by (simp add: bswap_def mem_of_word_of_mem)

lemma bswap_bswap:
  assumes "8 dvd LENGTH('a)"
  shows "bswap (bswap w) = (w :: 'a::len word)"
  using assms by (simp add: bswap_def [of "bswap w"] mem_of_bswap word_of_mem_of_word)

lemma bswap_one_byte: "LENGTH('a) = 8 \<Longrightarrow> bswap w = (w :: 'a::len word)"
  by (rule bit_word_eqI) (auto simp: bswap_def mem_of_word_def bit_simps)

subsection \<open>Decimal numbers\<close>

text \<open>What \<open>std::format("{}", n)\<close> prints for an unsigned integer.\<close>

fun dec_string :: "nat \<Rightarrow> string" where
  "dec_string n = (if n < 10 then [char_of (48 + n)] else dec_string (n div 10) @ [char_of (48 + n mod 10)])"

declare dec_string.simps [simp del]

definition dec_value :: "string \<Rightarrow> nat" where
  "dec_value s = foldl (\<lambda>a c. a * 10 + (of_char c - 48)) 0 s"

lemma of_char_digit: "d < 10 \<Longrightarrow> of_char (char_of (48 + d) :: char) = (48 + d :: nat)"
  by (simp add: of_char_of)

lemma dec_value_dec_string: "dec_value (dec_string n) = n"
proof (induction n rule: dec_string.induct)
  case (1 n)
  show ?case
  proof (cases "n < 10")
    case True
    then show ?thesis
      by (simp add: dec_string.simps [of n] dec_value_def of_char_digit)
  next
    case False
    then have "foldl (\<lambda>a c. a * 10 + (of_char c - 48)) 0 (dec_string (n div 10)) = n div 10"
      using 1 by (simp add: dec_value_def)
    then show ?thesis
      using False by (simp add: dec_string.simps [of n] dec_value_def of_char_digit)
  qed
qed

lemma dec_string_inject: "dec_string m = dec_string n \<longleftrightarrow> m = n"
  by (metis dec_value_dec_string)

end
