(* ===== verification/Timer.thy ===== *)
theory Timer
  imports Benet_Prelude
begin

text \<open>
  \<open>Timer\<close> of \<open>include/benet/timer.h\<close> and \<open>src/timer.cpp\<close>. A time point is the signed
  64-bit count of nanoseconds of \<open>std::chrono::system_clock\<close>; an interval is a \<open>double\<close> of
  seconds. The callback is an element of a type parameter: what it does is given where it is
  run.
\<close>

subsection \<open>Time points\<close>

type_synonym time_point = int

definition in_rep :: "int \<Rightarrow> bool" where
  "in_rep t \<longleftrightarrow> - (2 ^ 63) \<le> t \<and> t < 2 ^ 63"

definition time_add :: "time_point \<Rightarrow> int \<Rightarrow> time_point res" where
  "time_add t d = (if in_rep (t + d) then Inr (t + d) else Inl Overflow)"

subsection \<open>Finite doubles\<close>

text \<open>
  A finite \<open>double\<close> is a pair \<open>(m, e)\<close> standing for \<open>m * 2 ^ e\<close> (the range of the exponent
  is not bounded; NaN and the infinities are left out). The product with \<open>1e9\<close> is rounded to
  53 bits, to nearest and ties to even, as IEEE 754 prescribes.
\<close>

type_synonym dbl = "int \<times> int"

definition dbl_pos :: "dbl \<Rightarrow> bool" where
  "dbl_pos x \<longleftrightarrow> 0 < fst x"

fun bitlen :: "nat \<Rightarrow> nat" where
  "bitlen n = (if n = 0 then 0 else Suc (bitlen (n div 2)))"

declare bitlen.simps [simp del]

definition round_even :: "nat \<Rightarrow> nat \<Rightarrow> nat" where
  "round_even p k =
     (let q = p div 2 ^ k; r = p mod 2 ^ k
      in if 2 ^ k < 2 * r \<or> 2 ^ k = 2 * r \<and> odd q then Suc q else q)"

definition dbl_times_1e9 :: "dbl \<Rightarrow> dbl" where
  "dbl_times_1e9 x =
     (let p = nat \<bar>fst x\<bar> * 10 ^ 9; k = bitlen p - 53
      in (sgn (fst x) * int (round_even p k), snd x + int k))"

definition dbl_trunc :: "dbl \<Rightarrow> int" where
  "dbl_trunc x =
     (if 0 \<le> snd x then fst x * 2 ^ nat (snd x)
      else sgn (fst x) * (\<bar>fst x\<bar> div 2 ^ nat (- snd x)))"

text \<open>\<open>static_cast<TimePoint::rep>\<close>: undefined when the truncated value does not fit.\<close>

definition dbl_to_rep :: "dbl \<Rightarrow> int res" where
  "dbl_to_rep x = (if in_rep (dbl_trunc x) then Inr (dbl_trunc x) else Inl Overflow)"

definition seconds_to_rep :: "dbl \<Rightarrow> int res" where
  "seconds_to_rep x = dbl_to_rep (dbl_times_1e9 x)"

subsection \<open>Timers\<close>

record 'cb timer =
  expiration :: time_point
  repeat :: bool
  interval :: dbl
  callback :: 'cb

definition Timer_ctor :: "'cb \<Rightarrow> time_point \<Rightarrow> dbl \<Rightarrow> 'cb timer" where
  "Timer_ctor cb when iv =
     \<lparr>expiration = when, repeat = dbl_pos iv, interval = iv, callback = cb\<rparr>"

definition IsRepeat :: "'cb timer \<Rightarrow> bool" where
  "IsRepeat t = repeat t"

definition InvalidTimePoint :: time_point where
  "InvalidTimePoint = 0"

definition Restart :: "'cb timer \<Rightarrow> time_point \<Rightarrow> 'cb timer res" where
  "Restart t now =
     (if repeat t
      then andthen (seconds_to_rep (interval t)) (\<lambda>interval_rep.
             andthen (time_add now interval_rep) (\<lambda>exp. Inr (t\<lparr>expiration := exp\<rparr>)))
      else Inr (t\<lparr>expiration := InvalidTimePoint\<rparr>))"

subsection \<open>Lemmas\<close>

lemma Restart_frame:
  "Restart t now = Inr t' \<Longrightarrow> repeat t' = repeat t \<and> interval t' = interval t \<and> callback t' = callback t"
  by (auto simp: Restart_def andthen_eq_Inr split: if_splits)

lemma bitlen_bound: "n < 2 ^ bitlen n"
proof (induction n rule: bitlen.induct)
  case (1 n)
  then show ?case
    by (cases "n = 0") (auto simp: bitlen.simps [of n] bitlen.simps [of 0])
qed

lemma bitlen_le: "n < 2 ^ k \<Longrightarrow> bitlen n \<le> k"
proof (induction n arbitrary: k rule: bitlen.induct)
  case (1 n)
  show ?case
  proof (cases "n = 0")
    case True
    then show ?thesis by (simp add: bitlen.simps)
  next
    case False
    with "1.prems" obtain k' where k: "k = Suc k'" by (cases k) auto
    with "1.prems" have "n div 2 < 2 ^ k'" by auto
    with "1.IH" [OF False] False k show ?thesis by (simp add: bitlen.simps [of n])
  qed
qed

lemma round_even_exact: "round_even p 0 = p"
  by (simp add: round_even_def)

lemma dbl_trunc_nonneg: "0 \<le> fst x \<Longrightarrow> 0 \<le> dbl_trunc x"
  by (auto simp: dbl_trunc_def sgn_if pos_imp_zdiv_nonneg_iff)

lemma seconds_to_rep_nonneg:
  assumes "dbl_pos x" and "seconds_to_rep x = Inr r"
  shows "0 \<le> r"
proof -
  have "0 \<le> fst (dbl_times_1e9 x)"
    using assms(1) by (simp add: dbl_times_1e9_def dbl_pos_def Let_def)
  with assms(2) show ?thesis
    by (auto simp: seconds_to_rep_def dbl_to_rep_def dbl_trunc_nonneg split: if_splits)
qed

lemma seconds_to_rep_whole:
  assumes "0 \<le> s" and "s * 10 ^ 9 < 2 ^ 53"
  shows "seconds_to_rep (s, 0) = Inr (s * 10 ^ 9)"
proof -
  have "nat \<bar>s\<bar> * 10 ^ 9 < 2 ^ 53" using assms by (simp add: nat_less_iff)
  then have "bitlen (nat \<bar>s\<bar> * 10 ^ 9) \<le> 53" by (rule bitlen_le)
  then have "dbl_times_1e9 (s, 0) = (s * 10 ^ 9, 0)"
    using assms(1) by (cases "s = 0") (simp_all add: dbl_times_1e9_def Let_def round_even_exact)
  moreover have "in_rep (s * 10 ^ 9)"
    using assms by (simp add: in_rep_def)
  ultimately show ?thesis
    by (simp add: seconds_to_rep_def dbl_to_rep_def dbl_trunc_def)
qed

lemma Restart_repeat:
  assumes "repeat t" and "Restart t now = Inr t'" and "dbl_pos (interval t)"
  shows "now \<le> expiration t'" and "seconds_to_rep (interval t) = Inr (expiration t' - now)"
  using assms seconds_to_rep_nonneg [OF assms(3)]
  by (auto simp: Restart_def andthen_eq_Inr time_add_def split: if_splits)

end
