(* ===== verification/Channel.thy ===== *)
theory Channel
  imports Timer
begin

text \<open>
  \<open>Channel\<close> of \<open>include/benet/channel.h\<close> and \<open>src/channel.cpp\<close>: the fields, the event masks
  and the callbacks. A callback is an element of a type parameter. The members \<open>event_handing_\<close>
  and \<open>added_in_loop_\<close> have no initialiser: \<open>None\<close> is the indeterminate value. The operations
  that reach the poller (\<open>EnableReadEvent\<close> and the others, \<open>RemoveFromLoop\<close>) are in
  \<open>Poller\<close> and \<open>EventLoop\<close>, with the state they change; \<open>HandleEvent\<close> is stated over any
  state that holds channels.
\<close>

unbundle bit_operations_syntax

named_theorems event_bits \<open>values of the epoll event masks\<close>

subsection \<open>Event masks\<close>

type_synonym events = "32 word"

definition EPOLLIN :: events where [event_bits]: "EPOLLIN = 0x001"

definition EPOLLPRI :: events where [event_bits]: "EPOLLPRI = 0x002"

definition EPOLLOUT :: events where [event_bits]: "EPOLLOUT = 0x004"

definition EPOLLERR :: events where [event_bits]: "EPOLLERR = 0x008"

definition EPOLLHUP :: events where [event_bits]: "EPOLLHUP = 0x010"

definition EPOLLRDHUP :: events where [event_bits]: "EPOLLRDHUP = 0x2000"

definition kNoneEvent :: events where [event_bits]: "kNoneEvent = 0"

definition kReadEvent :: events where [event_bits]: "kReadEvent = EPOLLIN OR EPOLLPRI"

definition kWriteEvent :: events where [event_bits]: "kWriteEvent = EPOLLOUT"

definition has_event :: "events \<Rightarrow> events \<Rightarrow> bool" where
  "has_event ev m \<longleftrightarrow> ev AND m \<noteq> 0"

subsection \<open>Channels\<close>

record 'cb channel =
  ch_loop :: ptr
  ch_fd :: fd
  events :: events
  revents :: events
  index :: int
  tied :: bool
  tie :: ptr
  event_handing :: "bool option"
  added_in_loop :: "bool option"
  on_read :: "'cb option"
  on_write :: "'cb option"
  on_close :: "'cb option"
  on_error :: "'cb option"

definition Channel_ctor :: "ptr \<Rightarrow> fd \<Rightarrow> 'cb channel" where
  "Channel_ctor loop fd = \<lparr>ch_loop = loop, ch_fd = fd, events = 0, revents = 0, index = -1, tied = False, tie = 0,
     event_handing = None, added_in_loop = None,
     on_read = None, on_write = None, on_close = None, on_error = None\<rparr>"

definition IsNoneEvent :: "'cb channel \<Rightarrow> bool" where
  "IsNoneEvent ch \<longleftrightarrow> events ch = kNoneEvent"

definition IsReadEvent :: "'cb channel \<Rightarrow> bool" where
  "IsReadEvent ch \<longleftrightarrow> has_event (events ch) kReadEvent"

definition IsWriteEvent :: "'cb channel \<Rightarrow> bool" where
  "IsWriteEvent ch \<longleftrightarrow> has_event (events ch) kWriteEvent"

definition BindReadCallback :: "'cb \<Rightarrow> 'cb channel \<Rightarrow> 'cb channel" where
  "BindReadCallback cb ch = ch\<lparr>on_read := Some cb\<rparr>"

definition BindWriteCallback :: "'cb \<Rightarrow> 'cb channel \<Rightarrow> 'cb channel" where
  "BindWriteCallback cb ch = ch\<lparr>on_write := Some cb\<rparr>"

definition BindCloseCallback :: "'cb \<Rightarrow> 'cb channel \<Rightarrow> 'cb channel" where
  "BindCloseCallback cb ch = ch\<lparr>on_close := Some cb\<rparr>"

definition BindErrorCallback :: "'cb \<Rightarrow> 'cb channel \<Rightarrow> 'cb channel" where
  "BindErrorCallback cb ch = ch\<lparr>on_error := Some cb\<rparr>"

definition Tie :: "ptr \<Rightarrow> 'cb channel \<Rightarrow> 'cb channel" where
  "Tie obj ch = ch\<lparr>tie := obj, tied := True\<rparr>"

text \<open>The changes of the event mask, before \<open>update_events()\<close>.\<close>

definition enable_read :: "'cb channel \<Rightarrow> 'cb channel" where
  "enable_read ch = ch\<lparr>events := events ch OR kReadEvent\<rparr>"

definition disable_read :: "'cb channel \<Rightarrow> 'cb channel" where
  "disable_read ch = ch\<lparr>events := events ch AND NOT kReadEvent\<rparr>"

definition enable_write :: "'cb channel \<Rightarrow> 'cb channel" where
  "enable_write ch = ch\<lparr>events := events ch OR kWriteEvent\<rparr>"

definition disable_write :: "'cb channel \<Rightarrow> 'cb channel" where
  "disable_write ch = ch\<lparr>events := events ch AND NOT kWriteEvent\<rparr>"

definition disable_all :: "'cb channel \<Rightarrow> 'cb channel" where
  "disable_all ch = ch\<lparr>events := kNoneEvent\<rparr>"

definition events_as_string :: "events \<Rightarrow> string" where
  "events_as_string ev =
     (let str = (if has_event ev EPOLLIN then ''IN '' else [])
              @ (if has_event ev EPOLLPRI then ''PRI '' else [])
              @ (if has_event ev EPOLLOUT then ''OUT '' else [])
              @ (if has_event ev EPOLLHUP then ''HUP '' else [])
              @ (if has_event ev EPOLLRDHUP then ''RDHUP '' else [])
              @ (if has_event ev EPOLLERR then ''ERR '' else [])
      in if str \<noteq> [] \<and> last str = CHR '' '' then butlast str else str)"

subsection \<open>Dispatching an event\<close>

text \<open>
  \<open>HandleEvent\<close> over any state that holds channels: \<open>get\<close> and \<open>put\<close> access the channel at an
  address (a missing channel has been destroyed), \<open>alive\<close> is the result of \<open>weak_ptr::lock\<close> and
  \<open>run\<close> executes a callback. Every member is read again after a callback has run.
\<close>

type_synonym ('cb, 'w) run_fun = "'cb \<Rightarrow> time_point \<Rightarrow> 'w \<Rightarrow> 'w res"

definition with_channel :: "('w \<Rightarrow> ptr \<rightharpoonup> 'cb channel) \<Rightarrow> ptr \<Rightarrow> 'w \<Rightarrow> ('cb channel \<Rightarrow> 'a res) \<Rightarrow> 'a res" where
  "with_channel get p w k = (case get w p of None \<Rightarrow> Inl Dangling | Some ch \<Rightarrow> k ch)"

definition fire_if :: "('w \<Rightarrow> ptr \<rightharpoonup> 'cb channel) \<Rightarrow> ('cb, 'w) run_fun \<Rightarrow> ptr \<Rightarrow> time_point \<Rightarrow>
    (events \<Rightarrow> bool) \<Rightarrow> ('cb channel \<Rightarrow> 'cb option) \<Rightarrow> 'w \<Rightarrow> 'w res" where
  "fire_if get run p recv_time cond sel w =
     with_channel get p w (\<lambda>ch.
       if cond (revents ch)
       then (case sel ch of None \<Rightarrow> Inr w | Some cb \<Rightarrow> run cb recv_time w)
       else Inr w)"

definition wants_error :: "events \<Rightarrow> bool" where
  "wants_error ev \<longleftrightarrow> has_event ev EPOLLERR"

definition wants_close :: "events \<Rightarrow> bool" where
  "wants_close ev \<longleftrightarrow> has_event ev (EPOLLHUP OR EPOLLRDHUP) \<and> \<not> has_event ev EPOLLIN"

definition wants_read :: "events \<Rightarrow> bool" where
  "wants_read ev \<longleftrightarrow> has_event ev (EPOLLIN OR EPOLLPRI OR EPOLLRDHUP)"

definition wants_write :: "events \<Rightarrow> bool" where
  "wants_write ev \<longleftrightarrow> has_event ev EPOLLOUT"

definition HandleEvent :: "('w \<Rightarrow> ptr \<rightharpoonup> 'cb channel) \<Rightarrow> (ptr \<Rightarrow> 'cb channel \<Rightarrow> 'w \<Rightarrow> 'w) \<Rightarrow>
    ('w \<Rightarrow> ptr \<Rightarrow> bool) \<Rightarrow> ('cb, 'w) run_fun \<Rightarrow> ptr \<Rightarrow> time_point \<Rightarrow> 'w \<Rightarrow> 'w res" where
  "HandleEvent get put alive run p recv_time w =
     with_channel get p w (\<lambda>ch.
       if tied ch \<and> \<not> alive w (tie ch) then Inr w
       else
         andthen (fire_if get run p recv_time wants_error on_error
                    (put p (ch\<lparr>event_handing := Some True\<rparr>) w)) (\<lambda>w1.
         andthen (fire_if get run p recv_time wants_close on_close w1) (\<lambda>w2.
         andthen (fire_if get run p recv_time wants_read on_read w2) (\<lambda>w3.
         andthen (fire_if get run p recv_time wants_write on_write w3) (\<lambda>w4.
         with_channel get p w4 (\<lambda>ch4.
           Inr (put p (ch4\<lparr>event_handing := Some False\<rparr>) w4)))))))"

text \<open>The destructor reads the two uninitialised members in its assertions.\<close>

definition assert_flag_clear :: "bool option \<Rightarrow> 'a res \<Rightarrow> 'a res" where
  "assert_flag_clear fl k = (case fl of None \<Rightarrow> Inl Indeterminate | Some b \<Rightarrow> assert_then (\<not> b) k)"

subsection \<open>Event masks\<close>

lemma event_word_bits:
  "has_event ev EPOLLIN \<longleftrightarrow> bit ev 0" "has_event ev EPOLLPRI \<longleftrightarrow> bit ev 1"
  "has_event ev EPOLLOUT \<longleftrightarrow> bit ev 2" "has_event ev EPOLLERR \<longleftrightarrow> bit ev 3"
  "has_event ev EPOLLHUP \<longleftrightarrow> bit ev 4" "has_event ev EPOLLRDHUP \<longleftrightarrow> bit ev 13"
proof -
  have exp: "ev AND 2 ^ n \<noteq> 0 \<longleftrightarrow> bit ev n" for n
    by (simp add: bit_iff_and_push_bit_not_eq_0 push_bit_eq_mult)
  show "has_event ev EPOLLIN \<longleftrightarrow> bit ev 0" "has_event ev EPOLLPRI \<longleftrightarrow> bit ev 1"
    "has_event ev EPOLLOUT \<longleftrightarrow> bit ev 2" "has_event ev EPOLLERR \<longleftrightarrow> bit ev 3"
    "has_event ev EPOLLHUP \<longleftrightarrow> bit ev 4" "has_event ev EPOLLRDHUP \<longleftrightarrow> bit ev 13"
    using exp [of 0] exp [of 1] exp [of 2] exp [of 3] exp [of 4] exp [of 13]
    by (simp_all add: has_event_def event_bits)
qed

lemma has_event_OR: "has_event ev (a OR b) \<longleftrightarrow> has_event ev a \<or> has_event ev b"
proof -
  have "ev AND (a OR b) = 0 \<longleftrightarrow> ev AND a = 0 \<and> ev AND b = 0"
    by (simp add: bit_eq_iff bit_simps) blast
  then show ?thesis
    by (simp add: has_event_def)
qed

lemma is_event_bits:
  "IsReadEvent ch \<longleftrightarrow> bit (events ch) 0 \<or> bit (events ch) 1"
  "IsWriteEvent ch \<longleftrightarrow> bit (events ch) 2"
  by (simp_all add: IsReadEvent_def IsWriteEvent_def kReadEvent_def kWriteEvent_def has_event_OR event_word_bits)

lemma mask_bits:
  "bit kReadEvent n \<longleftrightarrow> n = 0 \<or> n = 1" "bit kWriteEvent n \<longleftrightarrow> n = 2"
proof -
  have masks: "kReadEvent = 2 ^ 0 OR 2 ^ 1" "kWriteEvent = 2 ^ 2"
    by (simp_all add: event_bits)
  show "bit kReadEvent n \<longleftrightarrow> n = 0 \<or> n = 1" "bit kWriteEvent n \<longleftrightarrow> n = 2"
    unfolding masks bit_or_iff bit_exp_iff by auto
qed

lemma IsNoneEvent_no_interest: "IsNoneEvent ch \<Longrightarrow> \<not> IsReadEvent ch \<and> \<not> IsWriteEvent ch"
  by (simp add: IsNoneEvent_def IsReadEvent_def IsWriteEvent_def has_event_def kNoneEvent_def)

lemma is_event_update [simp]:
  "IsNoneEvent (ch\<lparr>index := i\<rparr>) = IsNoneEvent ch" "IsReadEvent (ch\<lparr>index := i\<rparr>) = IsReadEvent ch"
  "IsWriteEvent (ch\<lparr>index := i\<rparr>) = IsWriteEvent ch"
  "IsNoneEvent (ch\<lparr>added_in_loop := a\<rparr>) = IsNoneEvent ch" "IsReadEvent (ch\<lparr>added_in_loop := a\<rparr>) = IsReadEvent ch"
  "IsWriteEvent (ch\<lparr>added_in_loop := a\<rparr>) = IsWriteEvent ch"
  "IsNoneEvent (ch\<lparr>revents := r\<rparr>) = IsNoneEvent ch" "IsNoneEvent (ch\<lparr>event_handing := h\<rparr>) = IsNoneEvent ch"
  by (simp_all add: IsNoneEvent_def IsReadEvent_def IsWriteEvent_def)

lemma enable_disable_events [simp]:
  "IsReadEvent (enable_read ch)" "IsWriteEvent (enable_write ch)"
  "\<not> IsReadEvent (disable_read ch)" "\<not> IsWriteEvent (disable_write ch)"
  "IsReadEvent (enable_write ch) \<longleftrightarrow> IsReadEvent ch"
  "IsReadEvent (disable_write ch) \<longleftrightarrow> IsReadEvent ch"
  "IsWriteEvent (enable_read ch) \<longleftrightarrow> IsWriteEvent ch"
  "IsWriteEvent (disable_read ch) \<longleftrightarrow> IsWriteEvent ch"
  by (simp_all add: is_event_bits enable_read_def enable_write_def disable_read_def disable_write_def
      bit_or_iff bit_and_iff bit_not_iff mask_bits)

lemma none_event_simps [simp]:
  "IsNoneEvent (disable_all ch)" "\<not> IsNoneEvent (enable_read ch)" "\<not> IsNoneEvent (enable_write ch)"
  "\<not> IsReadEvent (disable_all ch)" "\<not> IsWriteEvent (disable_all ch)"
  using IsNoneEvent_no_interest [of "disable_all ch"] IsNoneEvent_no_interest [of "enable_read ch"]
    IsNoneEvent_no_interest [of "enable_write ch"]
  by (auto simp: IsNoneEvent_def disable_all_def)

subsection \<open>Invariants of the dispatcher\<close>

definition run_keeps :: "('w \<Rightarrow> bool) \<Rightarrow> ('cb, 'w) run_fun \<Rightarrow> bool" where
  "run_keeps P run \<longleftrightarrow> (\<forall>cb t w w'. P w \<longrightarrow> run cb t w = Inr w' \<longrightarrow> P w')"

lemma with_channel_Inr [res_simps]:
  "with_channel get p w k = Inr y \<longleftrightarrow> (\<exists>ch. get w p = Some ch \<and> k ch = Inr y)"
  by (auto simp: with_channel_def split: option.split)

lemma fire_if_keeps:
  "run_keeps P run \<Longrightarrow> P w \<Longrightarrow> fire_if get run p t cond sel w = Inr w' \<Longrightarrow> P w'"
  by (auto simp: fire_if_def with_channel_Inr run_keeps_def split: if_splits option.splits)

lemma HandleEvent_keeps:
  assumes "run_keeps P run" "\<And>ch h w. P w \<Longrightarrow> get w p = Some ch \<Longrightarrow> P (put p (ch\<lparr>event_handing := h\<rparr>) w)"
    "P w" "HandleEvent get put alive run p t w = Inr w'"
  shows "P w'"
proof -
  note step = fire_if_keeps [OF assms(1)]
  obtain ch where ch: "get w p = Some ch"
    using assms(4) by (auto simp: HandleEvent_def res_simps)
  show ?thesis
  proof (cases "tied ch \<and> \<not> alive w (tie ch)")
    case True
    then show ?thesis
      using assms(3,4) ch by (simp add: HandleEvent_def with_channel_def)
  next
    case False
    then obtain w1 w2 w3 w4 c where
      "fire_if get run p t wants_error on_error (put p (ch\<lparr>event_handing := Some True\<rparr>) w) = Inr w1"
      "fire_if get run p t wants_close on_close w1 = Inr w2" "fire_if get run p t wants_read on_read w2 = Inr w3"
      "fire_if get run p t wants_write on_write w3 = Inr w4"
      and w': "get w4 p = Some c" "w' = put p (c\<lparr>event_handing := Some False\<rparr>) w4"
      using assms(4) ch by (auto simp: HandleEvent_def with_channel_def [of get p w] res_simps)
    then have "P w4"
      using step assms(2) [OF assms(3) ch] by meson
    then show ?thesis
      using w' assms(2) by simp
  qed
qed

subsection \<open>The order of the callbacks\<close>

text \<open>The callbacks an event asks for, in the order in which the code calls them.\<close>

definition dispatch :: "'cb channel \<Rightarrow> 'cb list" where
  "dispatch ch = concat (map (\<lambda>(cond, sel). if cond (revents ch) then case sel ch of None \<Rightarrow> [] | Some cb \<Rightarrow> [cb] else [])
     [(wants_error, on_error), (wants_close, on_close), (wants_read, on_read), (wants_write, on_write)])"

primrec run_list :: "('cb, 'w) run_fun \<Rightarrow> time_point \<Rightarrow> 'cb list \<Rightarrow> 'w \<Rightarrow> 'w res" where
  "run_list run t [] w = Inr w"
| "run_list run t (cb # cbs) w = andthen (run cb t w) (run_list run t cbs)"

definition same_bindings :: "'cb channel option \<Rightarrow> 'cb channel option \<Rightarrow> bool" where
  "same_bindings a b \<longleftrightarrow> (\<exists>x y. a = Some x \<and> b = Some y \<and> revents x = revents y \<and> on_error x = on_error y
     \<and> on_close x = on_close y \<and> on_read x = on_read y \<and> on_write x = on_write y)"

definition keeps_channel :: "('w \<Rightarrow> ptr \<rightharpoonup> 'cb channel) \<Rightarrow> ('cb, 'w) run_fun \<Rightarrow> ptr \<Rightarrow> bool" where
  "keeps_channel get run p \<longleftrightarrow>
     (\<forall>cb t w w'. run cb t w = Inr w' \<longrightarrow> get w p \<noteq> None \<longrightarrow> same_bindings (get w' p) (get w p))"

locale channel_store =
  fixes get :: "'w \<Rightarrow> ptr \<rightharpoonup> 'cb channel"
    and put :: "ptr \<Rightarrow> 'cb channel \<Rightarrow> 'w \<Rightarrow> 'w"
  assumes get_put: "get (put p ch w) = (get w)(p \<mapsto> ch)"
begin

lemma fire_if_dispatch:
  assumes "get w p = Some ch"
  shows "fire_if get run p t cond sel w =
     run_list run t (if cond (revents ch) then case sel ch of None \<Rightarrow> [] | Some cb \<Rightarrow> [cb] else []) w"
  using assms by (auto simp: fire_if_def with_channel_def andthen_def split: option.split sum.split)

lemma run_list_keeps:
  assumes "keeps_channel get run p" "run_list run t cbs w = Inr w'" "get w p \<noteq> None"
  shows "same_bindings (get w' p) (get w p)"
  using assms(2,3)
proof (induction cbs arbitrary: w)
  case Nil
  then show ?case
    by (auto simp: same_bindings_def)
next
  case (Cons cb cbs)
  then obtain w1 where w1: "run cb t w = Inr w1" "run_list run t cbs w1 = Inr w'"
    by (auto simp: res_simps)
  have "same_bindings (get w1 p) (get w p)"
    using assms(1) w1(1) Cons.prems(2) by (auto simp: keeps_channel_def)
  moreover have "same_bindings (get w' p) (get w1 p)"
    using Cons.IH [OF w1(2)] calculation by (auto simp: same_bindings_def)
  ultimately show ?case
    by (auto simp: same_bindings_def)
qed

lemma same_bindings_dispatch:
  assumes "same_bindings a (Some ch)"
  obtains x where "a = Some x" "dispatch x = dispatch ch" "revents x = revents ch"
    "on_close x = on_close ch" "on_read x = on_read ch" "on_write x = on_write ch"
  using assms by (auto simp: same_bindings_def dispatch_def)

lemma run_list_append:
  "run_list run t (xs @ ys) w = andthen (run_list run t xs w) (run_list run t ys)"
  by (induction xs arbitrary: w) (auto simp: andthen_def split: sum.split)

text \<open>When the callbacks leave the channel's bindings alone, the dispatcher is the list of callbacks
  that the event asks for, run in order between the two changes of \<open>event_handing_\<close>.\<close>

lemma HandleEvent_eq_dispatch:
  assumes p: "get w p = Some ch" "tied ch \<longrightarrow> alive w (tie ch)" and keep: "keeps_channel get run p"
  shows "HandleEvent get put alive run p t w =
    andthen (run_list run t (dispatch ch) (put p (ch\<lparr>event_handing := Some True\<rparr>) w)) (\<lambda>w'.
      with_channel get p w' (\<lambda>ch'. Inr (put p (ch'\<lparr>event_handing := Some False\<rparr>) w')))"
proof -
  let ?sel = "\<lambda>cond sel. if cond (revents ch) then case sel ch of None \<Rightarrow> [] | Some cb \<Rightarrow> [cb] else []"
  let ?w0 = "put p (ch\<lparr>event_handing := Some True\<rparr>) w"
  have start: "same_bindings (get ?w0 p) (Some ch)"
    by (simp add: get_put same_bindings_def)
  have step: "fire_if get run p t cond sel v = run_list run t (?sel cond sel) v"
    if "same_bindings (get v p) (Some ch)" "sel = on_error \<or> sel = on_close \<or> sel = on_read \<or> sel = on_write"
    for v cond sel
    using that fire_if_dispatch [of v p _ run t cond sel] by (auto simp: same_bindings_def)
  have next_ok: "same_bindings (get v' p) (Some ch)"
    if "same_bindings (get v p) (Some ch)" "run_list run t cbs v = Inr v'" for v v' cbs
    using run_list_keeps [OF keep that(2)] that(1) by (auto simp: same_bindings_def)
  have cong: "andthen (run_list run t cbs v) f = andthen (run_list run t cbs v) g"
    if "same_bindings (get v p) (Some ch)" "\<And>v'. same_bindings (get v' p) (Some ch) \<Longrightarrow> f v' = g v'"
    for v cbs and f g :: "'w \<Rightarrow> 'w res"
    using that next_ok [OF that(1)] by (cases "run_list run t cbs v") (auto simp: andthen_def)
  have split: "dispatch ch = ?sel wants_error on_error @ ?sel wants_close on_close
      @ ?sel wants_read on_read @ ?sel wants_write on_write"
    by (simp add: dispatch_def)
  have assoc: "andthen (andthen m f) g = andthen m (\<lambda>x. andthen (f x) g)" for m :: "'w res" and f g :: "'w \<Rightarrow> 'w res"
    by (auto simp: andthen_def split: sum.split)
  show ?thesis
    using p unfolding HandleEvent_def split run_list_append assoc
    by (auto simp: with_channel_def [of get p w] step start intro!: cong)
qed

end

end
