(* ===== verification/Poller.thy ===== *)
theory Poller
  imports Channel
begin

text \<open>
  \<open>Poller\<close> and \<open>EPoller\<close> of \<open>include/benet/poller.h\<close> and \<open>src/poller.cpp\<close>: the table of
  channels by descriptor, the index of each channel (new, added, deleted) and the calls of
  \<open>epoll_ctl\<close> and \<open>epoll_wait\<close>. The kernel's side is a parameter: \<open>ctl\<close> is the system call on
  an abstract kernel state and \<open>interest\<close> the interest list that \<open>epoll(7)\<close> documents. The main
  invariant says that the interest list is exactly what the channels ask for.
\<close>

subsection \<open>State\<close>

definition kEventsSize :: nat where "kEventsSize = 32"

definition kNewChannel :: int where "kNewChannel = -1"

definition kAddedChannel :: int where "kAddedChannel = 1"

definition kDeletedChannel :: int where "kDeletedChannel = 2"

lemmas index_values = kNewChannel_def kAddedChannel_def kDeletedChannel_def

datatype epoll_op = EPOLL_CTL_ADD | EPOLL_CTL_MOD | EPOLL_CTL_DEL

type_synonym epoll_event = "events \<times> ptr"

type_synonym 'k ctl_fun = "'k \<Rightarrow> epoll_op \<Rightarrow> fd \<Rightarrow> epoll_event \<Rightarrow> errno option \<times> 'k"

text \<open>The poller's members, with the channel objects its pointers refer to and the kernel state
  behind \<open>epoll_fd_\<close>.\<close>

record ('cb, 'k) poller =
  channel_heap :: "ptr \<rightharpoonup> 'cb channel"
  channels :: "fd \<rightharpoonup> ptr"
  epoll_fd :: fd
  events_size :: nat
  epoll :: 'k

type_synonym ('cb, 'k, 'z) poller_state = "('cb, 'k, 'z) poller_scheme"

definition put_channel :: "ptr \<Rightarrow> 'cb channel \<Rightarrow> ('cb, 'k, 'z) poller_state \<Rightarrow> ('cb, 'k, 'z) poller_state" where
  "put_channel p ch w = w\<lparr>channel_heap := (channel_heap w)(p \<mapsto> ch)\<rparr>"

subsection \<open>Operations\<close>

definition create_epollfd :: "('k \<Rightarrow> fd sysret \<times> 'k) \<Rightarrow> 'k \<Rightarrow> (fd \<times> 'k) res" where
  "create_epollfd epoll_create1 k =
     (case epoll_create1 k of (SysErr e, k') \<Rightarrow> Inl Critical | (SysOk epollfd, k') \<Rightarrow> Inr (epollfd, k'))"

definition close_epollfd :: "(fd \<Rightarrow> 'k \<Rightarrow> 'k) \<Rightarrow> fd \<Rightarrow> 'k \<Rightarrow> 'k" where
  "close_epollfd close epollfd k = close epollfd k"

text \<open>The constructor after \<open>create_epollfd\<close>, and the destructor.\<close>

definition EPoller_ctor :: "fd \<Rightarrow> 'k \<Rightarrow> ('cb, 'k) poller" where
  "EPoller_ctor epollfd k =
     \<lparr>channel_heap = Map.empty, channels = Map.empty, epoll_fd = epollfd, events_size = kEventsSize, epoll = k\<rparr>"

definition EPoller_dtor :: "(fd \<Rightarrow> 'k \<Rightarrow> 'k) \<Rightarrow> ('cb, 'k, 'z) poller_state \<Rightarrow> ('cb, 'k, 'z) poller_state" where
  "EPoller_dtor close w = w\<lparr>epoll := close_epollfd close (epoll_fd w) (epoll w)\<rparr>"

text \<open>A failing \<open>EPOLL_CTL_DEL\<close> is only logged; a failing \<open>ADD\<close> or \<open>MOD\<close> is critical.\<close>

definition update_epoll_operation ::
  "'k ctl_fun \<Rightarrow> epoll_op \<Rightarrow> ptr \<Rightarrow> 'cb channel \<Rightarrow> ('cb, 'k, 'z) poller_state \<Rightarrow> ('cb, 'k, 'z) poller_state res" where
  "update_epoll_operation ctl operation p ch w =
     (case ctl (epoll w) operation (ch_fd ch) (events ch, p) of (ret, k) \<Rightarrow>
        if ret \<noteq> None \<and> operation \<noteq> EPOLL_CTL_DEL then Inl Critical
        else Inr (w\<lparr>epoll := k\<rparr>))"

definition UpdateChannel ::
  "'k ctl_fun \<Rightarrow> ptr \<Rightarrow> ('cb, 'k, 'z) poller_state \<Rightarrow> ('cb, 'k, 'z) poller_state res" where
  "UpdateChannel ctl p w =
     with_channel channel_heap p w (\<lambda>ch.
       if index ch = kNewChannel \<or> index ch = kDeletedChannel
       then andthen
         (update_epoll_operation ctl EPOLL_CTL_ADD p ch
           (if index ch = kNewChannel then w\<lparr>channels := (channels w)(ch_fd ch \<mapsto> p)\<rparr> else w))
         (\<lambda>w1. Inr (put_channel p (ch\<lparr>index := kAddedChannel\<rparr>) w1))
       else if IsNoneEvent ch
       then andthen (update_epoll_operation ctl EPOLL_CTL_DEL p ch w)
         (\<lambda>w1. Inr (put_channel p (ch\<lparr>index := kDeletedChannel\<rparr>) w1))
       else update_epoll_operation ctl EPOLL_CTL_MOD p ch w)"

definition RemoveChannel ::
  "'k ctl_fun \<Rightarrow> ptr \<Rightarrow> ('cb, 'k, 'z) poller_state \<Rightarrow> ('cb, 'k, 'z) poller_state res" where
  "RemoveChannel ctl p w =
     with_channel channel_heap p w (\<lambda>ch.
       andthen
         (let w1 = w\<lparr>channels := (channels w)(ch_fd ch := None)\<rparr> in
          if index ch = kAddedChannel then update_epoll_operation ctl EPOLL_CTL_DEL p ch w1 else Inr w1)
         (\<lambda>w2. Inr (put_channel p (ch\<lparr>index := kNewChannel\<rparr>) w2)))"

definition HasChannel :: "ptr \<Rightarrow> ('cb, 'k, 'z) poller_state \<Rightarrow> bool res" where
  "HasChannel p w = with_channel channel_heap p w (\<lambda>ch. Inr (channels w (ch_fd ch) = Some p))"

text \<open>\<open>fill_actives\<close> goes through the reported events in order.\<close>

fun fill_actives :: "epoll_event list \<Rightarrow> ptr list \<Rightarrow> ('cb, 'k, 'z) poller_state \<Rightarrow>
    (ptr list \<times> ('cb, 'k, 'z) poller_state) res" where
  "fill_actives [] actives w = Inr (actives, w)"
| "fill_actives ((ev, p) # evs) actives w =
     with_channel channel_heap p w (\<lambda>ch.
       fill_actives evs (actives @ [p]) (put_channel p (ch\<lparr>revents := ev\<rparr>) w))"

text \<open>\<open>Poll\<close>: the result of \<open>epoll_wait\<close> is the argument \<open>wait\<close>, given the room in \<open>events_\<close>;
  the clock is read after it returns.\<close>

definition Poll :: "(nat \<Rightarrow> epoll_event list sysret) \<Rightarrow> time_point \<Rightarrow> ptr list \<Rightarrow> ('cb, 'k, 'z) poller_state \<Rightarrow>
    (time_point \<times> ptr list \<times> ('cb, 'k, 'z) poller_state) res" where
  "Poll wait now actives w =
     (case wait (events_size w) of
        SysErr e \<Rightarrow> if e \<noteq> EINTR then Inl Critical else Inr (now, actives, w)
      | SysOk evs \<Rightarrow>
          if evs = [] then Inr (now, actives, w)
          else andthen (fill_actives evs actives w) (\<lambda>(actives', w').
            Inr (now, actives',
              if events_size w' = length evs
              then w'\<lparr>events_size := length evs + length evs div 2\<rparr> else w')))"

subsection \<open>The kernel's contract\<close>

text \<open>
  What \<open>epoll_ctl(2)\<close> documents: adding a descriptor that is in the interest list fails, changing
  or deleting one that is not fails, a failing call changes nothing. Adding or changing may also
  fail for lack of resources; deleting a member of the list does not.
\<close>

definition epoll_ok :: "'k ctl_fun \<Rightarrow> ('k \<Rightarrow> fd \<rightharpoonup> epoll_event) \<Rightarrow> bool" where
  "epoll_ok ctl interest \<longleftrightarrow> (\<forall>k fd ev.
     (case ctl k EPOLL_CTL_ADD fd ev of
        (None, k') \<Rightarrow> interest k fd = None \<and> interest k' = (interest k)(fd \<mapsto> ev)
      | (Some e, k') \<Rightarrow> interest k' = interest k) \<and>
     (case ctl k EPOLL_CTL_MOD fd ev of
        (None, k') \<Rightarrow> interest k fd \<noteq> None \<and> interest k' = (interest k)(fd \<mapsto> ev)
      | (Some e, k') \<Rightarrow> interest k' = interest k) \<and>
     (case ctl k EPOLL_CTL_DEL fd ev of
        (None, k') \<Rightarrow> interest k fd \<noteq> None \<and> interest k' = (interest k)(fd := None)
      | (Some e, k') \<Rightarrow> interest k fd = None \<and> interest k' = interest k))"

text \<open>The kernel does not refuse a legal call.\<close>

definition epoll_accepts :: "'k ctl_fun \<Rightarrow> ('k \<Rightarrow> fd \<rightharpoonup> epoll_event) \<Rightarrow> bool" where
  "epoll_accepts ctl interest \<longleftrightarrow> (\<forall>k fd ev.
     (interest k fd = None \<longrightarrow> fst (ctl k EPOLL_CTL_ADD fd ev) = None) \<and>
     (interest k fd \<noteq> None \<longrightarrow> fst (ctl k EPOLL_CTL_MOD fd ev) = None))"

text \<open>A kernel whose state is the interest list.\<close>

type_synonym epoll_table = "fd \<rightharpoonup> epoll_event"

definition epoll_table_ctl :: "epoll_table ctl_fun" where
  "epoll_table_ctl k operation fd ev = (case operation of
     EPOLL_CTL_ADD \<Rightarrow> if k fd = None then (None, k(fd \<mapsto> ev)) else (Some EEXIST, k)
   | EPOLL_CTL_MOD \<Rightarrow> if k fd = None then (Some ENOENT, k) else (None, k(fd \<mapsto> ev))
   | EPOLL_CTL_DEL \<Rightarrow> if k fd = None then (Some ENOENT, k) else (None, k(fd := None)))"

lemma epoll_table_ok: "epoll_ok epoll_table_ctl (\<lambda>k. k)" "epoll_accepts epoll_table_ctl (\<lambda>k. k)"
  by (auto simp: epoll_ok_def epoll_accepts_def epoll_table_ctl_def)

subsection \<open>The invariant\<close>

text \<open>
  The index of a channel says where it is: a new channel is in no table and
  asks for nothing, an added one is in both
  with its current mask, a deleted one is in the poller's table only and asks for nothing. The
  interest list holds nothing else.
\<close>

definition index_ok :: "('k \<Rightarrow> fd \<rightharpoonup> epoll_event) \<Rightarrow> ('cb, 'k, 'z) poller_state \<Rightarrow> ptr \<Rightarrow> 'cb channel \<Rightarrow> bool" where
  "index_ok interest w p ch \<longleftrightarrow>
     (index ch = kNewChannel \<and> channels w (ch_fd ch) \<noteq> Some p \<and> IsNoneEvent ch
    \<or> index ch = kAddedChannel \<and> channels w (ch_fd ch) = Some p \<and> interest (epoll w) (ch_fd ch) = Some (events ch, p)
    \<or> index ch = kDeletedChannel \<and> channels w (ch_fd ch) = Some p \<and> interest (epoll w) (ch_fd ch) = None \<and> IsNoneEvent ch)"

definition poller_inv :: "('k \<Rightarrow> fd \<rightharpoonup> epoll_event) \<Rightarrow> ('cb, 'k, 'z) poller_state \<Rightarrow> bool" where
  "poller_inv interest w \<longleftrightarrow>
     (\<forall>p ch. channel_heap w p = Some ch \<longrightarrow> index_ok interest w p ch) \<and>
     (\<forall>fd p. channels w fd = Some p \<longrightarrow> (\<exists>ch. channel_heap w p = Some ch \<and> ch_fd ch = fd)) \<and>
     (\<forall>fd. channels w fd = None \<longrightarrow> interest (epoll w) fd = None) \<and>
     kEventsSize \<le> events_size w"

text \<open>The descriptor of a channel is not used by another registered channel.\<close>

definition fd_free_for :: "ptr \<Rightarrow> ('cb, 'k, 'z) poller_state \<Rightarrow> bool" where
  "fd_free_for p w \<longleftrightarrow> (\<forall>ch. channel_heap w p = Some ch \<longrightarrow> channels w (ch_fd ch) \<in> {None, Some p})"

subsection \<open>The invariant is kept\<close>

lemma poller_invD:
  assumes "poller_inv interest w"
  shows "channel_heap w p = Some ch \<Longrightarrow> index_ok interest w p ch"
    and "channels w fd = Some p \<Longrightarrow> \<exists>ch. channel_heap w p = Some ch \<and> ch_fd ch = fd"
    and "channels w fd = None \<Longrightarrow> interest (epoll w) fd = None"
    and "kEventsSize \<le> events_size w"
  using assms by (auto simp: poller_inv_def)

lemma epoll_okD:
  assumes "epoll_ok ctl interest"
  shows "ctl k EPOLL_CTL_ADD fd ev = (None, k') \<Longrightarrow> interest k fd = None \<and> interest k' = (interest k)(fd \<mapsto> ev)"
    and "ctl k EPOLL_CTL_MOD fd ev = (None, k') \<Longrightarrow> interest k fd \<noteq> None \<and> interest k' = (interest k)(fd \<mapsto> ev)"
    and "ctl k EPOLL_CTL_DEL fd ev = (ret, k') \<Longrightarrow> interest k' = (interest k)(fd := None)"
proof -
  note law = assms [unfolded epoll_ok_def, rule_format, of k fd ev]
  show "ctl k EPOLL_CTL_ADD fd ev = (None, k') \<Longrightarrow> interest k fd = None \<and> interest k' = (interest k)(fd \<mapsto> ev)"
    using conjunct1 [OF law] by simp
  show "ctl k EPOLL_CTL_MOD fd ev = (None, k') \<Longrightarrow> interest k fd \<noteq> None \<and> interest k' = (interest k)(fd \<mapsto> ev)"
    using conjunct1 [OF conjunct2 [OF law]] by simp
  show "ctl k EPOLL_CTL_DEL fd ev = (ret, k') \<Longrightarrow> interest k' = (interest k)(fd := None)"
    using conjunct2 [OF conjunct2 [OF law]] by (cases ret) auto
qed

lemma epoll_acceptsD:
  assumes "epoll_accepts ctl interest"
  shows "interest k fd = None \<Longrightarrow> fst (ctl k EPOLL_CTL_ADD fd ev) = None"
    and "interest k fd \<noteq> None \<Longrightarrow> fst (ctl k EPOLL_CTL_MOD fd ev) = None"
  using assms unfolding epoll_accepts_def by blast+

lemma poller_inv_entry:
  assumes inv: "poller_inv interest w" and p: "channel_heap w p = Some ch" "ch_fd c = ch_fd ch"
    and tabs: "channels w' = (channels w)(ch_fd ch := t)" "t \<in> {None, Some p}" "channels w (ch_fd ch) \<in> {None, Some p}"
    and int: "\<And>fd. fd \<noteq> ch_fd ch \<Longrightarrow> interest (epoll w') fd = interest (epoll w) fd"
      "t = None \<Longrightarrow> interest (epoll w') (ch_fd ch) = None"
    and heap: "channel_heap w' = (channel_heap w)(p \<mapsto> c)" "events_size w' = events_size w"
    and ok: "index_ok interest w' p c"
  shows "poller_inv interest w'"
proof -
  have other: "index_ok interest w' q d" if q: "q \<noteq> p" "channel_heap w q = Some d" for q d
  proof -
    have "index_ok interest w q d"
      using poller_invD(1) [OF inv q(2)] .
    then show ?thesis
      using q tabs int(1) by (cases "ch_fd d = ch_fd ch") (auto simp: index_ok_def)
  qed
  show ?thesis
    unfolding poller_inv_def
  proof (intro conjI allI impI)
    fix q d assume "channel_heap w' q = Some d"
    then show "index_ok interest w' q d"
      using other [of q d] ok heap(1) by (cases "q = p") auto
  next
    fix fd q assume q: "channels w' fd = Some q"
    show "\<exists>ch. channel_heap w' q = Some ch \<and> ch_fd ch = fd"
    proof (cases "fd = ch_fd ch")
      case True
      then show ?thesis
        using q tabs(1,2) heap(1) p(2) by auto
    next
      case False
      then have "channels w fd = Some q"
        using q tabs(1) by simp
      then obtain d where d: "channel_heap w q = Some d" "ch_fd d = fd"
        using poller_invD(2) [OF inv] by blast
      then have "q \<noteq> p"
        using p(1) False by auto
      then show ?thesis
        using d heap(1) by simp
    qed
  next
    fix fd assume "channels w' fd = None"
    then show "interest (epoll w') fd = None"
      using poller_invD(3) [OF inv, of fd] int tabs(1) by (cases "fd = ch_fd ch") auto
  next
    show "kEventsSize \<le> events_size w'"
      using poller_invD(4) [OF inv] heap(2) by simp
  qed
qed

text \<open>\<open>UpdateChannel\<close> after a change of the mask: the only failure is a refusal by the kernel, and
  otherwise the tables follow the new mask.\<close>

definition after_update :: "'cb channel \<Rightarrow> 'cb channel" where
  "after_update ch = ch\<lparr>index := (if index ch = kAddedChannel \<and> IsNoneEvent ch then kDeletedChannel else kAddedChannel)\<rparr>"

definition update_op :: "'cb channel \<Rightarrow> epoll_op" where
  "update_op ch = (if index ch = kAddedChannel then if IsNoneEvent ch then EPOLL_CTL_DEL else EPOLL_CTL_MOD
     else EPOLL_CTL_ADD)"

lemma UpdateChannel_eval:
  assumes p: "channel_heap w p = Some c" and ix: "index c \<in> {kNewChannel, kAddedChannel, kDeletedChannel}"
    and tab: "index c \<noteq> kNewChannel \<Longrightarrow> channels w (ch_fd c) = Some p"
    and ctl: "ctl (epoll w) (update_op c) (ch_fd c) (events c, p) = (ret, k)"
  shows "UpdateChannel ctl p w = (if ret \<noteq> None \<and> update_op c \<noteq> EPOLL_CTL_DEL then Inl Critical
    else Inr (w\<lparr>channel_heap := (channel_heap w)(p \<mapsto> after_update c), channels := (channels w)(ch_fd c \<mapsto> p), epoll := k\<rparr>))"
proof -
  have same: "(channel_heap w)(p \<mapsto> c) = channel_heap w" "index c \<noteq> kNewChannel \<Longrightarrow> (channels w)(ch_fd c \<mapsto> p) = channels w"
    "index c = 1 \<Longrightarrow> (channel_heap w)(p \<mapsto> c\<lparr>index := 1\<rparr>) = channel_heap w"
    using p tab channel.surjective [of c] by auto
  show ?thesis
    using p ix ctl same unfolding UpdateChannel_def update_epoll_operation_def with_channel_def update_op_def after_update_def
    by (cases "index c = kAddedChannel"; cases "IsNoneEvent c"; cases "index c = kNewChannel")
      (simp_all add: index_values andthen_def put_channel_def)
qed

lemma UpdateChannel_sync:
  assumes ok: "epoll_ok ctl interest" and inv: "poller_inv interest w"
    and p: "channel_heap w p = Some ch" "fd_free_for p w"
    and c: "ch_fd c = ch_fd ch" "index c = index ch"
  shows "UpdateChannel ctl p (put_channel p c w) = Inl Critical \<and> \<not> epoll_accepts ctl interest \<or>
    (\<exists>k. let w' = w\<lparr>channel_heap := (channel_heap w)(p \<mapsto> after_update c),
                    channels := (channels w)(ch_fd c \<mapsto> p), epoll := k\<rparr> in
       UpdateChannel ctl p (put_channel p c w) = Inr w' \<and> poller_inv interest w')"
proof -
  have ix: "index_ok interest w p ch" and free: "channels w (ch_fd ch) \<in> {None, Some p}"
    using poller_invD(1) [OF inv p(1)] p by (auto simp: fd_free_for_def)
  have interest: "interest (epoll w) (ch_fd ch) = None \<longleftrightarrow> index ch \<noteq> kAddedChannel"
    using ix free poller_invD(3) [OF inv, of "ch_fd ch"] by (auto simp: index_ok_def index_values)
  obtain ret k where ctl: "ctl (epoll w) (update_op c) (ch_fd c) (events c, p) = (ret, k)"
    by fastforce
  define w' where "w' = w\<lparr>channel_heap := (channel_heap w)(p \<mapsto> after_update c), channels := (channels w)(ch_fd c \<mapsto> p), epoll := k\<rparr>"
  have eval: "UpdateChannel ctl p (put_channel p c w) =
      (if ret \<noteq> None \<and> update_op c \<noteq> EPOLL_CTL_DEL then Inl Critical else Inr w')"
    using ix c ctl UpdateChannel_eval [of "put_channel p c w" p c ctl ret k]
    by (auto simp: put_channel_def w'_def index_ok_def)
  show ?thesis
  proof (cases "ret \<noteq> None \<and> update_op c \<noteq> EPOLL_CTL_DEL")
    case True
    then have "\<not> epoll_accepts ctl interest"
      using ctl interest c epoll_acceptsD [of ctl interest "epoll w" "ch_fd c" "(events c, p)"]
      by (auto simp: update_op_def split: if_splits)
    then show ?thesis
      using eval True by simp
  next
    case False
    have k: "interest k = (interest (epoll w))(ch_fd ch := if update_op c = EPOLL_CTL_DEL then None else Some (events c, p))"
      using False ctl c epoll_okD [OF ok, of "epoll w" "ch_fd c" "(events c, p)"]
      by (cases "update_op c") auto
    have "poller_inv interest w'"
      using free c k
      by (intro poller_inv_entry [OF inv p(1), where c = "after_update c" and t = "Some p"])
        (auto simp: w'_def index_ok_def after_update_def update_op_def index_values split: if_splits)
    then show ?thesis
      using eval False unfolding Let_def w'_def by auto
  qed
qed

text \<open>\<open>RemoveChannel\<close> never fails and takes the channel out of both tables.\<close>

lemma RemoveChannel_sync:
  assumes ok: "epoll_ok ctl interest" and inv: "poller_inv interest w"
    and p: "channel_heap w p = Some ch" "fd_free_for p w"
    and c: "ch_fd c = ch_fd ch" "index c = index ch" "IsNoneEvent c"
  shows "\<exists>k. let w' = w\<lparr>channel_heap := (channel_heap w)(p \<mapsto> c\<lparr>index := kNewChannel\<rparr>),
                    channels := (channels w)(ch_fd c := None), epoll := k\<rparr> in
       RemoveChannel ctl p (put_channel p c w) = Inr w' \<and> poller_inv interest w' \<and> interest k (ch_fd c) = None"
proof -
  have ix: "index_ok interest w p ch" and free: "channels w (ch_fd ch) \<in> {None, Some p}"
    using poller_invD(1) [OF inv p(1)] p by (auto simp: fd_free_for_def)
  obtain ret k where ctl: "ctl (epoll w) EPOLL_CTL_DEL (ch_fd c) (events c, p) = (ret, k)"
    by fastforce
  define k' where "k' = (if index c = kAddedChannel then k else epoll w)"
  define w' where "w' = w\<lparr>channel_heap := (channel_heap w)(p \<mapsto> c\<lparr>index := kNewChannel\<rparr>), channels := (channels w)(ch_fd c := None), epoll := k'\<rparr>"
  have eval: "RemoveChannel ctl p (put_channel p c w) = Inr w'"
    using ctl by (simp add: RemoveChannel_def with_channel_def put_channel_def update_epoll_operation_def andthen_def w'_def k'_def)
  have k': "interest k' = (interest (epoll w))(ch_fd ch := None)"
    using ctl c ix free poller_invD(3) [OF inv, of "ch_fd ch"] epoll_okD(3) [OF ok, of "epoll w" "ch_fd c" "(events c, p)"]
    by (auto simp: k'_def index_ok_def index_values)
  have "poller_inv interest w'"
    using free c k'
    by (intro poller_inv_entry [OF inv p(1), where c = "c\<lparr>index := kNewChannel\<rparr>" and t = None])
      (auto simp: w'_def index_ok_def)
  then show ?thesis
    using eval k' c unfolding Let_def w'_def by auto
qed

subsection \<open>Polling\<close>

interpretation cs: channel_store channel_heap put_channel
  by unfold_locales (simp add: put_channel_def)

text \<open>What \<open>epoll_wait(2)\<close> documents: at most as many events as there is room for, one for each
  descriptor, each with the data stored in the interest list.\<close>

definition wait_ok :: "('k \<Rightarrow> fd \<rightharpoonup> epoll_event) \<Rightarrow> 'k \<Rightarrow> (nat \<Rightarrow> epoll_event list sysret) \<Rightarrow> bool" where
  "wait_ok interest k wait \<longleftrightarrow> (\<forall>n evs. wait n = SysOk evs \<longrightarrow>
     length evs \<le> n \<and> distinct (map snd evs) \<and> (\<forall>x \<in> set evs. \<exists>fd e. interest k fd = Some (e, snd x)))"

definition set_revents_all :: "epoll_event list \<Rightarrow> (ptr \<rightharpoonup> 'cb channel) \<Rightarrow> ptr \<rightharpoonup> 'cb channel" where
  "set_revents_all evs h p = (case map_of (map (\<lambda>(ev, q). (q, ev)) evs) p of
     None \<Rightarrow> h p | Some ev \<Rightarrow> map_option (\<lambda>ch. ch\<lparr>revents := ev\<rparr>) (h p))"

lemma map_of_swap_None: "map_of (map (\<lambda>(ev, q). (q, ev)) evs) p = None \<longleftrightarrow> p \<notin> snd ` set evs"
  by (induction evs) auto

lemma fill_actives_eval:
  assumes "distinct (map snd evs)" "\<forall>x \<in> set evs. channel_heap w (snd x) \<noteq> None"
  shows "fill_actives evs actives w =
    Inr (actives @ map snd evs, w\<lparr>channel_heap := set_revents_all evs (channel_heap w)\<rparr>)"
  using assms
proof (induction evs arbitrary: actives w)
  case Nil
  then show ?case
    by (simp add: set_revents_all_def)
next
  case (Cons x evs)
  obtain ev q where x: "x = (ev, q)"
    by fastforce
  with Cons.prems obtain ch where ch: "channel_heap w q = Some ch"
    by auto
  let ?w = "put_channel q (ch\<lparr>revents := ev\<rparr>) w"
  have "set_revents_all evs (channel_heap ?w) = set_revents_all (x # evs) (channel_heap w)"
    using ch x Cons.prems(1) map_of_swap_None [of evs q]
    by (intro ext) (auto simp: set_revents_all_def put_channel_def split: option.split)
  moreover have "fill_actives evs (actives @ [q]) ?w =
      Inr ((actives @ [q]) @ map snd evs, ?w\<lparr>channel_heap := set_revents_all evs (channel_heap ?w)\<rparr>)"
    using Cons.prems x by (intro Cons.IH) (auto simp: put_channel_def)
  ultimately show ?case
    using ch x by (simp add: with_channel_def put_channel_def)
qed

lemma registered_channel:
  assumes "poller_inv interest w" "interest (epoll w) fd = Some (e, p)"
  shows "\<exists>ch. channel_heap w p = Some ch \<and> ch_fd ch = fd \<and> index ch = kAddedChannel \<and> events ch = e"
proof -
  obtain q where q: "channels w fd = Some q"
    using poller_invD(3) [OF assms(1), of fd] assms(2) by fastforce
  then obtain ch where "channel_heap w q = Some ch" "ch_fd ch = fd"
    using poller_invD(2) [OF assms(1)] by blast
  then show ?thesis
    using poller_invD(1) [OF assms(1), of q ch] assms(2) q by (auto simp: index_ok_def)
qed

lemma poller_inv_revents:
  assumes "poller_inv interest w" "kEventsSize \<le> n"
  shows "poller_inv interest (w\<lparr>channel_heap := set_revents_all evs (channel_heap w), events_size := n\<rparr>)"
proof -
  have heap: "\<exists>d. channel_heap w p = Some d \<and> ch = d\<lparr>revents := revents ch\<rparr>"
    if "set_revents_all evs (channel_heap w) p = Some ch" for p ch
    using that by (auto simp: set_revents_all_def split: option.splits)
  have keep: "\<exists>d. set_revents_all evs (channel_heap w) p = Some d \<and> ch_fd d = ch_fd ch"
    if "channel_heap w p = Some ch" for p ch
    using that by (auto simp: set_revents_all_def split: option.splits)
  have ix: "index_ok interest (w\<lparr>channel_heap := h, events_size := n\<rparr>) p (d\<lparr>revents := r\<rparr>) = index_ok interest w p d"
    for h p d r
    by (simp add: index_ok_def)
  have "index_ok interest (w\<lparr>channel_heap := set_revents_all evs (channel_heap w), events_size := n\<rparr>) p ch"
    if "set_revents_all evs (channel_heap w) p = Some ch" for p ch
    using heap [OF that] poller_invD(1) [OF assms(1)] ix by metis
  then show ?thesis
    using assms(2) keep poller_invD [OF assms(1)] unfolding poller_inv_def by (auto, metis)
qed

text \<open>\<open>Poll\<close> returns the time after the wait and appends the channels of the reported events,
  in the order of the report, each with its \<open>revents_\<close> set; no other channel changes, no reported
  pointer is dangling, the invariant is kept, and the event array grows by half exactly when the
  report has filled it.\<close>

theorem Poll_reports_ready_channels:
  assumes inv: "poller_inv interest w" and wait: "wait_ok interest (epoll w) wait" "wait (events_size w) = SysOk evs"
  shows "\<exists>w'. Poll wait now actives w = Inr (now, actives @ map snd evs, w')
    \<and> channel_heap w' = set_revents_all evs (channel_heap w)
    \<and> channels w' = channels w \<and> epoll w' = epoll w
    \<and> events_size w' = (if length evs = events_size w then length evs + length evs div 2 else events_size w)
    \<and> (events_size w < events_size w' \<longleftrightarrow> length evs = events_size w)
    \<and> poller_inv interest w'"
proof -
  have size: "kEventsSize \<le> events_size w" and len: "length evs \<le> events_size w" "distinct (map snd evs)"
    using poller_invD(4) [OF inv] wait by (auto simp: wait_ok_def)
  have known: "\<forall>x \<in> set evs. channel_heap w (snd x) \<noteq> None"
    using wait registered_channel [OF inv] unfolding wait_ok_def by (metis option.discI)
  define n where "n = (if length evs = events_size w then length evs + length evs div 2 else events_size w)"
  define w' where "w' = w\<lparr>channel_heap := set_revents_all evs (channel_heap w), events_size := n\<rparr>"
  have "set_revents_all [] (channel_heap w) = channel_heap w"
    by (simp add: set_revents_all_def fun_eq_iff)
  then have "Poll wait now actives w = Inr (now, actives @ map snd evs, w')"
    using wait(2) fill_actives_eval [OF len(2) known, of actives] size
    by (auto simp: Poll_def andthen_def w'_def n_def kEventsSize_def)
  moreover have "poller_inv interest w'"
    unfolding w'_def using size by (intro poller_inv_revents [OF inv]) (simp add: n_def)
  moreover have "events_size w < n \<longleftrightarrow> length evs = events_size w"
    using size by (auto simp: n_def kEventsSize_def)
  ultimately show ?thesis
    by (intro exI [of _ w']) (simp add: w'_def n_def)
qed

definition ex_channel :: "fd \<Rightarrow> string channel" where
  "ex_channel fd = \<lparr>ch_loop = 1, ch_fd = fd, events = 3, revents = 0, index = 1, tied = False, tie = 0,
     event_handing = None, added_in_loop = Some True,
     on_read = Some ''read'', on_write = Some ''write'', on_close = Some ''close'', on_error = Some ''error''\<rparr>"

definition ex_poller :: "(string, epoll_table, string list) poller_scheme" where
  "ex_poller = \<lparr>channel_heap = [5 \<mapsto> ex_channel 9], channels = [9 \<mapsto> 5], epoll_fd = 3, events_size = 32,
     epoll = [9 \<mapsto> (3, 5)], \<dots> = []\<rparr>"

definition ex_wait :: "nat \<Rightarrow> epoll_event list sysret" where
  "ex_wait n = SysOk (take n [(1, 5)])"

lemma ex_poller_inv: "poller_inv (\<lambda>k. k) ex_poller"
  by (simp add: poller_inv_def ex_poller_def index_ok_def index_values ex_channel_def kEventsSize_def)

theorem Poll_reports_ready_channels_witness:
  "\<exists>w'. Poll ex_wait 700 [2] ex_poller = Inr (700, [2, 5], w') \<and> poller_inv (\<lambda>k. k) w' \<and> events_size w' = 32
    \<and> channel_heap w' 5 = Some (ex_channel 9\<lparr>revents := EPOLLIN\<rparr>)"
proof -
  have "wait_ok (\<lambda>k. k) (epoll ex_poller) ex_wait"
    by (auto simp: wait_ok_def ex_wait_def ex_poller_def take_Cons' split: if_splits intro!: exI [of _ 9])
  moreover have "ex_wait (events_size ex_poller) = SysOk [(1, 5)]"
    by (simp add: ex_wait_def ex_poller_def)
  ultimately show ?thesis
    using Poll_reports_ready_channels [OF ex_poller_inv, of ex_wait "[(1, 5)]" 700 "[2]"]
    by (auto simp: set_revents_all_def ex_poller_def EPOLLIN_def)
qed


definition ex_run :: "string \<Rightarrow> time_point \<Rightarrow> (string, epoll_table, string list) poller_scheme \<Rightarrow>
    (string, epoll_table, string list) poller_scheme res" where
  "ex_run cb t w = Inr (poller.more_update (\<lambda>l. l @ [cb]) w)"


end
