(* ===== verification/EventLoop.thy ===== *)
theory EventLoop
  imports Poller
begin

text \<open>
  \<open>EventLoop\<close> of \<open>include/benet/eventloop.h\<close> and \<open>src/eventloop.cpp\<close>, and the operations of
  \<open>Channel\<close> that go through the loop to the poller. The state extends that of the poller. The
  calling thread is the argument \<open>me\<close>. Parameters: the system calls of the record \<open>loop_sys\<close>,
  the execution of a channel callback (\<open>run\<close>) and of a queued functor (\<open>exec\<close>), and for
  every iteration of the loop the result of \<open>epoll_wait\<close>, the clock, and what other threads call
  while the loop waits. The interleaving of other threads with the rest of an iteration is the
  subject of the theory \<open>Wakeup\<close>.
\<close>

subsection \<open>State\<close>

record 'k loop_sys =
  sys_ctl :: "'k ctl_fun"
  evfd_write :: "fd \<Rightarrow> 'k \<Rightarrow> int \<times> 'k"
  evfd_read :: "fd \<Rightarrow> 'k \<Rightarrow> int \<times> 'k"

record ('cb, 'k, 'fn) evloop = "('cb, 'k) poller" +
  this_loop :: ptr
  running :: bool
  quitting :: bool
  thread_id :: thread_id
  loop_event_handing :: bool
  poll_return_time :: time_point
  active_channels :: "ptr list"
  current_active_channel :: "ptr option"
  calling_pendings :: bool
  pendings :: "'fn list"
  wakeup_fd :: fd
  wakeup_channel :: ptr
  timer_fd :: fd
  timer_channel :: ptr

type_synonym ('cb, 'k, 'fn, 'z) loop_state = "('cb, 'k, 'fn, 'z) evloop_scheme"

definition IsInLoopThread :: "thread_id \<Rightarrow> ('cb, 'k, 'fn, 'z) loop_state \<Rightarrow> bool" where
  "IsInLoopThread me w \<longleftrightarrow> thread_id w = me"

definition AssertInLoopThread :: "thread_id \<Rightarrow> ('cb, 'k, 'fn, 'z) loop_state \<Rightarrow> 'a res \<Rightarrow> 'a res" where
  "AssertInLoopThread me w k = (if IsInLoopThread me w then k else Inl Critical)"

subsection \<open>Channels through the loop\<close>

definition loop_UpdateChannel :: "'k loop_sys \<Rightarrow> thread_id \<Rightarrow> ptr \<Rightarrow> ('cb, 'k, 'fn, 'z) loop_state \<Rightarrow>
    ('cb, 'k, 'fn, 'z) loop_state res" where
  "loop_UpdateChannel s me p w =
     with_channel channel_heap p w (\<lambda>ch.
       assert_then (ch_loop ch = this_loop w)
         (AssertInLoopThread me w (UpdateChannel (sys_ctl s) p w)))"

definition loop_RemoveChannel :: "'k loop_sys \<Rightarrow> thread_id \<Rightarrow> ptr \<Rightarrow> ('cb, 'k, 'fn, 'z) loop_state \<Rightarrow>
    ('cb, 'k, 'fn, 'z) loop_state res" where
  "loop_RemoveChannel s me p w =
     with_channel channel_heap p w (\<lambda>ch.
       assert_then (ch_loop ch = this_loop w)
         (AssertInLoopThread me w
           (assert_then (loop_event_handing w \<longrightarrow>
                current_active_channel w = Some p \<or> p \<notin> set (active_channels w))
             (RemoveChannel (sys_ctl s) p w))))"

definition update_events :: "'k loop_sys \<Rightarrow> thread_id \<Rightarrow> ptr \<Rightarrow> ('cb, 'k, 'fn, 'z) loop_state \<Rightarrow>
    ('cb, 'k, 'fn, 'z) loop_state res" where
  "update_events s me p w =
     with_channel channel_heap p w (\<lambda>ch.
       loop_UpdateChannel s me p (put_channel p (ch\<lparr>added_in_loop := Some True\<rparr>) w))"

definition EnableReadEvent :: "'k loop_sys \<Rightarrow> thread_id \<Rightarrow> ptr \<Rightarrow> ('cb, 'k, 'fn, 'z) loop_state \<Rightarrow>
    ('cb, 'k, 'fn, 'z) loop_state res" where
  "EnableReadEvent s me p w =
     with_channel channel_heap p w (\<lambda>ch. update_events s me p (put_channel p (enable_read ch) w))"

definition DisableReadEvent :: "'k loop_sys \<Rightarrow> thread_id \<Rightarrow> ptr \<Rightarrow> ('cb, 'k, 'fn, 'z) loop_state \<Rightarrow>
    ('cb, 'k, 'fn, 'z) loop_state res" where
  "DisableReadEvent s me p w =
     with_channel channel_heap p w (\<lambda>ch. update_events s me p (put_channel p (disable_read ch) w))"

definition EnableWriteEvent :: "'k loop_sys \<Rightarrow> thread_id \<Rightarrow> ptr \<Rightarrow> ('cb, 'k, 'fn, 'z) loop_state \<Rightarrow>
    ('cb, 'k, 'fn, 'z) loop_state res" where
  "EnableWriteEvent s me p w =
     with_channel channel_heap p w (\<lambda>ch. update_events s me p (put_channel p (enable_write ch) w))"

definition DisableWriteEvent :: "'k loop_sys \<Rightarrow> thread_id \<Rightarrow> ptr \<Rightarrow> ('cb, 'k, 'fn, 'z) loop_state \<Rightarrow>
    ('cb, 'k, 'fn, 'z) loop_state res" where
  "DisableWriteEvent s me p w =
     with_channel channel_heap p w (\<lambda>ch. update_events s me p (put_channel p (disable_write ch) w))"

definition DisableAllEvent :: "'k loop_sys \<Rightarrow> thread_id \<Rightarrow> ptr \<Rightarrow> ('cb, 'k, 'fn, 'z) loop_state \<Rightarrow>
    ('cb, 'k, 'fn, 'z) loop_state res" where
  "DisableAllEvent s me p w =
     with_channel channel_heap p w (\<lambda>ch. update_events s me p (put_channel p (disable_all ch) w))"

definition RemoveFromLoop :: "'k loop_sys \<Rightarrow> thread_id \<Rightarrow> ptr \<Rightarrow> ('cb, 'k, 'fn, 'z) loop_state \<Rightarrow>
    ('cb, 'k, 'fn, 'z) loop_state res" where
  "RemoveFromLoop s me p w =
     with_channel channel_heap p w (\<lambda>ch.
       assert_then (IsNoneEvent ch)
         (loop_RemoveChannel s me p (put_channel p (ch\<lparr>added_in_loop := Some False\<rparr>) w)))"

definition loop_HasChannel :: "ptr \<Rightarrow> ('cb, 'k, 'fn, 'z) loop_state \<Rightarrow> bool res" where
  [simp]: "loop_HasChannel p w = HasChannel p w"

text \<open>The destructor; the object is gone afterwards.\<close>

definition Channel_dtor :: "thread_id \<Rightarrow> ptr \<Rightarrow> ('cb, 'k, 'fn, 'z) loop_state \<Rightarrow> ('cb, 'k, 'fn, 'z) loop_state res" where
  "Channel_dtor me p w =
     with_channel channel_heap p w (\<lambda>ch.
       assert_flag_clear (event_handing ch) (assert_flag_clear (added_in_loop ch)
         (andthen (if IsInLoopThread me w then loop_HasChannel p w else Inr False) (\<lambda>has.
           assert_then (\<not> has) (Inr (w\<lparr>channel_heap := (channel_heap w)(p := None)\<rparr>))))))"

subsection \<open>Functors and the wake-up descriptor\<close>

text \<open>A short write or read is only logged.\<close>

definition set_wakeup :: "'k loop_sys \<Rightarrow> ('cb, 'k, 'fn, 'z) loop_state \<Rightarrow> ('cb, 'k, 'fn, 'z) loop_state" where
  "set_wakeup s w = w\<lparr>epoll := snd (evfd_write s (wakeup_fd w) (epoll w))\<rparr>"

definition reset_wakeup :: "'k loop_sys \<Rightarrow> ('cb, 'k, 'fn, 'z) loop_state \<Rightarrow> ('cb, 'k, 'fn, 'z) loop_state" where
  "reset_wakeup s w = w\<lparr>epoll := snd (evfd_read s (wakeup_fd w) (epoll w))\<rparr>"

definition QueueInLoop :: "'k loop_sys \<Rightarrow> thread_id \<Rightarrow> 'fn \<Rightarrow> ('cb, 'k, 'fn, 'z) loop_state \<Rightarrow>
    ('cb, 'k, 'fn, 'z) loop_state" where
  "QueueInLoop s me cb w =
     (let w1 = w\<lparr>pendings := pendings w @ [cb]\<rparr> in
      if \<not> IsInLoopThread me w1 \<or> calling_pendings w1 then set_wakeup s w1 else w1)"

definition RunInLoop :: "'k loop_sys \<Rightarrow> ('fn \<Rightarrow> ('cb, 'k, 'fn, 'z) loop_state \<Rightarrow> ('cb, 'k, 'fn, 'z) loop_state res) \<Rightarrow>
    thread_id \<Rightarrow> 'fn \<Rightarrow> ('cb, 'k, 'fn, 'z) loop_state \<Rightarrow> ('cb, 'k, 'fn, 'z) loop_state res" where
  "RunInLoop s exec me cb w = (if IsInLoopThread me w then exec cb w else Inr (QueueInLoop s me cb w))"

definition Stop :: "'k loop_sys \<Rightarrow> thread_id \<Rightarrow> ('cb, 'k, 'fn, 'z) loop_state \<Rightarrow> ('cb, 'k, 'fn, 'z) loop_state" where
  "Stop s me w =
     (let w1 = w\<lparr>quitting := True\<rparr> in if \<not> IsInLoopThread me w1 then set_wakeup s w1 else w1)"

subsection \<open>The loop\<close>

fun handle_actives :: "('cb, ('cb, 'k, 'fn, 'z) loop_state) run_fun \<Rightarrow> (('cb, 'k, 'fn, 'z) loop_state \<Rightarrow> ptr \<Rightarrow> bool) \<Rightarrow>
    ptr list \<Rightarrow> ('cb, 'k, 'fn, 'z) loop_state \<Rightarrow> ('cb, 'k, 'fn, 'z) loop_state res" where
  "handle_actives run alive [] w = Inr w"
| "handle_actives run alive (p # ps) w =
     andthen (HandleEvent channel_heap put_channel alive run p (poll_return_time w)
                (w\<lparr>current_active_channel := Some p\<rparr>))
       (handle_actives run alive ps)"

fun run_pendings :: "('fn \<Rightarrow> ('cb, 'k, 'fn, 'z) loop_state \<Rightarrow> ('cb, 'k, 'fn, 'z) loop_state res) \<Rightarrow> 'fn list \<Rightarrow>
    ('cb, 'k, 'fn, 'z) loop_state \<Rightarrow> ('cb, 'k, 'fn, 'z) loop_state res" where
  "run_pendings exec [] w = Inr w"
| "run_pendings exec (f # fs) w = andthen (exec f w) (run_pendings exec fs)"

text \<open>What other threads do while the loop is in \<open>epoll_wait\<close>.\<close>

datatype 'fn remote = RemoteQueue thread_id 'fn | RemoteStop thread_id

fun remote_step :: "'k loop_sys \<Rightarrow> 'fn remote \<Rightarrow> ('cb, 'k, 'fn, 'z) loop_state \<Rightarrow> ('cb, 'k, 'fn, 'z) loop_state" where
  "remote_step s (RemoteQueue t f) w = QueueInLoop s t f w"
| "remote_step s (RemoteStop t) w = Stop s t w"

record 'fn loop_input =
  in_remote :: "'fn remote list"
  in_wait :: "nat \<Rightarrow> epoll_event list sysret"
  in_now :: time_point

definition loop_iter :: "'k loop_sys \<Rightarrow> ('cb, ('cb, 'k, 'fn, 'z) loop_state) run_fun \<Rightarrow>
    (('cb, 'k, 'fn, 'z) loop_state \<Rightarrow> ptr \<Rightarrow> bool) \<Rightarrow>
    ('fn \<Rightarrow> ('cb, 'k, 'fn, 'z) loop_state \<Rightarrow> ('cb, 'k, 'fn, 'z) loop_state res) \<Rightarrow>
    'fn loop_input \<Rightarrow> ('cb, 'k, 'fn, 'z) loop_state \<Rightarrow> ('cb, 'k, 'fn, 'z) loop_state res" where
  "loop_iter s run alive exec i w =
     andthen (Poll (in_wait i) (in_now i) [] (fold (remote_step s) (in_remote i) (w\<lparr>active_channels := []\<rparr>)))
       (\<lambda>(now, actives, w1).
     andthen (handle_actives run alive actives
         (w1\<lparr>active_channels := actives, poll_return_time := now, loop_event_handing := True\<rparr>)) (\<lambda>w2.
     andthen (run_pendings exec (pendings w2)
         (w2\<lparr>current_active_channel := None, loop_event_handing := False, calling_pendings := True, pendings := []\<rparr>))
       (\<lambda>w3. Inr (w3\<lparr>calling_pendings := False\<rparr>))))"

datatype 'w loop_status = Waiting 'w | Returned 'w

fun loop_while :: "'k loop_sys \<Rightarrow> ('cb, ('cb, 'k, 'fn, 'z) loop_state) run_fun \<Rightarrow>
    (('cb, 'k, 'fn, 'z) loop_state \<Rightarrow> ptr \<Rightarrow> bool) \<Rightarrow>
    ('fn \<Rightarrow> ('cb, 'k, 'fn, 'z) loop_state \<Rightarrow> ('cb, 'k, 'fn, 'z) loop_state res) \<Rightarrow>
    'fn loop_input list \<Rightarrow> ('cb, 'k, 'fn, 'z) loop_state \<Rightarrow> ('cb, 'k, 'fn, 'z) loop_state loop_status res" where
  "loop_while s run alive exec [] w =
     (if quitting w then Inr (Returned (w\<lparr>running := False\<rparr>)) else Inr (Waiting w))"
| "loop_while s run alive exec (i # is) w =
     (if quitting w then Inr (Returned (w\<lparr>running := False\<rparr>))
      else andthen (loop_iter s run alive exec i w) (loop_while s run alive exec is))"

definition Start :: "'k loop_sys \<Rightarrow> ('cb, ('cb, 'k, 'fn, 'z) loop_state) run_fun \<Rightarrow>
    (('cb, 'k, 'fn, 'z) loop_state \<Rightarrow> ptr \<Rightarrow> bool) \<Rightarrow>
    ('fn \<Rightarrow> ('cb, 'k, 'fn, 'z) loop_state \<Rightarrow> ('cb, 'k, 'fn, 'z) loop_state res) \<Rightarrow> thread_id \<Rightarrow>
    'fn loop_input list \<Rightarrow> ('cb, 'k, 'fn, 'z) loop_state \<Rightarrow> ('cb, 'k, 'fn, 'z) loop_state loop_status res" where
  "Start s run alive exec me inputs w =
     AssertInLoopThread me w (assert_then (\<not> running w) (assert_then (\<not> quitting w)
       (loop_while s run alive exec inputs (w\<lparr>running := True\<rparr>))))"

subsection \<open>The loop's channels\<close>

text \<open>Every channel belongs to the loop and no two channels share a descriptor.\<close>

definition loop_inv :: "('k \<Rightarrow> fd \<rightharpoonup> epoll_event) \<Rightarrow> ('cb, 'k, 'fn, 'z) loop_state \<Rightarrow> bool" where
  "loop_inv interest w \<longleftrightarrow> poller_inv interest w
     \<and> (\<forall>p q a b. channel_heap w p = Some a \<longrightarrow> channel_heap w q = Some b \<longrightarrow> ch_fd a = ch_fd b \<longrightarrow> p = q)
     \<and> (\<forall>p a. channel_heap w p = Some a \<longrightarrow> ch_loop a = this_loop w)"

lemma loop_invD:
  assumes "loop_inv interest w"
  shows "poller_inv interest w" "channel_heap w p = Some a \<Longrightarrow> ch_loop a = this_loop w" "fd_free_for p w"
proof -
  show inv: "poller_inv interest w" and "channel_heap w p = Some a \<Longrightarrow> ch_loop a = this_loop w"
    using assms by (auto simp: loop_inv_def)
  show "fd_free_for p w"
    unfolding fd_free_for_def
  proof (intro allI impI)
    fix ch assume ch: "channel_heap w p = Some ch"
    show "channels w (ch_fd ch) \<in> {None, Some p}"
    proof (cases "channels w (ch_fd ch)")
      case (Some q)
      then obtain d where "channel_heap w q = Some d" "ch_fd d = ch_fd ch"
        using poller_invD(2) [OF inv] by blast
      then have "q = p"
        using assms ch unfolding loop_inv_def by blast
      then show ?thesis
        using Some by simp
    qed simp
  qed
qed

lemma loop_inv_fd:
  "loop_inv interest w \<Longrightarrow> channel_heap w p = Some a \<Longrightarrow> channel_heap w q = Some b \<Longrightarrow> ch_fd a = ch_fd b \<Longrightarrow> p = q"
  unfolding loop_inv_def by blast

text \<open>The state after a channel operation on \<open>p\<close>: its channel, the poller's entry of its
  descriptor and the kernel state have changed.\<close>

definition channel_changed :: "ptr \<Rightarrow> 'cb channel \<Rightarrow> ptr option \<Rightarrow> 'k \<Rightarrow> ('cb, 'k, 'fn, 'z) loop_state \<Rightarrow>
    ('cb, 'k, 'fn, 'z) loop_state" where
  "channel_changed p c t k w = w\<lparr>channel_heap := (channel_heap w)(p \<mapsto> c), channels := (channels w)(ch_fd c := t), epoll := k\<rparr>"

lemma loop_inv_changed:
  assumes "loop_inv interest w" "channel_heap w p = Some ch" "ch_fd c = ch_fd ch" "ch_loop c = ch_loop ch"
    "poller_inv interest (channel_changed p c t k w)"
  shows "loop_inv interest (channel_changed p c t k w)"
proof -
  have owner: "ch_loop a = this_loop w" if "((channel_heap w)(p \<mapsto> c)) q = Some a" for q a
    using that assms(1,2,4) by (cases "q = p") (auto simp: loop_inv_def)
  have unique: "q = r" if qr: "((channel_heap w)(p \<mapsto> c)) q = Some a" "((channel_heap w)(p \<mapsto> c)) r = Some b" "ch_fd a = ch_fd b" for q r a b
  proof -
    have old: "\<exists>d'. channel_heap w x = Some d' \<and> ch_fd d' = ch_fd d" if "((channel_heap w)(p \<mapsto> c)) x = Some d" for x d
      using that assms(2,3) by (cases "x = p") auto
    obtain a' where a': "channel_heap w q = Some a'" "ch_fd a' = ch_fd a"
      using old [OF qr(1)] by blast
    obtain b' where b': "channel_heap w r = Some b'" "ch_fd b' = ch_fd b"
      using old [OF qr(2)] by blast
    show ?thesis
      using loop_inv_fd [OF assms(1) a'(1) b'(1)] a'(2) b'(2) qr(3) by simp
  qed
  have heap: "channel_heap (channel_changed p c t k w) = (channel_heap w)(p \<mapsto> c)" "this_loop (channel_changed p c t k w) = this_loop w"
    by (simp_all add: channel_changed_def)
  show ?thesis
    unfolding loop_inv_def heap using assms(5) owner unique by blast
qed

definition update_mask :: "'k loop_sys \<Rightarrow> thread_id \<Rightarrow> ('cb channel \<Rightarrow> 'cb channel) \<Rightarrow> ptr \<Rightarrow>
    ('cb, 'k, 'fn, 'z) loop_state \<Rightarrow> ('cb, 'k, 'fn, 'z) loop_state res" where
  "update_mask s me f p w = with_channel channel_heap p w (\<lambda>ch. update_events s me p (put_channel p (f ch) w))"

lemma mask_operations:
  "EnableReadEvent s me = update_mask s me enable_read" "DisableReadEvent s me = update_mask s me disable_read"
  "EnableWriteEvent s me = update_mask s me enable_write" "DisableWriteEvent s me = update_mask s me disable_write"
  "DisableAllEvent s me = update_mask s me disable_all"
  by (simp_all add: fun_eq_iff update_mask_def EnableReadEvent_def DisableReadEvent_def EnableWriteEvent_def
      DisableWriteEvent_def DisableAllEvent_def)

definition masked :: "('cb channel \<Rightarrow> 'cb channel) \<Rightarrow> 'cb channel \<Rightarrow> 'cb channel" where
  "masked f ch = after_update ((f ch)\<lparr>added_in_loop := Some True\<rparr>)"

definition mask_only :: "('cb channel \<Rightarrow> 'cb channel) \<Rightarrow> bool" where
  "mask_only f \<longleftrightarrow> (\<forall>ch. f ch = ch\<lparr>events := events (f ch)\<rparr>)"

lemma mask_only_ops: "mask_only enable_read" "mask_only disable_read" "mask_only enable_write"
  "mask_only disable_write" "mask_only disable_all"
  by (simp_all add: mask_only_def enable_read_def disable_read_def enable_write_def disable_write_def disable_all_def)

lemma mask_onlyD:
  assumes "mask_only f"
  shows "ch_fd (f ch) = ch_fd ch" "index (f ch) = index ch" "ch_loop (f ch) = ch_loop ch"
    "ch_fd (masked f ch) = ch_fd ch" "ch_loop (masked f ch) = ch_loop ch" "events (masked f ch) = events (f ch)"
proof -
  have f: "f ch = ch\<lparr>events := events (f ch)\<rparr>"
    using assms by (simp add: mask_only_def)
  show base: "ch_fd (f ch) = ch_fd ch" "index (f ch) = index ch" "ch_loop (f ch) = ch_loop ch"
    by (subst f; simp)+
  then show "ch_fd (masked f ch) = ch_fd ch" "ch_loop (masked f ch) = ch_loop ch" "events (masked f ch) = events (f ch)"
    by (simp_all add: masked_def after_update_def)
qed

lemma masked_events [simp]:
  "mask_only f \<Longrightarrow> IsWriteEvent (masked f ch) = IsWriteEvent (f ch)"
  "mask_only f \<Longrightarrow> IsReadEvent (masked f ch) = IsReadEvent (f ch)"
  "mask_only f \<Longrightarrow> IsNoneEvent (masked f ch) = IsNoneEvent (f ch)"
  by (simp_all add: IsWriteEvent_def IsReadEvent_def IsNoneEvent_def mask_onlyD(6))

lemma update_mask_sync:
  assumes ok: "epoll_ok (sys_ctl s) interest" and inv: "loop_inv interest w" and me: "IsInLoopThread me w"
    and p: "channel_heap w p = Some ch" and f: "mask_only f"
  shows "update_mask s me f p w = Inl Critical \<and> \<not> epoll_accepts (sys_ctl s) interest \<or>
    (\<exists>k. update_mask s me f p w = Inr (channel_changed p (masked f ch) (Some p) k w)
       \<and> loop_inv interest (channel_changed p (masked f ch) (Some p) k w))"
proof -
  define c where "c = (f ch)\<lparr>added_in_loop := Some True\<rparr>"
  have c: "ch_fd c = ch_fd ch" "index c = index ch" "ch_loop c = ch_loop ch" "after_update c = masked f ch"
    using mask_onlyD [OF f] by (simp_all add: c_def masked_def)
  have call: "update_mask s me f p w = UpdateChannel (sys_ctl s) p (put_channel p c w)"
    using p me c(3) loop_invD(2) [OF inv p]
    by (simp add: update_mask_def with_channel_def update_events_def put_channel_def loop_UpdateChannel_def
        AssertInLoopThread_def IsInLoopThread_def c_def)
  show ?thesis
    using UpdateChannel_sync [OF ok loop_invD(1) [OF inv] p loop_invD(3) [OF inv] c(1,2)]
      loop_inv_changed [OF inv p, of "masked f ch" "Some p"] mask_onlyD(4,5) [OF f]
    unfolding call by (auto simp: Let_def channel_changed_def c)
qed

lemma RemoveFromLoop_sync:
  assumes ok: "epoll_ok (sys_ctl s) interest" and inv: "loop_inv interest w" and me: "IsInLoopThread me w"
    and p: "channel_heap w p = Some ch"
  shows "if IsNoneEvent ch \<and> (loop_event_handing w \<longrightarrow> current_active_channel w = Some p \<or> p \<notin> set (active_channels w))
    then \<exists>k. RemoveFromLoop s me p w = Inr (channel_changed p (ch\<lparr>added_in_loop := Some False, index := kNewChannel\<rparr>) None k w)
       \<and> loop_inv interest (channel_changed p (ch\<lparr>added_in_loop := Some False, index := kNewChannel\<rparr>) None k w)
       \<and> interest k (ch_fd ch) = None
    else RemoveFromLoop s me p w = Inl AssertFail"
proof -
  define c where "c = ch\<lparr>added_in_loop := Some False\<rparr>"
  have c: "ch_fd c = ch_fd ch" "index c = index ch" "ch_loop c = ch_loop ch"
    by (simp_all add: c_def)
  have call: "RemoveFromLoop s me p w = (if IsNoneEvent ch \<and>
      (loop_event_handing w \<longrightarrow> current_active_channel w = Some p \<or> p \<notin> set (active_channels w))
      then RemoveChannel (sys_ctl s) p (put_channel p c w) else Inl AssertFail)"
    using p me c(3) loop_invD(2) [OF inv p]
    by (simp add: RemoveFromLoop_def with_channel_def put_channel_def loop_RemoveChannel_def
        AssertInLoopThread_def IsInLoopThread_def c_def assert_then_def)
  have "IsNoneEvent ch \<Longrightarrow> IsNoneEvent c"
    by (simp add: c_def)
  then show ?thesis
    using RemoveChannel_sync [OF ok loop_invD(1) [OF inv] p loop_invD(3) [OF inv] c(1,2)]
      loop_inv_changed [OF inv p, of "c\<lparr>index := kNewChannel\<rparr>" None] c
    unfolding call by (auto simp: Let_def channel_changed_def c_def)
qed

subsection \<open>Sequences of channel operations\<close>

datatype channel_op = OpEnableRead | OpDisableRead | OpEnableWrite | OpDisableWrite | OpDisableAll | OpRemove

fun channel_exec :: "'k loop_sys \<Rightarrow> thread_id \<Rightarrow> channel_op \<Rightarrow> ptr \<Rightarrow> ('cb, 'k, 'fn, 'z) loop_state \<Rightarrow>
    ('cb, 'k, 'fn, 'z) loop_state res" where
  "channel_exec s me OpEnableRead p w = EnableReadEvent s me p w"
| "channel_exec s me OpDisableRead p w = DisableReadEvent s me p w"
| "channel_exec s me OpEnableWrite p w = EnableWriteEvent s me p w"
| "channel_exec s me OpDisableWrite p w = DisableWriteEvent s me p w"
| "channel_exec s me OpDisableAll p w = DisableAllEvent s me p w"
| "channel_exec s me OpRemove p w = RemoveFromLoop s me p w"

fun channel_exec_list :: "'k loop_sys \<Rightarrow> thread_id \<Rightarrow> (channel_op \<times> ptr) list \<Rightarrow> ('cb, 'k, 'fn, 'z) loop_state \<Rightarrow>
    ('cb, 'k, 'fn, 'z) loop_state res" where
  "channel_exec_list s me [] w = Inr w"
| "channel_exec_list s me ((op, p) # ops) w = andthen (channel_exec s me op p w) (channel_exec_list s me ops)"

text \<open>The abstract view: a mask for each channel.\<close>

fun op_mask :: "channel_op \<Rightarrow> events \<Rightarrow> events" where
  "op_mask OpEnableRead ev = ev OR kReadEvent"
| "op_mask OpDisableRead ev = ev AND NOT kReadEvent"
| "op_mask OpEnableWrite ev = ev OR kWriteEvent"
| "op_mask OpDisableWrite ev = ev AND NOT kWriteEvent"
| "op_mask OpDisableAll ev = kNoneEvent"
| "op_mask OpRemove ev = ev"

definition mask_after :: "(channel_op \<times> ptr) list \<Rightarrow> ptr \<Rightarrow> events \<Rightarrow> events" where
  "mask_after ops p ev = fold (\<lambda>(op, q) e. if q = p then op_mask op e else e) ops ev"

definition removable :: "ptr \<Rightarrow> ('cb, 'k, 'fn, 'z) loop_state \<Rightarrow> bool" where
  "removable p w \<longleftrightarrow> (\<forall>ch. channel_heap w p = Some ch \<longrightarrow> IsNoneEvent ch)
     \<and> (loop_event_handing w \<longrightarrow> current_active_channel w = Some p \<or> p \<notin> set (active_channels w))"

lemma channel_exec_cases:
  assumes "epoll_ok (sys_ctl s) interest" "loop_inv interest w" "IsInLoopThread me w" "channel_heap w p = Some ch"
  shows "channel_exec s me op p w = Inl Critical \<and> \<not> epoll_accepts (sys_ctl s) interest
    \<or> channel_exec s me op p w = Inl AssertFail \<and> op = OpRemove \<and> \<not> removable p w
    \<or> (\<exists>c t k. channel_exec s me op p w = Inr (channel_changed p c t k w) \<and> loop_inv interest (channel_changed p c t k w)
         \<and> ch_fd c = ch_fd ch \<and> events c = op_mask op (events ch))"
proof -
  have mask: ?thesis if f: "mask_only f" "channel_exec s me op p w = update_mask s me f p w" "events (f ch) = op_mask op (events ch)" for f
    using update_mask_sync [OF assms f(1)] mask_onlyD(4,6) [OF f(1), of ch] unfolding f(2) f(3) [symmetric] by fastforce
  note defs = mask_operations enable_read_def disable_read_def enable_write_def disable_write_def disable_all_def
  show ?thesis
  proof (cases op)
    case OpRemove
    then show ?thesis
      using RemoveFromLoop_sync [OF assms] assms(4) by (fastforce simp: removable_def split: if_splits)
  next
    case OpEnableRead
    then show ?thesis by (intro mask [OF mask_only_ops(1)]) (simp_all add: defs)
  next
    case OpDisableRead
    then show ?thesis by (intro mask [OF mask_only_ops(2)]) (simp_all add: defs)
  next
    case OpEnableWrite
    then show ?thesis by (intro mask [OF mask_only_ops(3)]) (simp_all add: defs)
  next
    case OpDisableWrite
    then show ?thesis by (intro mask [OF mask_only_ops(4)]) (simp_all add: defs)
  next
    case OpDisableAll
    then show ?thesis by (intro mask [OF mask_only_ops(5)]) (simp_all add: defs)
  qed
qed

lemma channel_watched:
  assumes "loop_inv interest w" "channel_heap w p = Some ch" "events ch \<noteq> 0"
  shows "interest (epoll w) (ch_fd ch) = Some (events ch, p)"
  using poller_invD(1) [OF loop_invD(1) [OF assms(1)] assms(2)] assms(3)
  by (auto simp: index_ok_def IsNoneEvent_def kNoneEvent_def)

text \<open>What the operations \<open>ops\<close> leave of each channel, and which operation is to blame for a failed
  assertion.\<close>

definition follows :: "('k \<Rightarrow> fd \<rightharpoonup> epoll_event) \<Rightarrow> (channel_op \<times> ptr) list \<Rightarrow> ('cb, 'k, 'fn, 'z) loop_state \<Rightarrow> ('cb, 'k, 'fn, 'z) loop_state \<Rightarrow> bool" where
  "follows interest ops w w' \<longleftrightarrow> (\<forall>p ch. channel_heap w p = Some ch \<longrightarrow>
        (\<exists>ch'. channel_heap w' p = Some ch' \<and> ch_fd ch' = ch_fd ch \<and> events ch' = mask_after ops p (events ch)
          \<and> (events ch' \<noteq> 0 \<longrightarrow> interest (epoll w') (ch_fd ch) = Some (events ch', p))))"

definition remove_blamed :: "'k loop_sys \<Rightarrow> thread_id \<Rightarrow> (channel_op \<times> ptr) list \<Rightarrow> ('cb, 'k, 'fn, 'z) loop_state \<Rightarrow> bool" where
  "remove_blamed s me ops w \<longleftrightarrow> (\<exists>pre p post w1. ops = pre @ (OpRemove, p) # post
            \<and> channel_exec_list s me pre w = Inr w1 \<and> \<not> removable p w1)"

lemma follows_Cons:
  assumes "channel_heap w p = Some ch" "channel_heap v = (channel_heap w)(p \<mapsto> c)" "ch_fd c = ch_fd ch" "events c = op_mask op (events ch)"
    and rest: "follows interest ops v w'"
  shows "follows interest ((op, p) # ops) w w'"
  unfolding follows_def
proof (intro allI impI)
  fix q d assume d: "channel_heap w q = Some d"
  have all: "\<exists>ch'. channel_heap w' q = Some ch' \<and> ch_fd ch' = ch_fd e \<and> events ch' = mask_after ops q (events e)
      \<and> (events ch' \<noteq> 0 \<longrightarrow> interest (epoll w') (ch_fd e) = Some (events ch', q))" if "channel_heap v q = Some e" for e
    using rest that unfolding follows_def by blast
  show "\<exists>ch'. channel_heap w' q = Some ch' \<and> ch_fd ch' = ch_fd d \<and> events ch' = mask_after ((op, p) # ops) q (events d)
      \<and> (events ch' \<noteq> 0 \<longrightarrow> interest (epoll w') (ch_fd d) = Some (events ch', q))"
    using all [of "if q = p then c else d"] d assms(1-4) by (cases "q = p") (simp_all add: mask_after_def)
qed

lemma remove_blamed_here: "\<not> removable p w \<Longrightarrow> remove_blamed s me ((OpRemove, p) # ops) w"
  unfolding remove_blamed_def by (intro exI [of _ "[]"] exI [of _ p] exI [of _ ops] exI [of _ w]) simp

lemma remove_blamed_Cons:
  assumes "channel_exec s me op p w = Inr v" "remove_blamed s me ops v"
  shows "remove_blamed s me ((op, p) # ops) w"
proof -
  obtain pre q post w1 where "ops = pre @ (OpRemove, q) # post" "channel_exec_list s me pre v = Inr w1" "\<not> removable q w1"
    using assms(2) by (auto simp: remove_blamed_def)
  then show ?thesis
    unfolding remove_blamed_def using assms(1)
    by (intro exI [of _ "(op, p) # pre"] exI [of _ q] exI [of _ post] exI [of _ w1]) simp
qed

lemma channel_exec_list_sync:
  assumes kernel: "epoll_ok (sys_ctl s) interest" and "loop_inv interest w" "IsInLoopThread me w"
    "\<forall>(op, p) \<in> set ops. channel_heap w p \<noteq> None"
  shows "case channel_exec_list s me ops w of
      Inr w' \<Rightarrow> loop_inv interest w' \<and> follows interest ops w w'
    | Inl e \<Rightarrow> e = Critical \<and> \<not> epoll_accepts (sys_ctl s) interest \<or> e = AssertFail \<and> remove_blamed s me ops w"
  using assms(2-)
proof (induction ops arbitrary: w)
  case Nil
  then show ?case
    using channel_watched by (fastforce simp: mask_after_def follows_def)
next
  case (Cons x ops)
  obtain op p where x: "x = (op, p)"
    by fastforce
  with Cons.prems obtain ch where ch: "channel_heap w p = Some ch"
    by auto
  consider (crit) "channel_exec s me op p w = Inl Critical" "\<not> epoll_accepts (sys_ctl s) interest"
    | (fail) "channel_exec s me op p w = Inl AssertFail" "op = OpRemove" "\<not> removable p w"
    | (ok) c t k where "channel_exec s me op p w = Inr (channel_changed p c t k w)" "loop_inv interest (channel_changed p c t k w)"
        "ch_fd c = ch_fd ch" "events c = op_mask op (events ch)"
    using channel_exec_cases [OF kernel Cons.prems(1,2) ch, of op] by blast
  then show ?case
  proof cases
    case crit
    then show ?thesis by (simp add: x)
  next
    case fail
    then show ?thesis
      using remove_blamed_here by (simp add: x)
  next
    case ok
    let ?w = "channel_changed p c t k w"
    have heap: "channel_heap ?w = (channel_heap w)(p \<mapsto> c)" and me: "IsInLoopThread me ?w"
      using Cons.prems(2) by (simp_all add: channel_changed_def IsInLoopThread_def)
    have ptrs: "\<forall>(op, q) \<in> set ops. channel_heap ?w q \<noteq> None"
      using Cons.prems(3) by (auto simp: heap)
    show ?thesis
      using Cons.IH [OF ok(2) me ptrs] follows_Cons [OF ch heap ok(3,4)] remove_blamed_Cons [OF ok(1)]
      by (auto simp: x ok(1) split: sum.splits)
  qed
qed

text \<open>C5: any sequence of enabling, disabling and removing channels in the loop thread leaves the
  poller's table, the indices and the kernel's interest list in agreement: every channel has the
  mask that the sequence gives it, and a channel with a non-empty mask is watched by the kernel
  with that mask. The sequence fails only when the kernel refuses a legal call, or at the removal
  of a channel that still has events or is about to be handled.\<close>

theorem channel_ops_in_sync:
  assumes kernel: "epoll_ok (sys_ctl s) interest" and "loop_inv interest w" "IsInLoopThread me w"
    "\<forall>(op, p) \<in> set ops. channel_heap w p \<noteq> None"
  shows "case channel_exec_list s me ops w of
      Inr w' \<Rightarrow> loop_inv interest w' \<and> (\<forall>p ch. channel_heap w p = Some ch \<longrightarrow>
        (\<exists>ch'. channel_heap w' p = Some ch' \<and> ch_fd ch' = ch_fd ch \<and> events ch' = mask_after ops p (events ch)
          \<and> (events ch' \<noteq> 0 \<longrightarrow> interest (epoll w') (ch_fd ch) = Some (events ch', p))))
    | Inl e \<Rightarrow> e = Critical \<and> \<not> epoll_accepts (sys_ctl s) interest
        \<or> e = AssertFail \<and> (\<exists>pre p post w1. ops = pre @ (OpRemove, p) # post
            \<and> channel_exec_list s me pre w = Inr w1 \<and> \<not> removable p w1)"
  using channel_exec_list_sync [OF assms] unfolding follows_def remove_blamed_def .

subsection \<open>Stopping the loop\<close>

definition exec_keeps :: "('w \<Rightarrow> bool) \<Rightarrow> ('fn \<Rightarrow> 'w \<Rightarrow> 'w res) \<Rightarrow> bool" where
  "exec_keeps P exec \<longleftrightarrow> (\<forall>f w w'. P w \<longrightarrow> exec f w = Inr w' \<longrightarrow> P w')"

lemma run_pendings_keeps: "exec_keeps P exec \<Longrightarrow> P w \<Longrightarrow> run_pendings exec fs w = Inr w' \<Longrightarrow> P w'"
  by (induction fs arbitrary: w) (auto simp: res_simps exec_keeps_def)

lemma handle_actives_keeps:
  assumes "run_keeps P run"
    "\<And>p ch h w. P w \<Longrightarrow> channel_heap w p = Some ch \<Longrightarrow> P (put_channel p (ch\<lparr>event_handing := h\<rparr>) w)"
    "\<And>p w. P w \<Longrightarrow> P (w\<lparr>current_active_channel := p\<rparr>)"
  shows "P w \<Longrightarrow> handle_actives run alive ps w = Inr w' \<Longrightarrow> P w'"
proof (induction ps arbitrary: w)
  case (Cons p ps)
  then obtain w1 where w1: "HandleEvent channel_heap put_channel alive run p (poll_return_time w)
      (w\<lparr>current_active_channel := Some p\<rparr>) = Inr w1" "handle_actives run alive ps w1 = Inr w'"
    by (auto simp: res_simps)
  have "P w1"
    using HandleEvent_keeps [OF assms(1,2) assms(3) [OF Cons.prems(1)] w1(1)] by blast
  then show ?case
    using Cons.IH w1(2) by blast
qed simp

lemma fill_actives_quitting:
  "fill_actives evs acts w = Inr (acts', w') \<Longrightarrow> quitting w' = quitting w \<and> running w' = running w"
  by (induction evs acts w rule: fill_actives.induct) (auto simp: res_simps put_channel_def)

lemma Poll_quitting:
  "Poll wait now acts w = Inr (t, acts', w') \<Longrightarrow> quitting w' = quitting w \<and> running w' = running w"
  by (auto simp: Poll_def res_simps split: sysret.splits if_splits dest: fill_actives_quitting)

lemma remote_step_quitting:
  "quitting (fold (remote_step s) rs w) \<longleftrightarrow> quitting w \<or> (\<exists>t. RemoteStop t \<in> set rs)"
proof (induction rs arbitrary: w)
  case (Cons r rs)
  then show ?case
    by (cases r) (auto simp: QueueInLoop_def Stop_def set_wakeup_def Let_def)
qed simp

lemma loop_iter_quitting:
  assumes run: "run_keeps quitting run" and exec: "exec_keeps quitting exec"
    and it: "loop_iter s run alive exec i w = Inr w'" "quitting w \<or> (\<exists>t. RemoteStop t \<in> set (in_remote i))"
  shows "quitting w'"
proof -
  from it(1) obtain now acts w1 w2 w3 where
    poll: "Poll (in_wait i) (in_now i) [] (fold (remote_step s) (in_remote i) (w\<lparr>active_channels := []\<rparr>)) = Inr (now, acts, w1)"
    and acts: "handle_actives run alive acts (w1\<lparr>active_channels := acts, poll_return_time := now, loop_event_handing := True\<rparr>) = Inr w2"
    and pend: "run_pendings exec (pendings w2) (w2\<lparr>current_active_channel := None, loop_event_handing := False,
        calling_pendings := True, pendings := []\<rparr>) = Inr w3"
    and w': "w' = w3\<lparr>calling_pendings := False\<rparr>"
    by (auto simp: loop_iter_def res_simps)
  have "quitting w1"
    using Poll_quitting [OF poll] it(2) by (auto simp: remote_step_quitting)
  then have "quitting w2"
    by (intro handle_actives_keeps [OF run _ _ _ acts]) (simp_all add: put_channel_def)
  then have "quitting w3"
    by (intro run_pendings_keeps [OF exec _ pend]) simp
  then show ?thesis
    by (simp add: w')
qed

lemma loop_while_append:
  "loop_while s run alive exec (pre @ post) w =
     andthen (loop_while s run alive exec pre w) (\<lambda>st. case st of
       Returned v \<Rightarrow> Inr (Returned v) | Waiting v \<Rightarrow> loop_while s run alive exec post v)"
proof (induction pre arbitrary: w)
  case Nil
  show ?case
    by (cases post) simp_all
next
  case (Cons i pre)
  then show ?case
    by (cases "loop_iter s run alive exec i w") simp_all
qed

text \<open>C27: when another thread calls \<open>Stop\<close> while the loop waits, \<open>Start\<close> finishes that iteration
  and returns, whatever would happen later; it returns with \<open>running_\<close> false. The callbacks and
  functors may do anything except clear \<open>quitting_\<close>, which no code of the library does.\<close>

theorem Start_returns_after_Stop:
  assumes run: "run_keeps quitting run" and exec: "exec_keeps quitting exec"
    and stop: "RemoteStop t \<in> set (in_remote i)"
    and ok: "Start s run alive exec me (pre @ [i]) w = Inr st"
  shows "\<exists>v. st = Returned v \<and> \<not> running v \<and> quitting v
    \<and> Start s run alive exec me (pre @ i # post) w = Inr (Returned v)"
proof -
  let ?w = "w\<lparr>running := True\<rparr>"
  have start: "Start s run alive exec me is w = loop_while s run alive exec is ?w" for "is"
    using ok by (auto simp: Start_def AssertInLoopThread_def assert_then_def split: if_splits)
  have ret: "\<exists>v. st' = Returned v \<and> \<not> running v \<and> quitting v"
    if "loop_while s run alive exec [i] w0 = Inr st'" for w0 st'
    using that loop_iter_quitting [OF run exec, of s alive i] stop by (auto simp: res_simps split: if_splits)
  have early: "\<not> running v \<and> quitting v" if "loop_while s run alive exec is w0 = Inr (Returned v)" for "is" w0 v
    using that by (induction "is" arbitrary: w0) (auto simp: res_simps split: if_splits)
  have "\<exists>v. st = Returned v \<and> \<not> running v \<and> quitting v"
  proof -
    obtain st' where st': "loop_while s run alive exec pre ?w = Inr st'"
      "(case st' of Returned v \<Rightarrow> Inr (Returned v) | Waiting v \<Rightarrow> loop_while s run alive exec [i] v) = Inr st"
      using ok unfolding start loop_while_append andthen_eq_Inr by blast
    then show ?thesis
      using ret early by (cases st') auto
  qed
  moreover have "loop_while s run alive exec ((pre @ [i]) @ post) ?w = Inr st" if "st = Returned v" for v
    using ok that unfolding start loop_while_append [of _ _ _ _ "pre @ [i]"] by simp
  ultimately show ?thesis
    unfolding start by auto
qed

subsection \<open>Adding and deleting channels\<close>

lemma loop_inv_put:
  assumes "loop_inv interest w" "channel_heap w p = Some ch"
    "ch_fd c = ch_fd ch" "ch_loop c = ch_loop ch" "index c = index ch" "events c = events ch"
  shows "loop_inv interest (put_channel p c w)"
proof -
  have free: "channels w (ch_fd ch) \<in> {None, Some p}"
    using loop_invD(3) [OF assms(1)] assms(2) by (auto simp: fd_free_for_def)
  have ix: "index_ok interest w p ch"
    using poller_invD(1) [OF loop_invD(1) [OF assms(1)] assms(2)] .
  have eq: "put_channel p c w = channel_changed p c (channels w (ch_fd c)) (epoll w) w"
    by (simp add: channel_changed_def put_channel_def)
  have "poller_inv interest (put_channel p c w)"
    using free ix assms(3-) poller_invD(3) [OF loop_invD(1) [OF assms(1)]]
    by (intro poller_inv_entry [OF loop_invD(1) [OF assms(1)] assms(2), where c = c and t = "channels w (ch_fd ch)"])
      (auto simp: put_channel_def index_ok_def IsNoneEvent_def)
  then show ?thesis
    unfolding eq by (intro loop_inv_changed [OF assms(1,2)]) (use assms(3,4) in simp_all)
qed

lemma loop_inv_epoll:
  assumes "loop_inv interest w" "interest k = interest (epoll w)"
  shows "loop_inv interest (w\<lparr>epoll := k\<rparr>)"
  using assms by (simp add: loop_inv_def poller_inv_def index_ok_def)

lemma loop_inv_new_channel:
  assumes "loop_inv interest w" "channel_heap w p = None" "\<And>q d. channel_heap w q = Some d \<Longrightarrow> ch_fd d \<noteq> ch_fd ch"
    "ch_loop ch = this_loop w" "index ch = kNewChannel" "IsNoneEvent ch"
  shows "loop_inv interest (w\<lparr>channel_heap := (channel_heap w)(p \<mapsto> ch)\<rparr>)"
proof -
  note pinv = poller_invD [OF loop_invD(1) [OF assms(1)]]
  have free: "channels w fd \<noteq> Some p" for fd
    using pinv(2) [of fd p] assms(2) by auto
  have ix: "index_ok interest (w\<lparr>channel_heap := h\<rparr>) q d = index_ok interest w q d" for h q d
    by (simp add: index_ok_def)
  have "index_ok interest w q d" if "((channel_heap w)(p \<mapsto> ch)) q = Some d" for q d
    using that pinv(1) free assms(5,6) by (cases "q = p") (auto simp: index_ok_def)
  moreover have "\<exists>d. ((channel_heap w)(p \<mapsto> ch)) q = Some d \<and> ch_fd d = fd" if "channels w fd = Some q" for fd q
    using pinv(2) [OF that] free [of fd] that by auto
  ultimately have "poller_inv interest (w\<lparr>channel_heap := (channel_heap w)(p \<mapsto> ch)\<rparr>)"
    using pinv(3,4) unfolding poller_inv_def ix by simp
  then show ?thesis
    using assms(1,4) unfolding loop_inv_def by (auto split: if_splits dest: assms(3) assms(3) [THEN not_sym])
qed

lemma loop_inv_delete_channel:
  assumes "loop_inv interest w" "channel_heap w p = Some ch" "channels w (ch_fd ch) = None"
  shows "loop_inv interest (w\<lparr>channel_heap := (channel_heap w)(p := None)\<rparr>)"
proof -
  note pinv = poller_invD [OF loop_invD(1) [OF assms(1)]]
  have ix: "index_ok interest (w\<lparr>channel_heap := h\<rparr>) q d = index_ok interest w q d" for h q d
    by (simp add: index_ok_def)
  have "channels w fd \<noteq> Some p" for fd
    using pinv(2) [of fd p] assms(2,3) by auto
  then have "\<exists>d. ((channel_heap w)(p := None)) q = Some d \<and> ch_fd d = fd" if "channels w fd = Some q" for fd q
    using pinv(2) [OF that] that by auto
  then have "poller_inv interest (w\<lparr>channel_heap := (channel_heap w)(p := None)\<rparr>)"
    using pinv(1,3,4) unfolding poller_inv_def ix by (auto split: if_splits)
  then show ?thesis
    using assms(1) unfolding loop_inv_def by (auto split: if_splits)
qed

text \<open>A channel operation that the kernel does not refuse.\<close>

lemma update_mask_ok:
  assumes "epoll_ok (sys_ctl s) interest" "epoll_accepts (sys_ctl s) interest" "loop_inv interest w"
    "IsInLoopThread me w" "channel_heap w p = Some ch" "mask_only f"
  obtains k where "update_mask s me f p w = Inr (channel_changed p (masked f ch) (Some p) k w)"
    "loop_inv interest (channel_changed p (masked f ch) (Some p) k w)"
  using update_mask_sync [OF assms(1,3-6)] assms(2) by blast

lemma channel_changed_simps [simp]:
  "channel_heap (channel_changed p c t k w) = (channel_heap w)(p \<mapsto> c)"
  "channels (channel_changed p c t k w) = (channels w)(ch_fd c := t)"
  "epoll (channel_changed p c t k w) = k"
  "IsInLoopThread me (channel_changed p c t k w) = IsInLoopThread me w"
  "running (channel_changed p c t k w) = running w" "quitting (channel_changed p c t k w) = quitting w"
  "loop_event_handing (channel_changed p c t k w) = loop_event_handing w"
  "current_active_channel (channel_changed p c t k w) = current_active_channel w"
  "active_channels (channel_changed p c t k w) = active_channels w"
  "pendings (channel_changed p c t k w) = pendings w"
  "wakeup_channel (channel_changed p c t k w) = wakeup_channel w"
  "timer_channel (channel_changed p c t k w) = timer_channel w"
  "wakeup_fd (channel_changed p c t k w) = wakeup_fd w" "timer_fd (channel_changed p c t k w) = timer_fd w"
  "epoll_fd (channel_changed p c t k w) = epoll_fd w" "this_loop (channel_changed p c t k w) = this_loop w"
  by (simp_all add: channel_changed_def IsInLoopThread_def)

lemma put_channel_simps [simp]:
  "channel_heap (put_channel p c w) = (channel_heap w)(p \<mapsto> c)"
  "IsInLoopThread me (put_channel p c w) = IsInLoopThread me w"
  "running (put_channel p c w) = running w" "quitting (put_channel p c w) = quitting w"
  "pendings (put_channel p c w) = pendings w"
  "wakeup_channel (put_channel p c w) = wakeup_channel w" "timer_channel (put_channel p c w) = timer_channel w"
  "wakeup_fd (put_channel p c w) = wakeup_fd w" "timer_fd (put_channel p c w) = timer_fd w"
  "epoll_fd (put_channel p c w) = epoll_fd w" "this_loop (put_channel p c w) = this_loop w"
  by (simp_all add: put_channel_def IsInLoopThread_def)

text \<open>Binding the read callback and enabling reading, as the two constructors do.\<close>

lemma bind_and_enable:
  assumes "epoll_ok (sys_ctl s) interest" "epoll_accepts (sys_ctl s) interest" "loop_inv interest w"
    "IsInLoopThread me w" "channel_heap w p = Some ch"
  obtains k where "EnableReadEvent s me p (put_channel p (BindReadCallback cb ch) w) =
      Inr (channel_changed p (masked enable_read (BindReadCallback cb ch)) (Some p) k (put_channel p (BindReadCallback cb ch) w))"
    "loop_inv interest (channel_changed p (masked enable_read (BindReadCallback cb ch)) (Some p) k
       (put_channel p (BindReadCallback cb ch) w))"
proof -
  let ?c = "BindReadCallback cb ch"
  have inv: "loop_inv interest (put_channel p ?c w)"
    by (intro loop_inv_put [OF assms(3,5)]) (simp_all add: BindReadCallback_def)
  have p: "IsInLoopThread me (put_channel p ?c w)" "channel_heap (put_channel p ?c w) p = Some ?c"
    using assms(4) by simp_all
  show thesis
    using update_mask_ok [OF assms(1,2) inv p mask_only_ops(1)] that unfolding mask_operations by metis
qed

lemma disable_and_remove:
  assumes ok: "epoll_ok (sys_ctl s) interest" "epoll_accepts (sys_ctl s) interest" and inv: "loop_inv interest w"
    and me: "IsInLoopThread me w" and p: "channel_heap w p = Some ch" and idle: "\<not> loop_event_handing w"
  obtains k1 k2 c where
    "DisableAllEvent s me p w = Inr (channel_changed p (masked disable_all ch) (Some p) k1 w)"
    "RemoveFromLoop s me p (channel_changed p (masked disable_all ch) (Some p) k1 w) = Inr (channel_changed p c None k2 w)"
    "loop_inv interest (channel_changed p c None k2 w)" "interest k2 (ch_fd ch) = None"
    "ch_fd c = ch_fd ch" "event_handing c = event_handing ch" "added_in_loop c = Some False"
proof -
  let ?m = "masked disable_all ch"
  obtain k1 where w1: "DisableAllEvent s me p w = Inr (channel_changed p ?m (Some p) k1 w)"
      "loop_inv interest (channel_changed p ?m (Some p) k1 w)"
    using update_mask_ok [OF ok inv me p mask_only_ops(5)] unfolding mask_operations by blast
  let ?w1 = "channel_changed p ?m (Some p) k1 w"
  let ?c = "?m\<lparr>added_in_loop := Some False, index := kNewChannel\<rparr>"
  have none: "IsNoneEvent ?m" and keep: "ch_fd ?m = ch_fd ch" "event_handing ?m = event_handing ch"
    by (simp_all add: masked_def after_update_def disable_all_def IsNoneEvent_def)
  have p1: "channel_heap ?w1 p = Some ?m"
    by simp
  obtain k2 where w2: "RemoveFromLoop s me p ?w1 = Inr (channel_changed p ?c None k2 ?w1)"
      "loop_inv interest (channel_changed p ?c None k2 ?w1)" "interest k2 (ch_fd ?m) = None"
    using RemoveFromLoop_sync [OF ok(1) w1(2) _ p1] me none idle by auto
  have "channel_changed p ?c None k2 ?w1 = channel_changed p ?c None k2 w"
    by (simp add: channel_changed_def)
  then show thesis
    using that [of k1 ?c k2] w1(1) w2 keep by simp
qed

lemma Channel_dtor_removed:
  assumes "channel_heap w p = Some ch" "added_in_loop ch = Some False" "channels w (ch_fd ch) \<noteq> Some p"
  shows "Channel_dtor me p w = (case event_handing ch of
      None \<Rightarrow> Inl Indeterminate | Some True \<Rightarrow> Inl AssertFail
    | Some False \<Rightarrow> Inr (w\<lparr>channel_heap := (channel_heap w)(p := None)\<rparr>))"
  using assms by (auto simp: Channel_dtor_def with_channel_def assert_flag_clear_def HasChannel_def assert_then_def
      split: option.split bool.split)

subsection \<open>Examples\<close>

definition ex_sys :: "epoll_table loop_sys" where
  "ex_sys = \<lparr>sys_ctl = epoll_table_ctl, evfd_write = (\<lambda>fd k. (8, k)), evfd_read = (\<lambda>fd k. (8, k))\<rparr>"

definition ex_read_channel :: "fd \<Rightarrow> bool option \<Rightarrow> string channel" where
  "ex_read_channel fd h = \<lparr>ch_loop = 1, ch_fd = fd, events = 3, revents = 0, index = 1, tied = False, tie = 0,
     event_handing = h, added_in_loop = Some True,
     on_read = Some ''read'', on_write = None, on_close = None, on_error = None\<rparr>"

definition ex_loop :: "bool option \<Rightarrow> (string, epoll_table, nat) evloop" where
  "ex_loop h = \<lparr>channel_heap = [10 \<mapsto> ex_read_channel 4 (Some False), 11 \<mapsto> ex_read_channel 5 h],
     channels = [4 \<mapsto> 10, 5 \<mapsto> 11], epoll_fd = 3, events_size = 32, epoll = [4 \<mapsto> (3, 10), 5 \<mapsto> (3, 11)],
     this_loop = 1, running = False, quitting = False, thread_id = 7, loop_event_handing = False,
     poll_return_time = 0, active_channels = [], current_active_channel = None, calling_pendings = False,
     pendings = [], wakeup_fd = 4, wakeup_channel = 10, timer_fd = 5, timer_channel = 11\<rparr>"

lemma ex_sys_ok: "epoll_ok (sys_ctl ex_sys) (\<lambda>k. k)" "epoll_accepts (sys_ctl ex_sys) (\<lambda>k. k)"
  using epoll_table_ok by (simp_all add: ex_sys_def)

lemma ex_loop_inv: "loop_inv (\<lambda>k. k) (ex_loop h)"
  by (auto simp: loop_inv_def poller_inv_def ex_loop_def index_ok_def index_values ex_read_channel_def kEventsSize_def
      split: if_splits)

lemma ex_loop_simps [simp]:
  "IsInLoopThread 7 (ex_loop h)" "\<not> running (ex_loop h)" "\<not> quitting (ex_loop h)" "\<not> loop_event_handing (ex_loop h)"
  "wakeup_channel (ex_loop h) = 10" "timer_channel (ex_loop h) = 11"
  "channel_heap (ex_loop h) 10 = Some (ex_read_channel 4 (Some False))" "channel_heap (ex_loop h) 11 = Some (ex_read_channel 5 h)"
  by (simp_all add: ex_loop_def IsInLoopThread_def)

theorem channel_ops_in_sync_witness:
  "\<exists>w'. channel_exec_list ex_sys 7 [(OpEnableWrite, 11), (OpDisableRead, 11)] (ex_loop None) = Inr w'
    \<and> loop_inv (\<lambda>k. k) w' \<and> epoll w' 5 = Some (EPOLLOUT, 11)"
proof -
  let ?ops = "[(OpEnableWrite, 11), (OpDisableRead, 11)]"
  have "\<forall>(op, p) \<in> set ?ops. channel_heap (ex_loop None) p \<noteq> None"
    by simp
  note sync = channel_ops_in_sync [OF ex_sys_ok(1) ex_loop_inv [of None] ex_loop_simps(1) this]
  have masks: "(3 OR 4 :: events) AND NOT 3 = 4"
    by (simp add: bit_eq_iff bit_simps)
  have norem: "\<not> (\<exists>pre p post. ?ops = pre @ (OpRemove, p) # post)"
    by (auto simp: Cons_eq_append_conv)
  then obtain w' where w': "channel_exec_list ex_sys 7 ?ops (ex_loop None) = Inr w'"
    using sync ex_sys_ok(2) by (cases "channel_exec_list ex_sys 7 ?ops (ex_loop None)") auto
  have "mask_after ?ops 11 3 = EPOLLOUT"
    using masks by (simp add: mask_after_def event_bits)
  then show ?thesis
    using sync unfolding w' by (auto simp: ex_read_channel_def event_bits dest!: spec [where x = 11])
qed

definition ex_input :: "nat remote list \<Rightarrow> nat loop_input" where
  "ex_input rs = \<lparr>in_remote = rs, in_wait = (\<lambda>n. SysOk []), in_now = 0\<rparr>"

theorem Start_returns_after_Stop_witness:
  "\<exists>v. Start ex_sys (\<lambda>cb t w. Inr w) (\<lambda>w p. True) (\<lambda>f w. Inr w) 7
      ([ex_input []] @ ex_input [RemoteQueue 8 3, RemoteStop 8] # [ex_input []]) (ex_loop None) = Inr (Returned v)
    \<and> \<not> running v"
proof -
  let ?run = "\<lambda>(cb :: string) (t :: time_point) (w :: (string, epoll_table, nat) evloop). (Inr w :: (string, epoll_table, nat) evloop res)"
  let ?exec = "\<lambda>(f :: nat) (w :: (string, epoll_table, nat) evloop). (Inr w :: (string, epoll_table, nat) evloop res)"
  have keeps: "run_keeps quitting ?run" "exec_keeps quitting ?exec"
    by (simp_all add: run_keeps_def exec_keeps_def)
  obtain st where st: "Start ex_sys ?run (\<lambda>w p. True) ?exec 7 ([ex_input []] @ [ex_input [RemoteQueue 8 3, RemoteStop 8]]) (ex_loop None) = Inr st"
    by (simp add: Start_def AssertInLoopThread_def loop_iter_def Poll_def ex_input_def QueueInLoop_def Stop_def Let_def
        ex_loop_def IsInLoopThread_def set_wakeup_def)
  have stop: "RemoteStop 8 \<in> set (in_remote (ex_input [RemoteQueue 8 3, RemoteStop 8]))"
    by (simp add: ex_input_def)
  from Start_returns_after_Stop [OF keeps stop st, where post = "[ex_input []]"] show ?thesis
    by (elim exE conjE) (intro exI conjI)
qed

end
