(* ===== verification/Ordered_Set.thy ===== *)
theory Ordered_Set
  imports Benet_Prelude "HOL-Library.Product_Lexorder"
begin

text \<open>
  The part of \<open>std::set\<close> the timer queue uses. A set is the list of its elements in
  iteration order, strictly increasing in the order of the elements; on pairs this is the
  lexicographic order of \<open>std::pair\<close>. The locale states the contract, its interpretation
  shows that the list operations provide it.
\<close>

abbreviation ordered :: "'a::linorder list \<Rightarrow> bool" where
  "ordered xs \<equiv> sorted_wrt (<) xs"

fun os_insert :: "'a::linorder \<Rightarrow> 'a list \<Rightarrow> 'a list" where
  "os_insert x [] = [x]"
| "os_insert x (y # ys) =
     (if x < y then x # y # ys else if x = y then y # ys else y # os_insert x ys)"

fun os_erase :: "'a::linorder \<Rightarrow> 'a list \<Rightarrow> 'a list" where
  "os_erase x [] = []"
| "os_erase x (y # ys) = (if x = y then ys else y # os_erase x ys)"

text \<open>The ranges \<open>[begin(), lower_bound(x))\<close> and \<open>[lower_bound(x), end())\<close>.\<close>

definition os_before :: "'a::linorder \<Rightarrow> 'a list \<Rightarrow> 'a list" where
  "os_before x ys = takeWhile (\<lambda>y. y < x) ys"

definition os_from :: "'a::linorder \<Rightarrow> 'a list \<Rightarrow> 'a list" where
  "os_from x ys = dropWhile (\<lambda>y. y < x) ys"

locale ordered_set =
  fixes inv :: "'s \<Rightarrow> bool" and elems :: "'s \<Rightarrow> ('a::linorder) list"
    and ins :: "'a \<Rightarrow> 's \<Rightarrow> 's" and del :: "'a \<Rightarrow> 's \<Rightarrow> 's"
    and before :: "'a \<Rightarrow> 's \<Rightarrow> 's" and since :: "'a \<Rightarrow> 's \<Rightarrow> 's"
  assumes inv_elems: "inv s \<Longrightarrow> ordered (elems s)"
    and inv_ops: "inv s \<Longrightarrow> inv (ins x s) \<and> inv (del x s) \<and> inv (before x s) \<and> inv (since x s)"
    and elems_ins: "set (elems (ins x s)) = insert x (set (elems s))"
    and elems_del: "inv s \<Longrightarrow> set (elems (del x s)) = set (elems s) - {x}"
    and elems_split: "elems s = elems (before x s) @ elems (since x s)"
    and before_less: "y \<in> set (elems (before x s)) \<Longrightarrow> y < x"
    and from_ge: "inv s \<Longrightarrow> y \<in> set (elems (since x s)) \<Longrightarrow> x \<le> y"
begin

lemma before_iff: "inv s \<Longrightarrow> y \<in> set (elems (before x s)) \<longleftrightarrow> y \<in> set (elems s) \<and> y < x"
  using elems_split [of s x] before_less [of y x s] from_ge [of s y x] by auto

lemma from_iff: "inv s \<Longrightarrow> y \<in> set (elems (since x s)) \<longleftrightarrow> y \<in> set (elems s) \<and> x \<le> y"
  using elems_split [of s x] before_less [of y x s] from_ge [of s y x] by auto

lemma min_first: "inv s \<Longrightarrow> elems s = y # ys \<Longrightarrow> z \<in> set (elems s) \<Longrightarrow> y \<le> z"
  using inv_elems [of s] by (auto intro: less_imp_le)

lemma before_filter: "inv s \<Longrightarrow> elems (before x s) = filter (\<lambda>y. y < x) (elems s)"
  using elems_split [of s x] before_less [of _ x s] from_ge [of s _ x]
  by (auto simp: filter_empty_conv not_less intro!: filter_True [symmetric])

end

lemma set_os_insert: "set (os_insert x ys) = insert x (set ys)"
  by (induction ys) auto

lemma ordered_os_insert: "ordered ys \<Longrightarrow> ordered (os_insert x ys)"
  by (induction ys) (auto simp: set_os_insert)

lemma set_os_erase: "ordered ys \<Longrightarrow> set (os_erase x ys) = set ys - {x}"
  by (induction ys) auto

lemma set_os_erase_subset: "set (os_erase x ys) \<subseteq> set ys"
  by (induction ys) auto

lemma ordered_os_erase: "ordered ys \<Longrightarrow> ordered (os_erase x ys)"
  by (induction ys) (auto dest: set_os_erase_subset [THEN subsetD])

lemma ordered_from_ge: "ordered ys \<Longrightarrow> y \<in> set (os_from x ys) \<Longrightarrow> x \<le> y"
  by (induction ys) (auto simp: os_from_def split: if_splits)

interpretation os: ordered_set ordered "\<lambda>xs. xs" os_insert os_erase os_before os_from
  by unfold_locales
    (auto simp: os_before_def os_from_def set_os_insert ordered_os_insert set_os_erase
      ordered_os_erase sorted_wrt_takeWhile sorted_wrt_dropWhile
      ordered_from_ge [unfolded os_from_def] dest: set_takeWhileD)

end
