(* ===== verification/TimerQueue.thy ===== *)
theory TimerQueue
  imports Timer Ordered_Set
begin

text \<open>
  \<open>TimerQueue\<close> of \<open>include/benet/timer_queue.h\<close> and \<open>src/timer_queue.cpp\<close>. The queue holds
  the timers in the order of their expiration (\<open>std::set<std::pair<TimePoint, TimerPtr>>\<close>);
  the objects behind the shared pointers live in a heap. The operations that
  \<open>RunInLoop\<close> runs in the loop thread are \<open>AddTimer_task\<close> and \<open>CancelTimer_task\<close>; the read
  callback of the timer file descriptor is \<open>timerfd_callback\<close>.

  Parameters: \<open>alloc\<close> is \<open>std::make_shared\<close> (an address that is not in use), \<open>settime\<close> the
  result of \<open>timerfd_settime\<close>, and \<open>body\<close> gives for each timer callback the calls it makes
  on the queue, with the reading of the clock that each call would take. \<open>run_log\<close> records
  the timers whose callback was run, in order.
\<close>

subsection \<open>State\<close>

type_synonym timespec = "int \<times> int"

record 'cb timer_queue =
  timers :: "(time_point \<times> ptr) list"
  calling_expired_timers :: bool
  canceling_timers :: "ptr list"
  timer_heap :: "ptr \<rightharpoonup> 'cb timer"
  pending_adds :: "ptr list"
  expired_timer :: "(time_point \<times> ptr) list"
  timerfd_armed :: "(time_point \<times> timespec) option"
  run_log :: "ptr list"

text \<open>
  \<open>pending_adds\<close> are the timers captured by functors that are still queued in the loop, and
  \<open>expired_timer\<close> is the local vector of the read callback: together with the two sets they
  are what keeps a timer alive. \<open>timerfd_armed\<close> is the value of the last
  \<open>timerfd_settime\<close>, with the reading of the clock from which it was computed.
\<close>

definition TimerQueue_ctor :: "'cb timer_queue" where
  "TimerQueue_ctor = \<lparr>timers = [], calling_expired_timers = False, canceling_timers = [],
     timer_heap = Map.empty, pending_adds = [], expired_timer = [], timerfd_armed = None,
     run_log = []\<rparr>"

definition timer_alive :: "'cb timer_queue \<Rightarrow> ptr \<Rightarrow> bool" where
  "timer_alive q p \<longleftrightarrow> p \<in> snd ` set (timers q) \<or> p \<in> set (canceling_timers q)
     \<or> p \<in> set (pending_adds q) \<or> p \<in> snd ` set (expired_timer q)"

subsection \<open>The timer file descriptor\<close>

definition how_long_from_now :: "time_point \<Rightarrow> time_point \<Rightarrow> timespec" where
  "how_long_from_now now time =
     (if time \<le> now then (0, 1)
      else let diff = time - now; s = diff div 10 ^ 9; n = diff - s * 10 ^ 9 in (s, n))"

type_synonym settime_fun = "timespec \<Rightarrow> errno option"

definition set_timerfd ::
  "settime_fun \<Rightarrow> time_point \<Rightarrow> time_point \<Rightarrow> 'cb timer_queue \<Rightarrow> 'cb timer_queue res" where
  "set_timerfd settime now exp q =
     (let val = how_long_from_now now exp
      in case settime val of
           Some e \<Rightarrow> Inl Critical
         | None \<Rightarrow> Inr (q\<lparr>timerfd_armed := Some (now, val)\<rparr>))"

subsection \<open>Adding and cancelling\<close>

definition tq_insert :: "ptr \<Rightarrow> 'cb timer_queue \<Rightarrow> (bool \<times> 'cb timer_queue) res" where
  "tq_insert p q =
     (case timer_heap q p of
        None \<Rightarrow> Inl Dangling
      | Some timer \<Rightarrow>
          let when = expiration timer;
              earliest_changed = (case timers q of [] \<Rightarrow> True | it # _ \<Rightarrow> when < fst it)
          in assert_then ((when, p) \<notin> set (timers q))
               (Inr (earliest_changed, q\<lparr>timers := os_insert (when, p) (timers q)\<rparr>)))"

definition AddTimer_task ::
  "settime_fun \<Rightarrow> time_point \<Rightarrow> ptr \<Rightarrow> 'cb timer_queue \<Rightarrow> 'cb timer_queue res" where
  "AddTimer_task settime now p q =
     andthen (tq_insert p q) (\<lambda>(earliest_changed, q1).
       andthen (if earliest_changed
                then case timer_heap q1 p of
                       None \<Rightarrow> Inl Dangling
                     | Some timer \<Rightarrow> set_timerfd settime now (expiration timer) q1
                else Inr q1) (\<lambda>q2.
         Inr (q2\<lparr>pending_adds := removeAll p (pending_adds q2)\<rparr>)))"

type_synonym 'cb alloc_fun = "(ptr \<rightharpoonup> 'cb timer) \<Rightarrow> ptr"

text \<open>\<open>AddTimer\<close> up to the call of \<open>RunInLoop\<close>, whose functor keeps the timer alive.\<close>

definition AddTimer_new ::
  "'cb alloc_fun \<Rightarrow> 'cb \<Rightarrow> time_point \<Rightarrow> dbl \<Rightarrow> 'cb timer_queue \<Rightarrow> ptr \<times> 'cb timer_queue" where
  "AddTimer_new alloc cb when iv q =
     (let p = alloc (timer_heap q)
      in (p, q\<lparr>timer_heap := (timer_heap q)(p \<mapsto> Timer_ctor cb when iv),
               pending_adds := pending_adds q @ [p]\<rparr>))"

text \<open>\<open>AddTimer\<close> called in the loop thread: \<open>RunInLoop\<close> runs the functor at once.\<close>

definition AddTimer_in_loop ::
  "'cb alloc_fun \<Rightarrow> settime_fun \<Rightarrow> time_point \<Rightarrow> 'cb \<Rightarrow> time_point \<Rightarrow> dbl \<Rightarrow>
   'cb timer_queue \<Rightarrow> (ptr \<times> 'cb timer_queue) res" where
  "AddTimer_in_loop alloc settime now cb when iv q =
     (let (p, q1) = AddTimer_new alloc cb when iv q
      in andthen (AddTimer_task settime now p q1) (\<lambda>q2. Inr (p, q2)))"

definition CancelTimer_task :: "ptr \<Rightarrow> 'cb timer_queue \<Rightarrow> 'cb timer_queue res" where
  "CancelTimer_task p q =
     (if \<not> timer_alive q p then Inr q
      else case timer_heap q p of
        None \<Rightarrow> Inl Dangling
      | Some timer \<Rightarrow>
          if (expiration timer, p) \<in> set (timers q)
          then Inr (q\<lparr>timers := os_erase (expiration timer, p) (timers q)\<rparr>)
          else if calling_expired_timers q
          then Inr (q\<lparr>canceling_timers := os_insert p (canceling_timers q)\<rparr>)
          else Inr q)"

subsection \<open>The read callback\<close>

datatype 'cb tq_call = CallAdd 'cb time_point dbl time_point | CallCancel ptr

fun tq_exec :: "'cb alloc_fun \<Rightarrow> settime_fun \<Rightarrow> 'cb tq_call \<Rightarrow> 'cb timer_queue \<Rightarrow> 'cb timer_queue res" where
  "tq_exec alloc settime (CallAdd cb when iv clock) q =
     andthen (AddTimer_in_loop alloc settime clock cb when iv q) (\<lambda>(p, q'). Inr q')"
| "tq_exec alloc settime (CallCancel p) q = CancelTimer_task p q"

fun tq_exec_list ::
  "'cb alloc_fun \<Rightarrow> settime_fun \<Rightarrow> 'cb tq_call list \<Rightarrow> 'cb timer_queue \<Rightarrow> 'cb timer_queue res" where
  "tq_exec_list alloc settime [] q = Inr q"
| "tq_exec_list alloc settime (c # cs) q =
     andthen (tq_exec alloc settime c q) (tq_exec_list alloc settime cs)"

definition Run ::
  "'cb alloc_fun \<Rightarrow> settime_fun \<Rightarrow> ('cb \<Rightarrow> 'cb tq_call list) \<Rightarrow> ptr \<Rightarrow>
   'cb timer_queue \<Rightarrow> 'cb timer_queue res" where
  "Run alloc settime body p q =
     (case timer_heap q p of
        None \<Rightarrow> Inl Dangling
      | Some timer \<Rightarrow>
          tq_exec_list alloc settime (body (callback timer)) (q\<lparr>run_log := run_log q @ [p]\<rparr>))"

fun run_expired ::
  "'cb alloc_fun \<Rightarrow> settime_fun \<Rightarrow> ('cb \<Rightarrow> 'cb tq_call list) \<Rightarrow> (time_point \<times> ptr) list \<Rightarrow>
   'cb timer_queue \<Rightarrow> 'cb timer_queue res" where
  "run_expired alloc settime body [] q = Inr q"
| "run_expired alloc settime body (entry # es) q =
     andthen (Run alloc settime body (snd entry) q) (run_expired alloc settime body es)"

definition restart_one :: "time_point \<Rightarrow> ptr \<Rightarrow> 'cb timer_queue \<Rightarrow> 'cb timer_queue res" where
  "restart_one now p q =
     (case timer_heap q p of
        None \<Rightarrow> Inl Dangling
      | Some timer \<Rightarrow>
          if \<not> IsRepeat timer then Inr q
          else if p \<in> set (canceling_timers q) then Inr q
          else andthen (Restart timer now) (\<lambda>timer'.
                 andthen (tq_insert p (q\<lparr>timer_heap := (timer_heap q)(p \<mapsto> timer')\<rparr>))
                   (\<lambda>(_, q'). Inr q')))"

fun restart_expired ::
  "time_point \<Rightarrow> (time_point \<times> ptr) list \<Rightarrow> 'cb timer_queue \<Rightarrow> 'cb timer_queue res" where
  "restart_expired now [] q = Inr q"
| "restart_expired now (entry # es) q =
     andthen (restart_one now (snd entry) q) (restart_expired now es)"

definition rearm :: "settime_fun \<Rightarrow> time_point \<Rightarrow> 'cb timer_queue \<Rightarrow> 'cb timer_queue res" where
  "rearm settime clock q =
     andthen (case timers q of
                [] \<Rightarrow> Inr InvalidTimePoint
              | entry # _ \<Rightarrow> (case timer_heap q (snd entry) of
                    None \<Rightarrow> Inl Dangling
                  | Some timer \<Rightarrow> Inr (expiration timer))) (\<lambda>next_expired_time.
       if next_expired_time \<noteq> InvalidTimePoint
       then set_timerfd settime clock next_expired_time q
       else Inr q)"

text \<open>
  \<open>now\<close> is the clock when the callback starts, \<open>clock\<close> the clock when it arms the file
  descriptor again. Reading the expiration count (\<open>reset_timerfd\<close>) only logs on failure.
\<close>

definition timerfd_callback ::
  "'cb alloc_fun \<Rightarrow> settime_fun \<Rightarrow> ('cb \<Rightarrow> 'cb tq_call list) \<Rightarrow> time_point \<Rightarrow> time_point \<Rightarrow>
   'cb timer_queue \<Rightarrow> 'cb timer_queue res" where
  "timerfd_callback alloc settime body now clock q =
     (let anchor = (now, 0);
          expired = os_before anchor (timers q);
          rest = os_from anchor (timers q)
      in assert_then (rest = [] \<or> now < fst (hd rest))
        (let q1 = q\<lparr>timers := rest, expired_timer := expired,
                    calling_expired_timers := True, canceling_timers := []\<rparr>
         in andthen (run_expired alloc settime body expired q1) (\<lambda>q2.
            andthen (restart_expired now expired (q2\<lparr>calling_expired_timers := False\<rparr>)) (\<lambda>q3.
            andthen (rearm settime clock q3) (\<lambda>q4.
              Inr (q4\<lparr>expired_timer := []\<rparr>))))))"

subsection \<open>Well-formed queues\<close>

text \<open>
  Every entry carries the expiration of its timer, the sets only hold live timers, and a
  timer is in at most one of the queue and the functors still to be run. While the expired
  timers are being run (\<open>tq_split\<close>) they are not in the queue either.
\<close>

definition tq_wf :: "'cb timer_queue \<Rightarrow> bool" where
  "tq_wf q \<longleftrightarrow> ordered (timers q) \<and> ordered (canceling_timers q)
     \<and> (\<forall>e\<in>set (timers q). \<exists>tm. timer_heap q (snd e) = Some tm \<and> expiration tm = fst e)
     \<and> finite (dom (timer_heap q)) \<and> timer_heap q 0 = None
     \<and> (\<forall>p tm. timer_heap q p = Some tm \<longrightarrow> repeat tm = dbl_pos (interval tm))
     \<and> (\<forall>p. timer_alive q p \<longrightarrow> timer_heap q p \<noteq> None)
     \<and> set (pending_adds q) \<inter> snd ` set (timers q) = {}
     \<and> set (pending_adds q) \<inter> snd ` set (expired_timer q) = {}"

definition tq_split :: "'cb timer_queue \<Rightarrow> bool" where
  "tq_split q \<longleftrightarrow> snd ` set (timers q) \<inter> snd ` set (expired_timer q) = {}"

definition alloc_ok :: "'cb alloc_fun \<Rightarrow> bool" where
  "alloc_ok alloc \<longleftrightarrow> (\<forall>h. finite (dom h) \<longrightarrow> h (alloc h) = None \<and> alloc h \<noteq> 0)"

text \<open>\<open>timerfd_settime\<close> refuses only times that are out of range.\<close>

definition settime_ok :: "settime_fun \<Rightarrow> bool" where
  "settime_ok settime \<longleftrightarrow> (\<forall>s n. 0 \<le> s \<and> 0 \<le> n \<and> n < 10 ^ 9 \<longrightarrow> settime (s, n) = None)"

lemma tq_wfD:
  assumes "tq_wf q"
  shows "ordered (timers q)" "ordered (canceling_timers q)"
    "finite (dom (timer_heap q))" "timer_heap q 0 = None"
    "\<And>p tm. timer_heap q p = Some tm \<Longrightarrow> repeat tm = dbl_pos (interval tm)"
    "\<And>p. timer_alive q p \<Longrightarrow> timer_heap q p \<noteq> None"
    "set (pending_adds q) \<inter> snd ` set (timers q) = {}"
    "set (pending_adds q) \<inter> snd ` set (expired_timer q) = {}"
  using assms by (simp_all add: tq_wf_def)

lemma expired_in_heap: "tq_wf q \<Longrightarrow> snd ` set (expired_timer q) \<subseteq> dom (timer_heap q)"
proof
  fix p assume "tq_wf q" and "p \<in> snd ` set (expired_timer q)"
  then have "timer_heap q p \<noteq> None" by (intro tq_wfD(6)) (simp_all add: timer_alive_def)
  then show "p \<in> dom (timer_heap q)" by (simp add: domIff)
qed

lemma tq_wf_heap_entry:
  assumes "tq_wf q" and "e \<in> set (timers q)"
  obtains tm where "timer_heap q (snd e) = Some tm" "expiration tm = fst e"
  using assms by (auto simp: tq_wf_def)

lemma tq_wf_entry:
  assumes "tq_wf q" and "(t, p) \<in> set (timers q)"
  shows "expiration (the (timer_heap q p)) = t" "timer_heap q p \<noteq> None"
proof -
  obtain tm where "timer_heap q (snd (t, p)) = Some tm" "expiration tm = fst (t, p)"
    using assms by (rule tq_wf_heap_entry)
  then show "expiration (the (timer_heap q p)) = t" "timer_heap q p \<noteq> None" by simp_all
qed

lemma tq_wf_same_ptr:
  assumes "tq_wf q" and "e \<in> set (timers q)" and "e' \<in> set (timers q)" and "snd e = snd e'"
  shows "e = e'"
proof -
  obtain tm where "timer_heap q (snd e) = Some tm" "expiration tm = fst e"
    using assms(1,2) by (rule tq_wf_heap_entry)
  moreover obtain tm' where "timer_heap q (snd e') = Some tm'" "expiration tm' = fst e'"
    using assms(1,3) by (rule tq_wf_heap_entry)
  ultimately show ?thesis using assms(4) by (simp add: prod_eq_iff)
qed

lemma tq_wf_ctor: "tq_wf TimerQueue_ctor"
  by (simp add: tq_wf_def TimerQueue_ctor_def timer_alive_def)

lemma how_long_eq:
  "how_long_from_now now t = (if t \<le> now then (0, 1)
     else ((t - now) div 10 ^ 9, (t - now) mod 10 ^ 9))"
  by (simp only: how_long_from_now_def Let_def minus_div_mult_eq_mod)

lemma how_long_valid:
  "0 \<le> fst (how_long_from_now now t)" "0 \<le> snd (how_long_from_now now t)"
  "snd (how_long_from_now now t) < 10 ^ 9"
  "fst (how_long_from_now now t) * 10 ^ 9 + snd (how_long_from_now now t) = max 1 (t - now)"
proof -
  show "0 \<le> fst (how_long_from_now now t)" "0 \<le> snd (how_long_from_now now t)"
    by (simp_all add: how_long_eq pos_imp_zdiv_nonneg_iff)
  show "snd (how_long_from_now now t) < 10 ^ 9"
    by (simp add: how_long_eq)
  show "fst (how_long_from_now now t) * 10 ^ 9 + snd (how_long_from_now now t) = max 1 (t - now)"
  proof (cases "t \<le> now")
    case False
    then have "max 1 (t - now) = t - now" by simp
    with False show ?thesis by (simp only: how_long_eq if_False fst_conv snd_conv div_mult_mod_eq)
  qed (simp add: how_long_eq)
qed

lemma set_timerfd_ok:
  assumes "settime_ok settime"
  shows "set_timerfd settime now exp q = Inr (q\<lparr>timerfd_armed := Some (now, how_long_from_now now exp)\<rparr>)"
proof -
  have "settime (how_long_from_now now exp) = None"
    using assms how_long_valid [of now exp] unfolding settime_ok_def by (metis prod.collapse)
  then show ?thesis by (simp add: set_timerfd_def)
qed

subsection \<open>Adding and cancelling keep the queue well-formed\<close>

lemma tq_insert_eq:
  assumes "timer_heap q p = Some tm" and "p \<notin> snd ` set (timers q)"
  shows "tq_insert p q = Inr (timers q = [] \<or> expiration tm < fst (hd (timers q)),
    q\<lparr>timers := os_insert (expiration tm, p) (timers q)\<rparr>)"
proof -
  have "(expiration tm, p) \<notin> set (timers q)" using assms(2) by force
  with assms(1) show ?thesis by (cases "timers q") (simp_all add: tq_insert_def Let_def)
qed

definition armed_after ::
  "time_point \<Rightarrow> 'cb timer \<Rightarrow> 'cb timer_queue \<Rightarrow> (time_point \<times> timespec) option" where
  "armed_after now tm q = (if timers q = [] \<or> expiration tm < fst (hd (timers q))
     then Some (now, how_long_from_now now (expiration tm)) else timerfd_armed q)"

lemma AddTimer_task_eq:
  assumes "settime_ok settime" and "timer_heap q p = Some tm" and "p \<notin> snd ` set (timers q)"
  shows "AddTimer_task settime now p q = Inr (q\<lparr>timers := os_insert (expiration tm, p) (timers q),
    timerfd_armed := armed_after now tm q, pending_adds := removeAll p (pending_adds q)\<rparr>)"
  using assms by (simp add: AddTimer_task_def tq_insert_eq set_timerfd_ok armed_after_def)

lemma AddTimer_task_wf:
  assumes "tq_wf q" and "timer_heap q p = Some tm" and "p \<notin> snd ` set (timers q)"
  shows "tq_wf (q\<lparr>timers := os_insert (expiration tm, p) (timers q),
    timerfd_armed := a, pending_adds := removeAll p (pending_adds q)\<rparr>)"
  using assms
  by (auto simp: tq_wf_def timer_alive_def set_os_insert os.inv_ops)

lemma AddTimer_new_wf:
  assumes "tq_wf q" and "alloc_ok alloc" and "AddTimer_new alloc cb when iv q = (p, q1)"
  shows "tq_wf q1" "timer_heap q p = None" "timer_heap q1 p = Some (Timer_ctor cb when iv)"
    "p \<notin> snd ` set (timers q1)" "p \<notin> snd ` set (expired_timer q1)" "p \<noteq> 0"
    "q1 = q\<lparr>timer_heap := (timer_heap q)(p \<mapsto> Timer_ctor cb when iv),
            pending_adds := pending_adds q @ [p]\<rparr>"
proof -
  show q1: "q1 = q\<lparr>timer_heap := (timer_heap q)(p \<mapsto> Timer_ctor cb when iv),
            pending_adds := pending_adds q @ [p]\<rparr>"
    and "timer_heap q1 p = Some (Timer_ctor cb when iv)"
    using assms(3) by (auto simp: AddTimer_new_def Let_def)
  show fresh: "timer_heap q p = None" and nz: "p \<noteq> 0"
    using assms by (auto simp: AddTimer_new_def Let_def alloc_ok_def tq_wf_def)
  then have dead: "\<not> timer_alive q p" using assms(1) by (auto simp: tq_wf_def)
  then show "p \<notin> snd ` set (timers q1)" "p \<notin> snd ` set (expired_timer q1)"
    by (auto simp: q1 timer_alive_def)
  have "\<forall>e\<in>set (timers q). snd e \<noteq> p" using dead by (auto simp: timer_alive_def)
  with assms(1) fresh nz dead show "tq_wf q1"
    by (auto simp: q1 tq_wf_def timer_alive_def Timer_ctor_def)
qed

lemma CancelTimer_task_eq:
  assumes "tq_wf q"
  shows "CancelTimer_task p q = Inr (
    if p \<in> snd ` set (timers q)
    then q\<lparr>timers := os_erase (expiration (the (timer_heap q p)), p) (timers q)\<rparr>
    else if timer_alive q p \<and> calling_expired_timers q
    then q\<lparr>canceling_timers := os_insert p (canceling_timers q)\<rparr>
    else q)"
proof (cases "timer_alive q p")
  case False
  then show ?thesis by (auto simp: CancelTimer_task_def timer_alive_def)
next
  case True
  with assms obtain tm where tm: "timer_heap q p = Some tm" by (auto simp: tq_wf_def)
  have "(expiration tm, p) \<in> set (timers q) \<longleftrightarrow> p \<in> snd ` set (timers q)"
  proof
    assume "p \<in> snd ` set (timers q)"
    then obtain e where e: "e \<in> set (timers q)" "snd e = p" by auto
    from assms e(1) obtain tm' where "timer_heap q (snd e) = Some tm'" "expiration tm' = fst e"
      by (rule tq_wf_heap_entry)
    with e(2) tm have "e = (expiration tm, p)" by (simp add: prod_eq_iff)
    with e(1) show "(expiration tm, p) \<in> set (timers q)" by simp
  qed (force intro: rev_image_eqI)
  with True tm show ?thesis by (simp add: CancelTimer_task_def)
qed

lemma tq_wf_shrink:
  assumes "tq_wf q" and "ordered ts" and sub: "set ts \<subseteq> set (timers q)"
  shows "tq_wf (q\<lparr>timers := ts\<rparr>)"
proof -
  have img: "snd ` set ts \<subseteq> snd ` set (timers q)" using sub by (rule image_mono)
  then have alive: "timer_alive (q\<lparr>timers := ts\<rparr>) p \<Longrightarrow> timer_alive q p" for p
    by (auto simp: timer_alive_def)
  have "set (pending_adds q) \<inter> snd ` set ts = {}"
    using tq_wfD(7) [OF assms(1)] img by blast
  moreover have "\<forall>e\<in>set ts. \<exists>tm. timer_heap q (snd e) = Some tm \<and> expiration tm = fst e"
    using assms(1) sub by (meson subsetD tq_wf_heap_entry)
  ultimately show ?thesis
    using assms(1,2) alive by (simp add: tq_wf_def)
qed

lemma tq_wf_canceling:
  assumes "tq_wf q" and "timer_heap q p \<noteq> None"
  shows "tq_wf (q\<lparr>canceling_timers := os_insert p (canceling_timers q)\<rparr>)"
  using assms by (simp add: tq_wf_def timer_alive_def set_os_insert os.inv_ops)

lemma CancelTimer_task_wf:
  assumes "tq_wf q" and "CancelTimer_task p q = Inr q'"
  shows "tq_wf q'"
proof -
  have sub: "set (os_erase e (timers q)) \<subseteq> set (timers q)" for e
    by (rule set_os_erase_subset)
  have "tq_wf (q\<lparr>timers := os_erase e (timers q)\<rparr>)" for e
    using assms(1) tq_wfD(1) [OF assms(1)] sub by (intro tq_wf_shrink) (simp_all add: os.inv_ops)
  moreover have "timer_alive q p \<Longrightarrow> tq_wf (q\<lparr>canceling_timers := os_insert p (canceling_timers q)\<rparr>)"
    using assms(1) by (intro tq_wf_canceling tq_wfD(6))
  ultimately show ?thesis
    using assms unfolding CancelTimer_task_eq [OF assms(1)] by (auto split: if_splits)
qed

subsection \<open>What timer callbacks can do to the queue\<close>

text \<open>
  Calls made by callbacks never touch a timer that exists already, except for removing it
  from the queue or marking it as cancelled.
\<close>

definition tq_frame :: "'cb timer_queue \<Rightarrow> 'cb timer_queue \<Rightarrow> bool" where
  "tq_frame q q' \<longleftrightarrow> expired_timer q' = expired_timer q
     \<and> calling_expired_timers q' = calling_expired_timers q
     \<and> timer_heap q \<subseteq>\<^sub>m timer_heap q'
     \<and> set (canceling_timers q) \<subseteq> set (canceling_timers q')
     \<and> (\<forall>e\<in>set (timers q'). e \<in> set (timers q) \<or> snd e \<notin> dom (timer_heap q))"

lemma tq_frame_refl: "tq_frame q q"
  by (simp add: tq_frame_def)

lemma tq_frame_dom: "tq_frame q q' \<Longrightarrow> dom (timer_heap q) \<subseteq> dom (timer_heap q')"
  by (intro map_le_implies_dom_le) (simp add: tq_frame_def)

lemma tq_frame_trans:
  assumes "tq_frame q q1" and "tq_frame q1 q2"
  shows "tq_frame q q2"
proof -
  have "dom (timer_heap q) \<subseteq> dom (timer_heap q1)"
    using assms(1) by (rule tq_frame_dom)
  then have "\<forall>e\<in>set (timers q2). e \<in> set (timers q) \<or> snd e \<notin> dom (timer_heap q)"
    using assms unfolding tq_frame_def by blast
  with assms show ?thesis
    by (auto simp: tq_frame_def intro: map_le_trans)
qed

lemma tq_frame_heap:
  "tq_frame q q' \<Longrightarrow> timer_heap q p = Some tm \<Longrightarrow> timer_heap q' p = Some tm"
  by (auto simp: tq_frame_def map_le_def dom_def)

lemma tq_frame_split:
  assumes "tq_wf q" and "tq_frame q q'" and "tq_split q"
  shows "tq_split q'"
proof -
  have same: "expired_timer q' = expired_timer q"
    and new: "\<And>e. e \<in> set (timers q') \<Longrightarrow> e \<in> set (timers q) \<or> snd e \<notin> dom (timer_heap q)"
    using assms(2) by (auto simp: tq_frame_def)
  have "snd e \<notin> snd ` set (expired_timer q)" if "e \<in> set (timers q')" for e
    using new [OF that] assms(3) expired_in_heap [OF assms(1)] by (auto simp: tq_split_def)
  then show ?thesis
    unfolding tq_split_def same by blast
qed

lemma AddTimer_in_loop_ok:
  assumes "tq_wf q" and "alloc_ok alloc" and "settime_ok settime"
  shows "\<exists>p q'. AddTimer_in_loop alloc settime now cb when iv q = Inr (p, q') \<and> tq_wf q'
    \<and> tq_frame q q' \<and> run_log q' = run_log q \<and> set (timers q') = insert (when, p) (set (timers q))
    \<and> timer_heap q p = None \<and> timer_heap q' p = Some (Timer_ctor cb when iv)
    \<and> timerfd_armed q' = armed_after now (Timer_ctor cb when iv) q
    \<and> pending_adds q' = removeAll p (pending_adds q)"
proof -
  obtain p q1 where new: "AddTimer_new alloc cb when iv q = (p, q1)"
    by (cases "AddTimer_new alloc cb when iv q")
  note n = AddTimer_new_wf [OF assms(1,2) new]
  have exp: "expiration (Timer_ctor cb when iv) = when" by (simp add: Timer_ctor_def)
  let ?q = "q1\<lparr>timers := os_insert (when, p) (timers q1),
    timerfd_armed := armed_after now (Timer_ctor cb when iv) q1,
    pending_adds := removeAll p (pending_adds q1)\<rparr>"
  have "AddTimer_in_loop alloc settime now cb when iv q = Inr (p, ?q)"
    using AddTimer_task_eq [OF assms(3) n(3,4), of now] by (simp add: AddTimer_in_loop_def new exp)
  moreover have "tq_wf ?q"
    using AddTimer_task_wf [OF n(1,3,4)] by (simp add: exp)
  moreover have "timer_heap q \<subseteq>\<^sub>m (timer_heap q)(p \<mapsto> Timer_ctor cb when iv)"
    using n(2) by (auto simp: map_le_def)
  then have "tq_frame q ?q"
    using n(2) by (auto simp: n(7) tq_frame_def set_os_insert dom_def)
  ultimately show ?thesis
    using n(2,3) by (auto simp: n(7) set_os_insert armed_after_def)
qed

lemma CancelTimer_task_ok:
  assumes "tq_wf q"
  shows "\<exists>q'. CancelTimer_task p q = Inr q' \<and> tq_wf q' \<and> tq_frame q q' \<and> run_log q' = run_log q
    \<and> timer_heap q' = timer_heap q \<and> p \<notin> snd ` set (timers q')
    \<and> (\<forall>e\<in>set (timers q). snd e \<noteq> p \<longrightarrow> e \<in> set (timers q'))
    \<and> (p \<notin> snd ` set (timers q) \<longrightarrow> timer_alive q p \<longrightarrow> calling_expired_timers q
         \<longrightarrow> p \<in> set (canceling_timers q'))"
proof -
  obtain q' where q': "CancelTimer_task p q = Inr q'"
    using CancelTimer_task_eq [OF assms, of p] by metis
  note wf = CancelTimer_task_wf [OF assms q']
  show ?thesis
  proof (cases "p \<in> snd ` set (timers q)")
    case True
    then obtain t where t: "(t, p) \<in> set (timers q)" by auto
    then have "expiration (the (timer_heap q p)) = t"
      using tq_wf_entry [OF assms t] by simp
    with True q' have eq: "q' = q\<lparr>timers := os_erase (t, p) (timers q)\<rparr>"
      by (simp add: CancelTimer_task_eq [OF assms])
    have erased: "set (timers q') = set (timers q) - {(t, p)}"
      unfolding eq by (simp add: set_os_erase [OF tq_wfD(1) [OF assms]])
    have "snd e \<noteq> p" if "e \<in> set (timers q')" for e
      using that tq_wf_same_ptr [OF assms t, of e] by (auto simp: erased)
    then have gone: "p \<notin> snd ` set (timers q')" by blast
    have frame: "tq_frame q q'"
      using erased by (simp add: eq tq_frame_def)
    have keep: "\<forall>e\<in>set (timers q). snd e \<noteq> p \<longrightarrow> e \<in> set (timers q')"
      by (simp add: erased) auto
    from True q' wf gone frame keep show ?thesis
      by (simp add: eq)
  next
    case False
    then have keep: "timers q' = timers q" "expired_timer q' = expired_timer q"
      "calling_expired_timers q' = calling_expired_timers q" "timer_heap q' = timer_heap q"
      "run_log q' = run_log q"
      "canceling_timers q' = (if timer_alive q p \<and> calling_expired_timers q
         then os_insert p (canceling_timers q) else canceling_timers q)"
      using q' by (auto simp: CancelTimer_task_eq [OF assms])
    then have "tq_frame q q'" by (auto simp: tq_frame_def set_os_insert)
    with False q' wf keep show ?thesis by (auto simp: set_os_insert)
  qed
qed

lemma tq_wf_flags [simp]:
  "tq_wf (q\<lparr>run_log := l\<rparr>) = tq_wf q" "tq_wf (q\<lparr>calling_expired_timers := c\<rparr>) = tq_wf q"
  "tq_wf (q\<lparr>timerfd_armed := a\<rparr>) = tq_wf q"
  by (simp_all add: tq_wf_def timer_alive_def)

lemma tq_exec_ok:
  assumes "tq_wf q" and "alloc_ok alloc" and "settime_ok settime"
  shows "\<exists>q'. tq_exec alloc settime c q = Inr q' \<and> tq_wf q' \<and> tq_frame q q' \<and> run_log q' = run_log q"
proof (cases c)
  case (CallAdd cb tp iv clock)
  with AddTimer_in_loop_ok [OF assms, of clock cb tp iv] show ?thesis by auto
next
  case (CallCancel p)
  with CancelTimer_task_ok [OF assms(1), of p] show ?thesis by auto
qed

lemma tq_exec_list_ok:
  "tq_wf q \<Longrightarrow> alloc_ok alloc \<Longrightarrow> settime_ok settime \<Longrightarrow>
   \<exists>q'. tq_exec_list alloc settime cs q = Inr q' \<and> tq_wf q' \<and> tq_frame q q' \<and> run_log q' = run_log q"
proof (induction cs arbitrary: q)
  case Nil
  then show ?case by (simp add: tq_frame_refl)
next
  case (Cons c cs)
  obtain q1 where q1: "tq_exec alloc settime c q = Inr q1" "tq_wf q1" "tq_frame q q1"
      "run_log q1 = run_log q"
    using tq_exec_ok [OF Cons.prems] by blast
  with Cons.IH [OF q1(2) Cons.prems(2,3)] show ?case
    by (auto intro: tq_frame_trans)
qed

lemma Run_ok:
  assumes "tq_wf q" and "alloc_ok alloc" and "settime_ok settime" and "timer_heap q p = Some tm"
  shows "\<exists>q'. Run alloc settime body p q = Inr q' \<and> tq_wf q' \<and> tq_frame q q'
    \<and> run_log q' = run_log q @ [p]"
proof -
  let ?q = "q\<lparr>run_log := run_log q @ [p]\<rparr>"
  have "tq_frame q ?q" by (simp add: tq_frame_def)
  with tq_exec_list_ok [OF _ assms(2,3), of ?q "body (callback tm)"] assms(1,4) show ?thesis
    by (auto simp: Run_def intro: tq_frame_trans)
qed

lemma run_expired_ok:
  "tq_wf q \<Longrightarrow> alloc_ok alloc \<Longrightarrow> settime_ok settime \<Longrightarrow> snd ` set es \<subseteq> dom (timer_heap q) \<Longrightarrow>
   \<exists>q'. run_expired alloc settime body es q = Inr q' \<and> tq_wf q' \<and> tq_frame q q'
     \<and> run_log q' = run_log q @ map snd es"
proof (induction es arbitrary: q)
  case Nil
  then show ?case by (simp add: tq_frame_refl)
next
  case (Cons e es)
  then obtain tm where "timer_heap q (snd e) = Some tm" by (auto simp: dom_def)
  from Run_ok [OF Cons.prems(1-3) this, of body] obtain q1 where
    q1: "Run alloc settime body (snd e) q = Inr q1" "tq_wf q1" "tq_frame q q1"
      "run_log q1 = run_log q @ [snd e]" by blast
  have "snd ` set es \<subseteq> dom (timer_heap q1)"
    using Cons.prems(4) tq_frame_dom [OF q1(3)] by simp blast
  from Cons.IH [OF q1(2) Cons.prems(2,3) this] q1 show ?case
    by (auto intro: tq_frame_trans)
qed

subsection \<open>Cancelling from a callback\<close>

lemma CancelTimer_marks:
  assumes "tq_wf q" and "tq_split q" and "calling_expired_timers q"
    and "p \<in> snd ` set (expired_timer q)" and "CancelTimer_task p q = Inr q'"
  shows "p \<in> set (canceling_timers q')"
proof -
  have "p \<notin> snd ` set (timers q)" using assms(2,4) unfolding tq_split_def by blast
  moreover have "timer_alive q p" using assms(4) by (simp add: timer_alive_def)
  ultimately have "q' = q\<lparr>canceling_timers := os_insert p (canceling_timers q)\<rparr>"
    using assms(3,5) by (simp add: CancelTimer_task_eq [OF assms(1)])
  then show ?thesis by (simp add: set_os_insert)
qed

lemma tq_exec_list_cancels:
  "tq_wf q \<Longrightarrow> alloc_ok alloc \<Longrightarrow> settime_ok settime \<Longrightarrow> tq_split q \<Longrightarrow> calling_expired_timers q \<Longrightarrow>
   p \<in> snd ` set (expired_timer q) \<Longrightarrow> CallCancel p \<in> set cs \<Longrightarrow>
   tq_exec_list alloc settime cs q = Inr q' \<Longrightarrow> p \<in> set (canceling_timers q')"
proof (induction cs arbitrary: q)
  case Nil
  then show ?case by simp
next
  case (Cons c cs)
  obtain q1 where q1: "tq_exec alloc settime c q = Inr q1" "tq_wf q1" "tq_frame q q1"
    using tq_exec_ok [OF Cons.prems(1-3)] by blast
  obtain q2 where q2: "tq_exec_list alloc settime cs q1 = Inr q2" "tq_frame q1 q2"
    using tq_exec_list_ok [OF q1(2) Cons.prems(2,3)] by blast
  have eq: "q2 = q'" using Cons.prems(8) q1(1) q2(1) by simp
  show ?case
  proof (cases "c = CallCancel p")
    case True
    then have "p \<in> set (canceling_timers q1)"
      using CancelTimer_marks [OF Cons.prems(1,4,5,6)] q1(1) by simp
    then show ?thesis using q2(2) eq unfolding tq_frame_def by blast
  next
    case False
    have "tq_split q1" using Cons.prems(1) q1(3) Cons.prems(4) by (rule tq_frame_split)
    moreover have "calling_expired_timers q1" "expired_timer q1 = expired_timer q"
      using q1(3) Cons.prems(5) by (simp_all add: tq_frame_def)
    moreover have "CallCancel p \<in> set cs" using Cons.prems(7) False by simp
    ultimately show ?thesis
      using Cons.IH [OF q1(2) Cons.prems(2,3)] Cons.prems(6) q2(1) eq by simp
  qed
qed

lemma run_expired_cancels:
  "tq_wf q \<Longrightarrow> alloc_ok alloc \<Longrightarrow> settime_ok settime \<Longrightarrow> tq_split q \<Longrightarrow> calling_expired_timers q \<Longrightarrow>
   snd ` set es \<subseteq> dom (timer_heap q) \<Longrightarrow> p \<in> snd ` set (expired_timer q) \<Longrightarrow>
   e \<in> set es \<Longrightarrow> timer_heap q (snd e) = Some tm \<Longrightarrow> CallCancel p \<in> set (body (callback tm)) \<Longrightarrow>
   run_expired alloc settime body es q = Inr q' \<Longrightarrow> p \<in> set (canceling_timers q')"
proof (induction es arbitrary: q)
  case Nil
  then show ?case by simp
next
  case (Cons e0 es)
  from Cons.prems(6) obtain tm0 where tm0: "timer_heap q (snd e0) = Some tm0" by (auto simp: dom_def)
  from Run_ok [OF Cons.prems(1-3) tm0, of body] obtain q1 where
    q1: "Run alloc settime body (snd e0) q = Inr q1" "tq_wf q1" "tq_frame q q1" by blast
  have dom1: "snd ` set es \<subseteq> dom (timer_heap q1)"
    using Cons.prems(6) tq_frame_dom [OF q1(3)] by simp blast
  obtain q2 where q2: "run_expired alloc settime body es q1 = Inr q2" "tq_frame q1 q2"
    using run_expired_ok [OF q1(2) Cons.prems(2,3) dom1] by blast
  have eq: "q2 = q'" using Cons.prems(11) q1(1) q2(1) by simp
  show ?case
  proof (cases "e = e0")
    case True
    let ?q = "q\<lparr>run_log := run_log q @ [snd e0]\<rparr>"
    have "tq_exec_list alloc settime (body (callback tm)) ?q = Inr q1"
      using q1(1) True Cons.prems(9) by (simp add: Run_def)
    with tq_exec_list_cancels [of ?q alloc settime p "body (callback tm)" q1] Cons.prems
    have "p \<in> set (canceling_timers q1)" by (simp add: tq_split_def)
    then show ?thesis using q2(2) eq unfolding tq_frame_def by blast
  next
    case False
    have "tq_split q1" using Cons.prems(1) q1(3) Cons.prems(4) by (rule tq_frame_split)
    moreover have "timer_heap q1 (snd e) = Some tm"
      using tq_frame_heap [OF q1(3) Cons.prems(9)] .
    moreover have "calling_expired_timers q1" "expired_timer q1 = expired_timer q"
      using q1(3) Cons.prems(5) by (simp_all add: tq_frame_def)
    ultimately show ?thesis
      using Cons.IH [OF q1(2) Cons.prems(2,3) _ _ dom1] Cons.prems(7,8,10) False q2(1) eq by simp
  qed
qed

text \<open>Only a cancellation puts a timer among the cancelled ones.\<close>

lemma tq_exec_canceling:
  assumes "tq_wf q" and "alloc_ok alloc" and "settime_ok settime"
    and "tq_exec alloc settime c q = Inr q'"
  shows "set (canceling_timers q') \<subseteq> set (canceling_timers q) \<union> {p. c = CallCancel p}"
proof (cases c)
  case (CallAdd cb tp iv clock)
  obtain p q1 where new: "AddTimer_new alloc cb tp iv q = (p, q1)"
    by (cases "AddTimer_new alloc cb tp iv q")
  note n = AddTimer_new_wf [OF assms(1,2) new]
  have "canceling_timers q' = canceling_timers q1"
    using assms(4) AddTimer_task_eq [OF assms(3) n(3,4), of clock]
    by (auto simp: CallAdd AddTimer_in_loop_def new)
  then show ?thesis by (simp add: n(7))
next
  case (CallCancel p)
  with assms(4) show ?thesis
    by (auto simp: CancelTimer_task_eq [OF assms(1)] set_os_insert split: if_splits)
qed

lemma tq_exec_list_canceling:
  "tq_wf q \<Longrightarrow> alloc_ok alloc \<Longrightarrow> settime_ok settime \<Longrightarrow> tq_exec_list alloc settime cs q = Inr q' \<Longrightarrow>
   set (canceling_timers q') \<subseteq> set (canceling_timers q) \<union> {p. CallCancel p \<in> set cs}"
proof (induction cs arbitrary: q)
  case Nil
  then show ?case by simp
next
  case (Cons c cs)
  obtain q1 where q1: "tq_exec alloc settime c q = Inr q1" "tq_wf q1"
    using tq_exec_ok [OF Cons.prems(1-3)] by blast
  with Cons.prems(4) have "tq_exec_list alloc settime cs q1 = Inr q'" by simp
  with Cons.IH [OF q1(2) Cons.prems(2,3)] tq_exec_canceling [OF Cons.prems(1-3) q1(1)]
  show ?case by fastforce
qed

lemma run_expired_canceling:
  "tq_wf q \<Longrightarrow> alloc_ok alloc \<Longrightarrow> settime_ok settime \<Longrightarrow> snd ` set es \<subseteq> dom (timer_heap q) \<Longrightarrow>
   run_expired alloc settime body es q = Inr q' \<Longrightarrow> p \<in> set (canceling_timers q') \<Longrightarrow>
   p \<in> set (canceling_timers q) \<or> (\<exists>e\<in>set es. CallCancel p \<in> set (body (callback (the (timer_heap q (snd e))))))"
proof (induction es arbitrary: q)
  case Nil
  then show ?case by simp
next
  case (Cons e0 es)
  from Cons.prems(4) obtain tm0 where tm0: "timer_heap q (snd e0) = Some tm0" by (auto simp: dom_def)
  from Run_ok [OF Cons.prems(1-3) tm0, of body] obtain q1 where
    q1: "Run alloc settime body (snd e0) q = Inr q1" "tq_wf q1" "tq_frame q q1" by blast
  have dom1: "snd ` set es \<subseteq> dom (timer_heap q1)"
    using Cons.prems(4) tq_frame_dom [OF q1(3)] by simp blast
  have same: "timer_heap q1 (snd e) = timer_heap q (snd e)" if "e \<in> set es" for e
    using that Cons.prems(4) tq_frame_heap [OF q1(3)] by (fastforce simp: dom_def)
  have run: "run_expired alloc settime body es q1 = Inr q'"
    using Cons.prems(5) q1(1) by simp
  from Cons.IH [OF q1(2) Cons.prems(2,3) dom1 run Cons.prems(6)]
  consider "p \<in> set (canceling_timers q1)"
    | "\<exists>e\<in>set es. CallCancel p \<in> set (body (callback (the (timer_heap q1 (snd e)))))" by blast
  then show ?case
  proof cases
    case 1
    let ?q = "q\<lparr>run_log := run_log q @ [snd e0]\<rparr>"
    have "tq_exec_list alloc settime (body (callback tm0)) ?q = Inr q1"
      using q1(1) tm0 by (simp add: Run_def)
    from tq_exec_list_canceling [OF _ Cons.prems(2,3) this] Cons.prems(1) 1 tm0 show ?thesis by auto
  next
    case 2
    with same show ?thesis by auto
  qed
qed

subsection \<open>Restarting the expired timers\<close>

text \<open>The entry a repeating timer gets when it is restarted at \<open>now\<close>, if it can be represented.\<close>

definition restartable :: "time_point \<Rightarrow> 'cb timer \<Rightarrow> bool" where
  "restartable now tm \<longleftrightarrow> (\<exists>r. seconds_to_rep (interval tm) = Inr r \<and> in_rep (now + r))"

definition next_expiration :: "time_point \<Rightarrow> 'cb timer \<Rightarrow> time_point" where
  "next_expiration now tm = now + projr (seconds_to_rep (interval tm))"

lemma Restart_restartable:
  "repeat tm \<Longrightarrow> restartable now tm \<Longrightarrow>
   Restart tm now = Inr (tm\<lparr>expiration := next_expiration now tm\<rparr>)"
  by (auto simp: restartable_def next_expiration_def Restart_def time_add_def)

lemma next_expiration_ge:
  "repeat tm \<Longrightarrow> restartable now tm \<Longrightarrow> repeat tm = dbl_pos (interval tm) \<Longrightarrow>
   now \<le> next_expiration now tm"
  using seconds_to_rep_nonneg [of "interval tm"] by (auto simp: restartable_def next_expiration_def)

definition restarts :: "'cb timer_queue \<Rightarrow> ptr \<Rightarrow> 'cb timer \<Rightarrow> bool" where
  "restarts q p tm \<longleftrightarrow> timer_heap q p = Some tm \<and> repeat tm \<and> p \<notin> set (canceling_timers q)"

definition restarted :: "time_point \<Rightarrow> ptr \<Rightarrow> 'cb timer \<Rightarrow> 'cb timer_queue \<Rightarrow> 'cb timer_queue" where
  "restarted now p tm q =
     q\<lparr>timer_heap := (timer_heap q)(p \<mapsto> tm\<lparr>expiration := next_expiration now tm\<rparr>),
       timers := os_insert (next_expiration now tm, p) (timers q)\<rparr>"

lemma restart_one_eq:
  assumes "timer_heap q p = Some tm" and "p \<notin> snd ` set (timers q)"
    and "restarts q p tm \<Longrightarrow> restartable now tm"
  shows "restart_one now p q = Inr (if restarts q p tm then restarted now p tm q else q)"
  using assms
  by (auto simp: restart_one_def IsRepeat_def restarts_def Restart_restartable restarted_def
      tq_insert_eq [where tm = "tm\<lparr>expiration := next_expiration now tm\<rparr>"])

lemma restarted_wf:
  assumes "tq_wf q" and "p \<in> snd ` set (expired_timer q)" and "p \<notin> snd ` set (timers q)"
    and "timer_heap q p = Some tm"
  shows "tq_wf (restarted now p tm q)"
proof -
  have nz: "p \<noteq> 0" using assms(4) tq_wfD(4) [OF assms(1)] by (intro notI) simp
  have pend: "p \<notin> set (pending_adds q)" using tq_wfD(8) [OF assms(1)] assms(2) by blast
  have entries: "\<forall>e\<in>set (timers q). snd e \<noteq> p
      \<and> (\<exists>tm. timer_heap q (snd e) = Some tm \<and> expiration tm = fst e)"
    using assms(1,3) by (auto simp: tq_wf_def)
  have alive: "timer_alive (restarted now p tm q) r \<Longrightarrow> r = p \<or> timer_alive q r" for r
    by (auto simp: timer_alive_def restarted_def set_os_insert)
  show ?thesis
    unfolding tq_wf_def
  proof (intro conjI)
    show "ordered (timers (restarted now p tm q))"
      by (simp add: restarted_def os.inv_ops tq_wfD(1) [OF assms(1)])
    show "ordered (canceling_timers (restarted now p tm q))"
      by (simp add: restarted_def tq_wfD(2) [OF assms(1)])
    show "\<forall>e\<in>set (timers (restarted now p tm q)).
        \<exists>tm'. timer_heap (restarted now p tm q) (snd e) = Some tm' \<and> expiration tm' = fst e"
      using entries by (auto simp: restarted_def set_os_insert)
    show "finite (dom (timer_heap (restarted now p tm q)))"
      by (simp add: restarted_def tq_wfD(3) [OF assms(1)])
    show "timer_heap (restarted now p tm q) 0 = None"
      using nz by (simp add: restarted_def tq_wfD(4) [OF assms(1)])
    show "\<forall>r tm'. timer_heap (restarted now p tm q) r = Some tm' \<longrightarrow> repeat tm' = dbl_pos (interval tm')"
      using tq_wfD(5) [OF assms(1)] assms(4) by (auto simp: restarted_def)
    show "\<forall>r. timer_alive (restarted now p tm q) r \<longrightarrow> timer_heap (restarted now p tm q) r \<noteq> None"
      using alive tq_wfD(6) [OF assms(1)] by (fastforce simp: restarted_def)
    show "set (pending_adds (restarted now p tm q)) \<inter> snd ` set (timers (restarted now p tm q)) = {}"
      using pend tq_wfD(7) [OF assms(1)] by (simp add: restarted_def set_os_insert)
    show "set (pending_adds (restarted now p tm q)) \<inter> snd ` set (expired_timer (restarted now p tm q)) = {}"
      using tq_wfD(8) [OF assms(1)] by (simp add: restarted_def)
  qed
qed

text \<open>What the whole loop leaves in the queue.\<close>

definition restart_entries :: "time_point \<Rightarrow> (time_point \<times> ptr) list \<Rightarrow> 'cb timer_queue \<Rightarrow>
    (time_point \<times> ptr) set" where
  "restart_entries now es q =
     {(next_expiration now tm, p) | p tm. p \<in> snd ` set es \<and> restarts q p tm}"

lemma restarted_fields [simp]:
  "canceling_timers (restarted now p tm q) = canceling_timers q"
  "expired_timer (restarted now p tm q) = expired_timer q"
  "run_log (restarted now p tm q) = run_log q"
  "calling_expired_timers (restarted now p tm q) = calling_expired_timers q"
  "set (timers (restarted now p tm q)) = insert (next_expiration now tm, p) (set (timers q))"
  "r \<noteq> p \<Longrightarrow> timer_heap (restarted now p tm q) r = timer_heap q r"
  "timerfd_armed (restarted now p tm q) = timerfd_armed q"
  by (simp_all add: restarted_def set_os_insert)

lemma restart_expired_ok:
  "tq_wf q \<Longrightarrow> distinct (map snd es) \<Longrightarrow> set es \<subseteq> set (expired_timer q) \<Longrightarrow>
   snd ` set es \<inter> snd ` set (timers q) = {} \<Longrightarrow>
   \<forall>p tm. p \<in> snd ` set es \<and> restarts q p tm \<longrightarrow> restartable now tm \<Longrightarrow>
   \<exists>q'. restart_expired now es q = Inr q' \<and> tq_wf q' \<and> run_log q' = run_log q
     \<and> canceling_timers q' = canceling_timers q \<and> expired_timer q' = expired_timer q
     \<and> calling_expired_timers q' = calling_expired_timers q
     \<and> timerfd_armed q' = timerfd_armed q
     \<and> set (timers q') = set (timers q) \<union> restart_entries now es q"
proof (induction es arbitrary: q)
  case Nil
  then show ?case by (simp add: restart_entries_def)
next
  case (Cons e es)
  let ?p = "snd e"
  have pexp: "?p \<in> snd ` set (expired_timer q)" using Cons.prems(3) by auto
  then obtain tm where tm: "timer_heap q ?p = Some tm"
    using expired_in_heap [OF Cons.prems(1)] by (meson domD subsetD)
  have notin: "?p \<notin> snd ` set (timers q)" using Cons.prems(4) by auto
  have able: "restarts q ?p tm \<Longrightarrow> restartable now tm" using Cons.prems(5) by auto
  define q1 where "q1 = (if restarts q ?p tm then restarted now ?p tm q else q)"
  have step: "restart_one now ?p q = Inr q1"
    unfolding q1_def using tm notin able by (rule restart_one_eq)
  have wf1: "tq_wf q1"
    using restarted_wf [OF Cons.prems(1) pexp notin tm] Cons.prems(1) by (simp add: q1_def)
  have fresh: "?p \<notin> snd ` set es" using Cons.prems(2) by simp
  have same: "restarts q1 r t \<longleftrightarrow> restarts q r t" if "r \<noteq> ?p" for r t
    using that by (simp add: q1_def restarts_def)
  have tail: "\<exists>q'. restart_expired now es q1 = Inr q' \<and> tq_wf q' \<and> run_log q' = run_log q1
     \<and> canceling_timers q' = canceling_timers q1 \<and> expired_timer q' = expired_timer q1
     \<and> calling_expired_timers q' = calling_expired_timers q1
     \<and> timerfd_armed q' = timerfd_armed q1
     \<and> set (timers q') = set (timers q1) \<union> restart_entries now es q1"
  proof (rule Cons.IH [OF wf1])
    show "distinct (map snd es)" using Cons.prems(2) by simp
    show "set es \<subseteq> set (expired_timer q1)" using Cons.prems(3) by (simp add: q1_def)
    show "snd ` set es \<inter> snd ` set (timers q1) = {}"
      using Cons.prems(4) fresh by (auto simp: q1_def)
    show "\<forall>p tm. p \<in> snd ` set es \<and> restarts q1 p tm \<longrightarrow> restartable now tm"
      using Cons.prems(5) fresh same by (metis image_insert insertI2 list.simps(15))
  qed
  have "restart_entries now es q1 = restart_entries now es q"
    unfolding restart_entries_def using fresh same by metis
  moreover have "set (timers q1) \<union> restart_entries now es q
      = set (timers q) \<union> restart_entries now (e # es) q"
    using tm by (auto simp: q1_def restart_entries_def restarts_def)
  moreover have "run_log q1 = run_log q" "canceling_timers q1 = canceling_timers q"
    "expired_timer q1 = expired_timer q" "calling_expired_timers q1 = calling_expired_timers q"
    "timerfd_armed q1 = timerfd_armed q"
    by (simp_all add: q1_def)
  ultimately show ?case using tail step by simp
qed

lemma rearm_eq:
  assumes "tq_wf q" and "settime_ok settime"
  shows "rearm settime clock q = Inr (case timers q of [] \<Rightarrow> q
    | e # _ \<Rightarrow> if fst e = InvalidTimePoint then q
        else q\<lparr>timerfd_armed := Some (clock, how_long_from_now clock (fst e))\<rparr>)"
proof (cases "timers q")
  case Nil
  then show ?thesis by (simp add: rearm_def)
next
  case (Cons e es)
  then obtain tm where "timer_heap q (snd e) = Some tm" "expiration tm = fst e"
    using tq_wf_heap_entry [OF assms(1), of e] by auto
  with Cons show ?thesis by (simp add: rearm_def set_timerfd_ok [OF assms(2)])
qed

subsection \<open>The whole callback\<close>

definition expired_at :: "time_point \<Rightarrow> 'cb timer_queue \<Rightarrow> (time_point \<times> ptr) list" where
  "expired_at now q = filter (\<lambda>e. fst e < now) (timers q)"

definition started :: "time_point \<Rightarrow> 'cb timer_queue \<Rightarrow> 'cb timer_queue" where
  "started now q = q\<lparr>timers := os_from (now, 0) (timers q), expired_timer := os_before (now, 0) (timers q),
     calling_expired_timers := True, canceling_timers := []\<rparr>"

lemma tq_wf_ptr_pos:
  assumes "tq_wf q" and "e \<in> set (timers q)"
  shows "0 < snd e"
proof -
  obtain tm where "timer_heap q (snd e) = Some tm"
    using assms by (rule tq_wf_heap_entry)
  with tq_wfD(4) [OF assms(1)] show ?thesis by (cases "snd e = 0") auto
qed

lemma os_before_expired:
  assumes "tq_wf q"
  shows "os_before (now, 0) (timers q) = expired_at now q"
  unfolding os.before_filter [OF tq_wfD(1) [OF assms]] expired_at_def
  using tq_wf_ptr_pos [OF assms] by (intro filter_cong) (auto simp: less_prod_def)

lemma os_from_future:
  assumes "tq_wf q"
  shows "set (os_from (now, 0) (timers q)) = {e \<in> set (timers q). now \<le> fst e}"
  using os.from_iff [OF tq_wfD(1) [OF assms], of _ "(now, 0)"] by (auto simp: less_eq_prod_def)

text \<open>The assertion after \<open>lower_bound\<close> holds exactly when no timer expires at \<open>now\<close> itself.\<close>

lemma anchor_assert_iff:
  assumes "tq_wf q"
  shows "(let rest = os_from (now, 0) (timers q) in rest = [] \<or> now < fst (hd rest))
    \<longleftrightarrow> now \<notin> fst ` set (timers q)"
proof -
  let ?rest = "os_from (now, 0) (timers q)"
  have ord: "ordered ?rest" using tq_wfD(1) [OF assms] os.inv_ops by blast
  have future: "set ?rest = {e \<in> set (timers q). now \<le> fst e}" by (rule os_from_future [OF assms])
  show ?thesis
  proof (cases ?rest)
    case Nil
    then have "\<forall>e\<in>set (timers q). \<not> now \<le> fst e" using future by auto
    with Nil show ?thesis by force
  next
    case (Cons e es)
    have "fst e \<le> fst x" if "x \<in> set ?rest" for x
      using that ord Cons by (auto simp: less_prod_def)
    moreover have "e \<in> set (timers q)" "now \<le> fst e" using future Cons by auto
    ultimately show ?thesis using future Cons by (fastforce simp: Let_def)
  qed
qed

lemma distinct_ptrs:
  assumes "tq_wf q" and "ordered es" and "set es \<subseteq> set (timers q)"
  shows "distinct (map snd es)"
proof -
  have "inj_on snd (set es)"
    using tq_wf_same_ptr [OF assms(1)] assms(3) by (intro inj_onI) blast
  moreover have "distinct es" using assms(2) by (simp add: strict_sorted_iff)
  ultimately show ?thesis by (simp add: distinct_map)
qed

lemma started_ok:
  assumes "tq_wf q" and "expired_timer q = []"
  shows "tq_wf (started now q)" "tq_split (started now q)"
    "set (expired_timer (started now q)) \<subseteq> set (timers q)"
    "ordered (expired_timer (started now q))"
proof -
  let ?b = "os_before (now, 0) (timers q)" and ?f = "os_from (now, 0) (timers q)"
  have all: "timers q = ?b @ ?f" by (rule os.elems_split)
  then have sub: "set ?b \<subseteq> set (timers q)" "set ?f \<subseteq> set (timers q)"
    by (metis set_append Un_upper1, metis set_append Un_upper2)
  then show "set (expired_timer (started now q)) \<subseteq> set (timers q)" by (simp add: started_def)
  show "ordered (expired_timer (started now q))"
    using tq_wfD(1) [OF assms(1)] by (simp add: started_def os.inv_ops)
  have "e \<noteq> e'" if "e \<in> set ?b" "e' \<in> set ?f" for e e'
    using os.before_less [OF that(1)] os.from_ge [OF tq_wfD(1) [OF assms(1)] that(2)] by auto
  then have "snd e \<noteq> snd e'" if "e \<in> set ?b" "e' \<in> set ?f" for e e'
    using that sub tq_wf_same_ptr [OF assms(1), of e e'] by blast
  then show "tq_split (started now q)"
    unfolding tq_split_def started_def by fastforce
  have wf_f: "tq_wf (q\<lparr>timers := ?f\<rparr>)"
    using assms(1) tq_wfD(1) [OF assms(1)] sub(2) by (intro tq_wf_shrink) (simp_all add: os.inv_ops)
  have alive: "timer_alive (started now q) r \<Longrightarrow> timer_alive q r" for r
    using sub by (auto simp: timer_alive_def started_def)
  have "set (pending_adds q) \<inter> snd ` set ?b = {}"
    using tq_wfD(7) [OF assms(1)] sub(1) by blast
  with wf_f alive tq_wfD(6) [OF assms(1)] show "tq_wf (started now q)"
    by (simp add: tq_wf_def started_def)
qed

lemma timerfd_callback_unfold:
  assumes "tq_wf q" and "now \<notin> fst ` set (timers q)"
  shows "timerfd_callback alloc settime body now clock q =
    andthen (run_expired alloc settime body (expired_timer (started now q)) (started now q)) (\<lambda>q2.
    andthen (restart_expired now (expired_timer (started now q))
               (q2\<lparr>calling_expired_timers := False\<rparr>)) (\<lambda>q3.
    andthen (rearm settime clock q3) (\<lambda>q4. Inr (q4\<lparr>expired_timer := []\<rparr>))))"
  using anchor_assert_iff [OF assms(1), of now] assms(2)
  by (simp add: timerfd_callback_def started_def Let_def)

definition timers_restartable :: "time_point \<Rightarrow> 'cb timer_queue \<Rightarrow> bool" where
  "timers_restartable now q \<longleftrightarrow> (\<forall>e\<in>set (timers q). \<forall>tm. timer_heap q (snd e) = Some tm \<longrightarrow>
     repeat tm \<longrightarrow> restartable now tm)"

lemma tq_wf_clear_expired: "tq_wf q \<Longrightarrow> tq_wf (q\<lparr>expired_timer := []\<rparr>)"
  by (auto simp: tq_wf_def timer_alive_def)

text \<open>The second half of the callback works on the queue \<open>q2\<close> that the timer callbacks left.\<close>

lemma restart_after_run:
  assumes wf: "tq_wf q" and none: "expired_timer q = []" and able: "timers_restartable now q"
    and q2: "tq_wf q2" "tq_frame (started now q) q2"
  obtains q3 where "restart_expired now (expired_at now q) (q2\<lparr>calling_expired_timers := False\<rparr>) = Inr q3" "tq_wf q3"
    "run_log q3 = run_log q2" "\<not> calling_expired_timers q3"
    "set (timers q3) = set (timers q2) \<union> restart_entries now (expired_at now q) q2"
proof -
  let ?q1 = "started now q" and ?es = "expired_at now q"
  note s = started_ok [OF wf none, of now]
  have es: "expired_timer ?q1 = ?es" by (simp add: started_def os_before_expired [OF wf])
  let ?q2 = "q2\<lparr>calling_expired_timers := False\<rparr>"
  have exp2: "expired_timer q2 = ?es" using q2(2) es by (simp add: tq_frame_def)
  have split2: "tq_split q2" using s(1) q2(2) s(2) by (rule tq_frame_split)
  have sub: "set ?es \<subseteq> set (timers q)" using s(3) by (simp add: es)
  have heap: "timer_heap q2 p = timer_heap q p" if "p \<in> snd ` set ?es" for p
  proof -
    from that sub obtain e where "e \<in> set (timers q)" "p = snd e" by blast
    then obtain tm where "timer_heap q p = Some tm" using tq_wf_heap_entry [OF wf] by metis
    then show ?thesis using tq_frame_heap [OF q2(2), of p tm] by (simp add: started_def)
  qed
  have r: "\<forall>p tm. p \<in> snd ` set ?es \<and> restarts ?q2 p tm \<longrightarrow> restartable now tm"
  proof (intro allI impI)
    fix p tm assume p: "p \<in> snd ` set ?es \<and> restarts ?q2 p tm"
    then obtain e where e: "e \<in> set (timers q)" "p = snd e" using sub by blast
    from p have "timer_heap q p = Some tm" "repeat tm" using heap [of p] by (simp_all add: restarts_def)
    with e able show "restartable now tm" by (simp add: timers_restartable_def)
  qed
  have d: "distinct (map snd ?es)" using wf s(4) sub by (intro distinct_ptrs) (simp_all add: es)
  have disj: "snd ` set ?es \<inter> snd ` set (timers ?q2) = {}"
    using split2 exp2 by (auto simp: tq_split_def)
  have "\<exists>q3. restart_expired now ?es ?q2 = Inr q3 \<and> tq_wf q3 \<and> run_log q3 = run_log ?q2
     \<and> canceling_timers q3 = canceling_timers ?q2 \<and> expired_timer q3 = expired_timer ?q2
     \<and> calling_expired_timers q3 = calling_expired_timers ?q2
     \<and> timerfd_armed q3 = timerfd_armed ?q2
     \<and> set (timers q3) = set (timers ?q2) \<union> restart_entries now ?es ?q2"
    using q2(1) exp2 d disj r by (intro restart_expired_ok) simp_all
  then show thesis
    using that by (auto simp: restart_entries_def restarts_def)
qed

lemma timerfd_callback_ok:
  assumes wf: "tq_wf q" and none: "expired_timer q = []" and al: "alloc_ok alloc"
    and st: "settime_ok settime" and now: "now \<notin> fst ` set (timers q)"
    and able: "timers_restartable now q"
  obtains q2 q' where "timerfd_callback alloc settime body now clock q = Inr q'"
    "run_expired alloc settime body (expired_at now q) (started now q) = Inr q2"
    "tq_wf q2" "tq_frame (started now q) q2" "tq_wf q'" "expired_timer q' = []"
    "run_log q' = run_log q @ map snd (expired_at now q)"
    "\<not> calling_expired_timers q'"
    "set (timers q') = set (timers q2) \<union> restart_entries now (expired_at now q) q2"
    "\<And>e es. timers q' = e # es \<Longrightarrow> fst e \<noteq> InvalidTimePoint \<Longrightarrow>
       timerfd_armed q' = Some (clock, how_long_from_now clock (fst e))"
proof -
  let ?q1 = "started now q" and ?es = "expired_at now q"
  note s = started_ok [OF wf none, of now]
  have es: "expired_timer ?q1 = ?es" by (simp add: started_def os_before_expired [OF wf])
  have "snd ` set ?es \<subseteq> dom (timer_heap ?q1)"
    using expired_in_heap [OF s(1)] by (simp add: es)
  from run_expired_ok [OF s(1) al st this, of body] obtain q2 where
    q2: "run_expired alloc settime body ?es ?q1 = Inr q2" "tq_wf q2" "tq_frame ?q1 q2"
      "run_log q2 = run_log ?q1 @ map snd ?es" by blast
  obtain q3 where q3: "restart_expired now ?es (q2\<lparr>calling_expired_timers := False\<rparr>) = Inr q3" "tq_wf q3"
      "run_log q3 = run_log q2" "\<not> calling_expired_timers q3"
      "set (timers q3) = set (timers q2) \<union> restart_entries now ?es q2"
    using restart_after_run [OF wf none able q2(2,3)] .
  define q4 where "q4 = (case timers q3 of [] \<Rightarrow> q3
    | e # _ \<Rightarrow> if fst e = InvalidTimePoint then q3
        else q3\<lparr>timerfd_armed := Some (clock, how_long_from_now clock (fst e))\<rparr>)"
  have re: "rearm settime clock q3 = Inr q4"
    unfolding q4_def by (rule rearm_eq [OF q3(2) st])
  have q4: "tq_wf q4" "run_log q4 = run_log q3" "timers q4 = timers q3"
    "calling_expired_timers q4 = calling_expired_timers q3"
    using q3(2) by (auto simp: q4_def split: list.split)
  show thesis
  proof (rule that [of "q4\<lparr>expired_timer := []\<rparr>" q2])
    show "timerfd_callback alloc settime body now clock q = Inr (q4\<lparr>expired_timer := []\<rparr>)"
      by (simp add: timerfd_callback_unfold [OF wf now] es q2(1) q3(1) re)
    show "tq_wf (q4\<lparr>expired_timer := []\<rparr>)" using q4(1) by (rule tq_wf_clear_expired)
    show "run_log (q4\<lparr>expired_timer := []\<rparr>) = run_log q @ map snd ?es"
      using q4(2) q3(3) q2(4) by (simp add: started_def)
    show "timerfd_armed (q4\<lparr>expired_timer := []\<rparr>) = Some (clock, how_long_from_now clock (fst e))"
      if "timers (q4\<lparr>expired_timer := []\<rparr>) = e # es" "fst e \<noteq> InvalidTimePoint" for e es
    proof -
      from that(1) q4(3) have "timers q3 = e # es" by simp
      with that(2) show ?thesis by (simp add: q4_def)
    qed
  qed (use q2 q3 q4 in simp_all)
qed

subsection \<open>A concrete queue\<close>

text \<open>
  Callbacks are numbered; callback 1 cancels the timer at address 1 and adds a one-shot timer,
  the others do nothing. The queue has a repeating timer of two seconds and a one-shot timer.
\<close>

definition alloc_next :: "'cb alloc_fun" where
  "alloc_next h = Suc (Max (insert 0 (dom h)))"

lemma alloc_next_ok: "alloc_ok (alloc_next :: 'cb alloc_fun)"
proof -
  have "h (alloc_next h) = None" if fin: "finite (dom h)" for h :: "ptr \<rightharpoonup> 'cb timer"
  proof (rule ccontr)
    assume "h (alloc_next h) \<noteq> None"
    then have "alloc_next h \<in> insert 0 (dom h)" by (simp add: domIff)
    with fin have "alloc_next h \<le> Max (insert 0 (dom h))" by (intro Max_ge) simp_all
    then show False by (simp add: alloc_next_def)
  qed
  then show ?thesis by (simp add: alloc_ok_def alloc_next_def)
qed

lemma settime_always_ok: "settime_ok (\<lambda>_. None)"
  by (simp add: settime_ok_def)

definition ex_queue :: "nat timer_queue" where
  "ex_queue = \<lparr>timers = [(100, 1), (200, 2), (900, 3)], calling_expired_timers = False,
     canceling_timers = [],
     timer_heap = [1 \<mapsto> Timer_ctor 0 100 (2, 0), 2 \<mapsto> Timer_ctor 1 200 (0, 0),
                   3 \<mapsto> Timer_ctor 0 900 (0, 0)],
     pending_adds = [], expired_timer = [], timerfd_armed = None, run_log = []\<rparr>"

definition ex_body :: "nat \<Rightarrow> nat tq_call list" where
  "ex_body n = (if n = 1 then [CallCancel 1, CallAdd 0 700 (0, 0) 510] else [])"

lemma ex_queue_wf: "tq_wf ex_queue"
  by (auto simp: tq_wf_def ex_queue_def timer_alive_def Timer_ctor_def dbl_pos_def)

lemma ex_queue_restartable: "timers_restartable 500 ex_queue"
proof -
  have "seconds_to_rep (2, 0) = Inr (2 * 10 ^ 9)" by (rule seconds_to_rep_whole) simp_all
  then show ?thesis
    by (simp add: timers_restartable_def restartable_def ex_queue_def Timer_ctor_def dbl_pos_def
        in_rep_def)
qed

lemma ex_queue_fields: "expired_timer ex_queue = []" "500 \<notin> fst ` set (timers ex_queue)"
  "expired_at 500 ex_queue = [(100, 1), (200, 2)]" "run_log ex_queue = []"
  "timer_heap ex_queue 1 = Some (Timer_ctor 0 100 (2, 0))"
  "timer_heap ex_queue 2 = Some (Timer_ctor 1 200 (0, 0))"
  by (simp_all add: ex_queue_def expired_at_def)

lemmas ex_callback = ex_queue_wf ex_queue_fields(1) alloc_next_ok settime_always_ok
  ex_queue_fields(2) ex_queue_restartable

subsection \<open>Properties of the timer queue\<close>

text \<open>
  C18: the read callback of the timer descriptor runs the callback of every timer whose
  expiration lies before \<open>now\<close> exactly once, in the order of the expirations, and of no other
  timer, whatever the callbacks add or cancel meanwhile; it returns, with a well-formed queue.
  (Provided the times of the repeating timers can be represented, and no timer expires at
  exactly \<open>now\<close>.)
\<close>

theorem timerfd_callback_runs_expired:
  assumes "tq_wf q" and "expired_timer q = []" and "alloc_ok alloc" and "settime_ok settime"
    and "now \<notin> fst ` set (timers q)" and "timers_restartable now q"
  shows "\<exists>q'. timerfd_callback alloc settime body now clock q = Inr q' \<and> tq_wf q'
    \<and> expired_timer q' = [] \<and> \<not> calling_expired_timers q'
    \<and> run_log q' = run_log q @ map snd (filter (\<lambda>e. fst e < now) (timers q))"
  using assms
proof (rule timerfd_callback_ok [where body = body and clock = clock])
  fix q2 q' assume "timerfd_callback alloc settime body now clock q = Inr q'" and "tq_wf q'"
    and "expired_timer q' = []" and "\<not> calling_expired_timers q'"
    and "run_log q' = run_log q @ map snd (expired_at now q)"
  then show ?thesis by (auto simp: expired_at_def)
qed

theorem timerfd_callback_runs_expired_witness:
  "\<exists>q'. timerfd_callback alloc_next (\<lambda>_. None) ex_body 500 510 ex_queue = Inr q'
     \<and> run_log q' = [1, 2]"
  using timerfd_callback_runs_expired [OF ex_callback, of ex_body 510] ex_queue_fields(3,4)
  by (auto simp: expired_at_def)



text \<open>
  When the queue's timer descriptor is set, it goes off no later than the earliest expiration
  in the queue (or one nanosecond after the call, when that is already past).
\<close>

definition tq_armed :: "'cb timer_queue \<Rightarrow> bool" where
  "tq_armed q \<longleftrightarrow> (case timers q of [] \<Rightarrow> True | e # _ \<Rightarrow>
     (case timerfd_armed q of None \<Rightarrow> False
      | Some (c, (s, n)) \<Rightarrow> 0 \<le> s \<and> 0 \<le> n \<and> n < 10 ^ 9 \<and> 0 < s + n
          \<and> c + (s * 10 ^ 9 + n) \<le> max (c + 1) (fst e)))"

lemma tq_armed_cong:
  "timers q' = timers q \<Longrightarrow> timerfd_armed q' = timerfd_armed q \<Longrightarrow> tq_armed q' = tq_armed q"
  by (simp add: tq_armed_def split: list.split)

lemma armed_for:
  assumes "timerfd_armed q = Some (c, how_long_from_now c t)" and "timers q = e # es" and "t \<le> fst e"
  shows "tq_armed q"
proof -
  obtain s n where sn: "how_long_from_now c t = (s, n)" by (cases "how_long_from_now c t")
  with how_long_valid [of c t] have v: "0 \<le> s" "0 \<le> n" "n < 10 ^ 9"
    "s * 10 ^ 9 + n = max 1 (t - c)" by simp_all
  have "0 < s + n"
  proof (rule ccontr)
    assume "\<not> 0 < s + n"
    with v(1,2) have "s = 0 \<and> n = 0" by linarith
    with v(4) show False by simp
  qed
  moreover have "c + (s * 10 ^ 9 + n) \<le> max (c + 1) (fst e)"
    using assms(3) unfolding v(4) by simp
  ultimately show ?thesis
    using v(1-3) by (simp add: tq_armed_def assms(1,2) sn)
qed

lemma tq_armed_later:
  assumes "tq_armed q" and "timerfd_armed q' = timerfd_armed q" and "timers q = e # es"
    and "timers q' = e' # es'" and "fst e \<le> fst e'"
  shows "tq_armed q'"
  using assms by (auto simp: tq_armed_def split: option.splits)

lemma first_le_fst:
  assumes "ordered xs" and "xs = e # es" and "x \<in> set xs"
  shows "fst e \<le> fst (x :: int \<times> nat)"
  using assms by (auto simp: less_prod_def)

lemma tq_armed_insert:
  assumes "ordered (timers q)" and "tq_armed q"
  shows "tq_armed (q\<lparr>timers := os_insert (expiration tm, p) (timers q),
    timerfd_armed := armed_after now tm q, pending_adds := ps\<rparr>)"
proof -
  let ?q = "q\<lparr>timers := os_insert (expiration tm, p) (timers q),
    timerfd_armed := armed_after now tm q, pending_adds := ps\<rparr>"
  have mem: "set (timers ?q) = insert (expiration tm, p) (set (timers q))" by (simp add: set_os_insert)
  then obtain e es where e: "timers ?q = e # es" by (cases "timers ?q") auto
  then have "e \<in> set (timers ?q)" by simp
  then have cases: "e = (expiration tm, p) \<or> e \<in> set (timers q)" unfolding mem by blast
  show ?thesis
  proof (cases "timers q = [] \<or> expiration tm < fst (hd (timers q))")
    case True
    have "expiration tm \<le> fst e"
    proof (cases "timers q")
      case Nil
      with cases show ?thesis by auto
    next
      case (Cons e0 es0)
      with cases True first_le_fst [OF assms(1) Cons, of e] show ?thesis by fastforce
    qed
    with True e show ?thesis by (intro armed_for [of ?q]) (simp_all add: armed_after_def)
  next
    case False
    then obtain e0 es0 where e0: "timers q = e0 # es0" "fst e0 \<le> expiration tm"
      by (cases "timers q") auto
    then have "fst e0 \<le> fst e" using cases first_le_fst [OF assms(1) e0(1), of e] by auto
    with assms(2) e0 e False show ?thesis
      by (intro tq_armed_later [of q ?q]) (simp_all add: armed_after_def)
  qed
qed

lemma tq_armed_shrink:
  assumes "ordered (timers q)" and "tq_armed q" and "set ts \<subseteq> set (timers q)"
  shows "tq_armed (q\<lparr>timers := ts\<rparr>)"
proof (cases ts)
  case (Cons e es)
  then have e: "e \<in> set (timers q)" using assms(3) by auto
  then obtain e0 es0 where e0: "timers q = e0 # es0" by (cases "timers q") auto
  show ?thesis
    using first_le_fst [OF assms(1) e0 e] e0 Cons
    by (intro tq_armed_later [OF assms(2), where e = e0 and e' = e]) simp_all
qed (simp add: tq_armed_def)

lemma CancelTimer_task_armed:
  assumes "tq_wf q" and "tq_armed q" and "CancelTimer_task p q = Inr q'"
  shows "tq_armed q'"
proof -
  have "tq_armed (q\<lparr>timers := os_erase e (timers q)\<rparr>)" for e
    using tq_wfD(1) [OF assms(1)] assms(2) set_os_erase_subset by (rule tq_armed_shrink)
  moreover have "tq_armed (q\<lparr>canceling_timers := c\<rparr>) = tq_armed q" for c
    by (rule tq_armed_cong) simp_all
  ultimately show ?thesis
    using assms(2,3) by (auto simp: CancelTimer_task_eq [OF assms(1)] split: if_splits)
qed

text \<open>
  The life of a timer queue: calls of \<open>AddTimer\<close> and \<open>CancelTimer\<close> in the loop thread,
  \<open>AddTimer\<close> in another thread (\<open>new\<close>) whose functor the loop runs later (\<open>run\<close>), the
  functor of a \<open>CancelTimer\<close> of another thread (also \<open>call\<close>), and the read callback.
\<close>

inductive tq_reachable :: "'cb alloc_fun \<Rightarrow> settime_fun \<Rightarrow> ('cb \<Rightarrow> 'cb tq_call list) \<Rightarrow>
    'cb timer_queue \<Rightarrow> bool"
  for alloc settime body where
  init: "tq_reachable alloc settime body TimerQueue_ctor"
| call: "tq_reachable alloc settime body q \<Longrightarrow> tq_exec alloc settime c q = Inr q' \<Longrightarrow>
     tq_reachable alloc settime body q'"
| new: "tq_reachable alloc settime body q \<Longrightarrow> AddTimer_new alloc cb when iv q = (p, q') \<Longrightarrow>
     tq_reachable alloc settime body q'"
| run: "tq_reachable alloc settime body q \<Longrightarrow> p \<in> set (pending_adds q) \<Longrightarrow>
     AddTimer_task settime now p q = Inr q' \<Longrightarrow> tq_reachable alloc settime body q'"
| fire: "tq_reachable alloc settime body q \<Longrightarrow> timers_restartable now q \<Longrightarrow>
     timerfd_callback alloc settime body now clock q = Inr q' \<Longrightarrow>
     InvalidTimePoint \<notin> fst ` set (timers q') \<Longrightarrow> tq_reachable alloc settime body q'"

definition tq_inv :: "'cb timer_queue \<Rightarrow> bool" where
  "tq_inv q \<longleftrightarrow> tq_wf q \<and> expired_timer q = [] \<and> \<not> calling_expired_timers q \<and> tq_armed q"

lemma timerfd_callback_not_now:
  assumes "tq_wf q" and "timerfd_callback alloc settime body now clock q = Inr q'"
  shows "now \<notin> fst ` set (timers q)"
  using assms(2) anchor_assert_iff [OF assms(1), of now]
  by (auto simp: timerfd_callback_def Let_def assert_then_def split: if_splits)

lemma tq_inv_task:
  assumes "tq_inv q" and "settime_ok settime" and "p \<in> set (pending_adds q)"
    and "AddTimer_task settime now p q = Inr q'"
  shows "tq_inv q'"
proof -
  have wf: "tq_wf q" using assms(1) by (simp add: tq_inv_def)
  have out: "p \<notin> snd ` set (timers q)" using tq_wfD(7) [OF wf] assms(3) by blast
  have "timer_alive q p" using assms(3) by (simp add: timer_alive_def)
  then obtain tm where tm: "timer_heap q p = Some tm" using tq_wfD(6) [OF wf] by blast
  have q': "q' = q\<lparr>timers := os_insert (expiration tm, p) (timers q),
    timerfd_armed := armed_after now tm q, pending_adds := removeAll p (pending_adds q)\<rparr>"
    using assms(4) AddTimer_task_eq [OF assms(2) tm out, of now] by simp
  have "tq_wf q'" unfolding q' using wf tm out by (rule AddTimer_task_wf)
  moreover have "tq_armed q'"
    unfolding q' using assms(1) tq_wfD(1) [OF wf] by (intro tq_armed_insert) (simp_all add: tq_inv_def)
  ultimately show ?thesis using assms(1) by (simp add: tq_inv_def q')
qed

lemma tq_inv_new:
  assumes "tq_inv q" and "alloc_ok alloc" and "AddTimer_new alloc cb w iv q = (p, q')"
  shows "tq_inv q'" and "p \<in> set (pending_adds q')"
proof -
  have wf: "tq_wf q" using assms(1) by (simp add: tq_inv_def)
  note n = AddTimer_new_wf [OF wf assms(2,3)]
  have "tq_armed q' = tq_armed q" by (rule tq_armed_cong) (simp_all add: n(7))
  then show "tq_inv q'" using assms(1) n(1) by (simp add: tq_inv_def n(7))
  show "p \<in> set (pending_adds q')" by (simp add: n(7))
qed

lemma tq_inv_exec:
  assumes "tq_inv q" and "alloc_ok alloc" and "settime_ok settime"
    and "tq_exec alloc settime c q = Inr q'"
  shows "tq_inv q'"
proof (cases c)
  case (CallAdd cb tp iv clock)
  obtain p q1 where new: "AddTimer_new alloc cb tp iv q = (p, q1)"
    by (cases "AddTimer_new alloc cb tp iv q")
  note n = tq_inv_new [OF assms(1,2) new]
  from assms(4) have "AddTimer_task settime clock p q1 = Inr q'"
    by (auto simp: CallAdd AddTimer_in_loop_def new andthen_eq_Inr)
  with n(1) assms(3) n(2) show ?thesis by (rule tq_inv_task)
next
  case (CallCancel p)
  have wf: "tq_wf q" and ar: "tq_armed q" using assms(1) by (simp_all add: tq_inv_def)
  from assms(4) have c: "CancelTimer_task p q = Inr q'" by (simp add: CallCancel)
  have "expired_timer q' = expired_timer q \<and> calling_expired_timers q' = calling_expired_timers q"
    using CancelTimer_task_ok [OF wf, of p] c by (auto simp: tq_frame_def)
  with CancelTimer_task_wf [OF wf c] CancelTimer_task_armed [OF wf ar c] assms(1)
  show ?thesis by (simp add: tq_inv_def)
qed

lemma tq_inv_fire:
  assumes "tq_inv q" and "alloc_ok alloc" and "settime_ok settime" and "timers_restartable now q"
    and "timerfd_callback alloc settime body now clock q = Inr q'"
    and "InvalidTimePoint \<notin> fst ` set (timers q')"
  shows "tq_inv q'"
proof -
  have wf: "tq_wf q" and ex: "expired_timer q = []" using assms(1) by (simp_all add: tq_inv_def)
  from timerfd_callback_ok [OF wf ex assms(2,3) timerfd_callback_not_now [OF wf assms(5)] assms(4),
      of body clock] assms(5)
  have q': "tq_wf q'" "expired_timer q' = []" "\<not> calling_expired_timers q'"
    and armed: "\<And>e es. timers q' = e # es \<Longrightarrow> fst e \<noteq> InvalidTimePoint \<Longrightarrow>
       timerfd_armed q' = Some (clock, how_long_from_now clock (fst e))"
    by (metis sum.inject(2))+
  have "tq_armed q'"
  proof (cases "timers q'")
    case (Cons e es)
    with armed [OF Cons] assms(6) show ?thesis by (intro armed_for) auto
  qed (simp add: tq_armed_def)
  with q' show ?thesis by (simp add: tq_inv_def)
qed

text \<open>
  C7: in every state the timer queue can reach, the entries carry the expirations of live
  timers in increasing order, every timer that can be reached through a pointer exists, and
  the timer descriptor has been set early enough for the earliest timer: no timer is forgotten.
  (Timers at the time point zero, which the code uses as "no time", are excluded.)
\<close>

theorem timer_queue_invariant:
  assumes "alloc_ok alloc" and "settime_ok settime" and "tq_reachable alloc settime body q"
  shows "tq_wf q \<and> expired_timer q = [] \<and> tq_armed q"
proof -
  from assms(3) have "tq_inv q"
  proof (induction rule: tq_reachable.induct)
    case init
    show ?case using tq_wf_ctor by (simp add: tq_inv_def TimerQueue_ctor_def tq_armed_def)
  next
    case (call q c q')
    then show ?case using tq_inv_exec [OF _ assms(1,2)] by blast
  next
    case (new q cb tp iv p q')
    then show ?case using tq_inv_new(1) [OF _ assms(1)] by blast
  next
    case (run q p now q')
    then show ?case using tq_inv_task [OF _ assms(2)] by blast
  next
    case (fire q now clock q')
    then show ?case using tq_inv_fire [OF _ assms(1,2)] by blast
  qed
  then show ?thesis by (simp add: tq_inv_def)
qed

lemma distinct_singleton_set: "distinct xs \<Longrightarrow> set xs = {x} \<Longrightarrow> xs = [x]"
  by (cases xs) (auto simp: subset_singleton_iff)

theorem timer_queue_invariant_witness:
  "\<exists>q p. tq_reachable alloc_next (\<lambda>_. None) ex_body q \<and> timers q = [(700, p)] \<and> tq_armed q"
proof -
  obtain p q where add: "AddTimer_in_loop alloc_next (\<lambda>_. None) 100 0 700 (0, 0)
      (TimerQueue_ctor :: nat timer_queue) = Inr (p, q)"
    and set: "set (timers q) = insert (700, p) (set (timers (TimerQueue_ctor :: nat timer_queue)))"
    using AddTimer_in_loop_ok [OF tq_wf_ctor alloc_next_ok settime_always_ok,
        of 100 "0 :: nat" 700 "(0, 0)"] by metis
  have "tq_exec alloc_next (\<lambda>_. None) (CallAdd 0 700 (0, 0) 100) TimerQueue_ctor = Inr q"
    by (simp add: add)
  then have reach: "tq_reachable alloc_next (\<lambda>_. None) ex_body q"
    by (rule tq_reachable.call [OF tq_reachable.init])
  note inv = timer_queue_invariant [OF alloc_next_ok settime_always_ok reach]
  have "distinct (timers q)" using inv by (simp add: tq_wf_def strict_sorted_iff)
  with set have "timers q = [(700, p)]"
    by (intro distinct_singleton_set) (simp_all add: TimerQueue_ctor_def)
  with reach inv show ?thesis by blast
qed

text \<open>
  C33: when the clock shows exactly the expiration of a timer, the assertion after
  \<open>lower_bound\<close> fails: the anchor has a null pointer, which is less than any timer, so the
  entry with the same time is the first one not less than the anchor.
\<close>

theorem timerfd_callback_exact_expiration:
  assumes "tq_wf q" and "(now, p) \<in> set (timers q)"
  shows "timerfd_callback alloc settime body now clock q = Inl AssertFail"
proof -
  have "now \<in> fst ` set (timers q)" using assms(2) by force
  with anchor_assert_iff [OF assms(1), of now] show ?thesis
    by (simp add: timerfd_callback_def Let_def)
qed

theorem timerfd_callback_exact_expiration_witness:
  "timerfd_callback alloc_next (\<lambda>_. None) ex_body 200 210 ex_queue = Inl AssertFail"
  by (rule timerfd_callback_exact_expiration [OF ex_queue_wf, of _ 2]) (simp add: ex_queue_def)

text \<open>
  \<open>AddTimer\<close> in the loop thread queues the new timer for its time, in front of exactly
  the timers that expire later, and changes no other entry; cancelling it through the pointer
  it returned restores the queue.
\<close>

theorem AddTimer_CancelTimer:
  assumes "tq_wf q" and "alloc_ok alloc" and "settime_ok settime"
  shows "\<exists>p q1 q2. AddTimer_in_loop alloc settime now cb when iv q = Inr (p, q1)
    \<and> (\<exists>before after. timers q1 = before @ (when, p) # after \<and> timers q = before @ after
         \<and> (\<forall>e\<in>set before. fst e \<le> when) \<and> (\<forall>e\<in>set after. when \<le> fst e))
    \<and> timer_heap q1 p = Some (Timer_ctor cb when iv)
    \<and> CancelTimer_task p q1 = Inr q2 \<and> timers q2 = timers q"
proof -
  obtain p q1 where q1: "AddTimer_in_loop alloc settime now cb when iv q = Inr (p, q1)" "tq_wf q1"
      "set (timers q1) = insert (when, p) (set (timers q))" "timer_heap q p = None"
      "timer_heap q1 p = Some (Timer_ctor cb when iv)"
    using AddTimer_in_loop_ok [OF assms, of now cb "when" iv] by blast
  obtain q2 where q2: "CancelTimer_task p q1 = Inr q2" "tq_wf q2"
      "timers q2 = os_erase (when, p) (timers q1)"
    using CancelTimer_task_eq [OF q1(2), of p] CancelTimer_task_wf [OF q1(2), of p] q1(3,5)
    by (force simp: Timer_ctor_def)
  have new: "(when, p) \<notin> set (timers q)"
    using q1(4) tq_wf_entry(2) [OF assms(1), of "when" p] by auto
  have "set (timers q2) = set (timers q)"
    using q2(3) q1(3) new set_os_erase [OF tq_wfD(1) [OF q1(2)]] by simp
  then have same: "timers q2 = timers q"
    using tq_wfD(1) [OF q2(2)] tq_wfD(1) [OF assms(1)] by (simp add: strict_sorted_equal)
  obtain bs as where split: "timers q1 = bs @ (when, p) # as" "(when, p) \<notin> set bs"
    using q1(3) split_list_first [of "(when, p)" "timers q1"] by auto
  have "os_erase x (xs @ x # ys) = xs @ ys" if "x \<notin> set xs" for x :: "time_point \<times> ptr" and xs ys
    using that by (induction xs) auto
  then have "timers q = bs @ as" using q2(3) same split by simp
  moreover have "\<forall>e\<in>set bs. fst e \<le> when" "\<forall>e\<in>set as. when \<le> fst e"
    using tq_wfD(1) [OF q1(2)] by (auto simp: split(1) sorted_wrt_append less_prod_def)
  ultimately show ?thesis using q1 q2 same split(1) by blast
qed

theorem AddTimer_CancelTimer_witness:
  "\<exists>p q1 q2. AddTimer_in_loop alloc_next (\<lambda>_. None) 10 0 150 (0, 0) ex_queue = Inr (p, q1)
    \<and> timer_heap q1 p = Some (Timer_ctor 0 150 (0, 0))
    \<and> CancelTimer_task p q1 = Inr q2 \<and> timers q2 = timers ex_queue"
  using AddTimer_CancelTimer [OF ex_queue_wf alloc_next_ok settime_always_ok, of 10 0 150 "(0, 0)"]
  by blast

end
