(* ===== verification/LoopTimers.thy ===== *)
theory LoopTimers
  imports EventLoop TimerQueue
begin

text \<open>
  The timer interface of \<open>EventLoop\<close> (\<open>RunAt\<close>, \<open>RunAfter\<close>, \<open>RunEvery\<close>, \<open>CancelTimer\<close>), called
  in the loop thread. \<open>now\<close> is the clock read by the call, \<open>clock\<close> the one read when the timer
  descriptor is armed.
\<close>

subsection \<open>Timers of the loop\<close>

definition RunAt :: "'f alloc_fun \<Rightarrow> settime_fun \<Rightarrow> time_point \<Rightarrow> time_point \<Rightarrow> 'f \<Rightarrow>
    'f timer_queue \<Rightarrow> (ptr \<times> 'f timer_queue) res" where
  "RunAt alloc settime clock time cb q = AddTimer_in_loop alloc settime clock cb time (0, 0) q"

definition RunAfter :: "'f alloc_fun \<Rightarrow> settime_fun \<Rightarrow> time_point \<Rightarrow> time_point \<Rightarrow> dbl \<Rightarrow> 'f \<Rightarrow>
    'f timer_queue \<Rightarrow> (ptr \<times> 'f timer_queue) res" where
  "RunAfter alloc settime now clock delay cb q =
     andthen (seconds_to_rep delay) (\<lambda>d. andthen (time_add now d) (\<lambda>time.
       AddTimer_in_loop alloc settime clock cb time (0, 0) q))"

definition RunEvery :: "'f alloc_fun \<Rightarrow> settime_fun \<Rightarrow> time_point \<Rightarrow> time_point \<Rightarrow> dbl \<Rightarrow> 'f \<Rightarrow>
    'f timer_queue \<Rightarrow> (ptr \<times> 'f timer_queue) res" where
  "RunEvery alloc settime now clock iv cb q =
     andthen (seconds_to_rep iv) (\<lambda>d. andthen (time_add now d) (\<lambda>time.
       AddTimer_in_loop alloc settime clock cb time iv q))"

definition CancelTimer :: "ptr \<Rightarrow> 'f timer_queue \<Rightarrow> 'f timer_queue res" where
  "CancelTimer p q = CancelTimer_task p q"

subsection \<open>Scheduling\<close>

definition scheduled :: "time_point \<Rightarrow> 'f timer \<Rightarrow> 'f timer_queue \<Rightarrow> (ptr \<times> 'f timer_queue) res \<Rightarrow> bool" where
  "scheduled time tm q r \<longleftrightarrow> (\<exists>p q'. r = Inr (p, q') \<and> tq_wf q' \<and> timer_heap q p = None \<and> timer_heap q' p = Some tm
     \<and> expiration tm = time \<and> set (timers q') = insert (time, p) (set (timers q)))"

lemma AddTimer_in_loop_schedules:
  assumes "tq_wf q" "alloc_ok alloc" "settime_ok settime"
  shows "scheduled time (Timer_ctor cb time iv) q (AddTimer_in_loop alloc settime clock cb time iv q)"
  using AddTimer_in_loop_ok [OF assms, of clock cb time iv] unfolding scheduled_def by (force simp: Timer_ctor_def)



end
