(* ===== verification/Buffer.thy ===== *)
theory Buffer
  imports Benet_Prelude
begin

text \<open>
  The byte buffer of \<open>include/benet/buffer.h\<close>: a vector of bytes with a reader and a
  writer index. A pointer into the vector is the offset from \<open>begin()\<close>; \<open>None\<close> is the
  null pointer. Every operation returns its new buffer in the result type, so that a failed
  \<open>assert\<close>, an exception of the vector and an access outside the vector are all visible.
  The second part states the abstract specification (a queue of bytes) and shows that the
  operations implement it; the locale \<open>byte_queue\<close> is the contract the connection relies on.
\<close>

named_theorems buffer_defs \<open>definitions of the buffer operations\<close>

subsection \<open>State\<close>

record buffer =
  buffer_vec :: "byte list"
  reader_index :: nat
  writer_index :: nat

definition kCheapPrepend :: nat where
  "kCheapPrepend = 8"

definition kInitialSize :: nat where
  "kInitialSize = 1024"

definition kExtraBufSize :: nat where
  "kExtraBufSize = 65536"

definition kCRLF :: "byte list" where
  "kCRLF = [13, 10]"

text \<open>\<open>std::vector<char>(n)\<close> and \<open>resize(n)\<close>: new cells are zero.\<close>

definition vector_resize :: "byte list \<Rightarrow> nat \<Rightarrow> byte list res" where
  "vector_resize bs n =
     (if n \<le> vector_max then Inr (take n bs @ replicate (n - length bs) 0) else Inl LengthError)"

definition Buffer_ctor :: "nat \<Rightarrow> buffer res" where
  "Buffer_ctor init_size =
     andthen (vector_resize [] (size_add kCheapPrepend init_size)) (\<lambda>bs.
       Inr \<lparr>buffer_vec = bs, reader_index = kCheapPrepend, writer_index = kCheapPrepend\<rparr>)"

subsection \<open>Observers\<close>

definition ReadableBytes :: "buffer \<Rightarrow> nat" where
  [buffer_defs]: "ReadableBytes b = size_sub (writer_index b) (reader_index b)"

definition WritableBytes :: "buffer \<Rightarrow> nat" where
  [buffer_defs]: "WritableBytes b = size_sub (length (buffer_vec b)) (writer_index b)"

definition PrependableBytes :: "buffer \<Rightarrow> nat" where
  [buffer_defs]: "PrependableBytes b = reader_index b"

definition begin_read :: "buffer \<Rightarrow> nat" where
  [buffer_defs]: "begin_read b = reader_index b"

definition begin_write :: "buffer \<Rightarrow> nat" where
  [buffer_defs]: "begin_write b = writer_index b"

definition Peek :: "buffer \<Rightarrow> nat" where
  [buffer_defs]: "Peek b = begin_read b"

text \<open>\<open>PeekInt<T>\<close> for the integral types \<open>T\<close> of 8, 16, 32 and 64 bits.\<close>

definition be_to_host :: "'a::len word \<Rightarrow> 'a word" where
  "be_to_host val = (if LENGTH('a) = 8 then val else bswap val)"

definition host_to_be :: "'a::len word \<Rightarrow> 'a word" where
  "host_to_be num = (if LENGTH('a) = 8 then num else bswap num)"

definition PeekInt :: "buffer \<Rightarrow> 'a::len word res" where
  "PeekInt b = assert_then (ReadableBytes b \<ge> LENGTH('a) div 8)
     (andthen (mem_load (buffer_vec b) (Peek b) (LENGTH('a) div 8)) (\<lambda>bs.
       Inr (be_to_host (word_of_mem bs))))"

definition PeekInt64 :: "buffer \<Rightarrow> 64 word res" where "PeekInt64 = PeekInt"

definition PeekInt32 :: "buffer \<Rightarrow> 32 word res" where "PeekInt32 = PeekInt"

definition PeekInt16 :: "buffer \<Rightarrow> 16 word res" where "PeekInt16 = PeekInt"

definition PeekInt8 :: "buffer \<Rightarrow> 8 word res" where "PeekInt8 = PeekInt"

text \<open>\<open>memmem\<close> and \<open>memchr\<close>: the offset of the first occurrence in a block.\<close>

fun memmem :: "byte list \<Rightarrow> byte list \<Rightarrow> nat option" where
  "memmem [] needle = (if needle = [] then Some 0 else None)"
| "memmem (x # xs) needle =
     (if take (length needle) (x # xs) = needle then Some 0
      else map_option Suc (memmem xs needle))"

fun memchr :: "byte list \<Rightarrow> byte \<Rightarrow> nat option" where
  "memchr [] c = None"
| "memchr (x # xs) c = (if x = c then Some 0 else map_option Suc (memchr xs c))"

definition FindCRLF_from :: "buffer \<Rightarrow> nat \<Rightarrow> nat option res" where
  "FindCRLF_from b start =
     assert_then (Peek b \<le> start) (assert_then (start \<le> begin_write b)
       (andthen (mem_load (buffer_vec b) start (begin_write b - start)) (\<lambda>bs.
         Inr (map_option (\<lambda>i. start + i) (memmem bs kCRLF)))))"

definition FindCRLF :: "buffer \<Rightarrow> nat option res" where
  "FindCRLF b =
     andthen (mem_load (buffer_vec b) (Peek b) (ReadableBytes b)) (\<lambda>bs.
       Inr (map_option (\<lambda>i. Peek b + i) (memmem bs kCRLF)))"

definition FindEOL_from :: "buffer \<Rightarrow> nat \<Rightarrow> nat option res" where
  "FindEOL_from b start =
     assert_then (Peek b \<le> start) (assert_then (start \<le> begin_write b)
       (andthen (mem_load (buffer_vec b) start (begin_write b - start)) (\<lambda>bs.
         Inr (map_option (\<lambda>i. start + i) (memchr bs 10)))))"

definition FindEOL :: "buffer \<Rightarrow> nat option res" where
  "FindEOL b =
     andthen (mem_load (buffer_vec b) (Peek b) (ReadableBytes b)) (\<lambda>bs.
       Inr (map_option (\<lambda>i. Peek b + i) (memchr bs 10)))"

subsection \<open>Retrieving\<close>

definition Retrieve :: "buffer \<Rightarrow> nat \<Rightarrow> buffer res" where
  "Retrieve b len = assert_then (ReadableBytes b \<ge> len)
     (Inr (b\<lparr>reader_index := size_add (reader_index b) len\<rparr>))"

definition RetrieveUntil :: "buffer \<Rightarrow> nat \<Rightarrow> buffer res" where
  "RetrieveUntil b fin =
     assert_then (Peek b \<le> fin) (assert_then (fin \<le> begin_write b)
       (Retrieve b (fin - Peek b)))"

definition RetrieveAll :: "buffer \<Rightarrow> buffer" where
  "RetrieveAll b = b\<lparr>reader_index := kCheapPrepend, writer_index := kCheapPrepend\<rparr>"

definition RetrieveAsString :: "buffer \<Rightarrow> nat \<Rightarrow> (byte list \<times> buffer) res" where
  "RetrieveAsString b len = assert_then (ReadableBytes b \<ge> len)
     (andthen (mem_load (buffer_vec b) (Peek b) len) (\<lambda>result.
       andthen (Retrieve b len) (\<lambda>b'. Inr (result, b'))))"

definition RetrieveAllAsString :: "buffer \<Rightarrow> (byte list \<times> buffer) res" where
  "RetrieveAllAsString b = RetrieveAsString b (ReadableBytes b)"

definition RetrieveAsInt :: "buffer \<Rightarrow> ('a::len word \<times> buffer) res" where
  "RetrieveAsInt b =
     andthen (PeekInt b) (\<lambda>result :: 'a word.
       andthen (Retrieve b (LENGTH('a) div 8)) (\<lambda>b'. Inr (result, b')))"

definition RetrieveAsInt64 :: "buffer \<Rightarrow> (64 word \<times> buffer) res" where
  "RetrieveAsInt64 = RetrieveAsInt"

definition RetrieveAsInt32 :: "buffer \<Rightarrow> (32 word \<times> buffer) res" where
  "RetrieveAsInt32 = RetrieveAsInt"

definition RetrieveAsInt16 :: "buffer \<Rightarrow> (16 word \<times> buffer) res" where
  "RetrieveAsInt16 = RetrieveAsInt"

definition RetrieveAsInt8 :: "buffer \<Rightarrow> (8 word \<times> buffer) res" where
  "RetrieveAsInt8 = RetrieveAsInt"

subsection \<open>Appending and prepending\<close>

definition make_space :: "buffer \<Rightarrow> nat \<Rightarrow> buffer res" where
  "make_space b len =
     (if size_add (WritableBytes b) (PrependableBytes b) < size_add len kCheapPrepend
      then andthen (vector_resize (buffer_vec b) (size_add (writer_index b) len)) (\<lambda>bs.
             Inr (b\<lparr>buffer_vec := bs\<rparr>))
      else
        let readable = ReadableBytes b in
        andthen (copy_fwd (buffer_vec b) (begin_read b) (begin_write b) kCheapPrepend) (\<lambda>bs.
          Inr (b\<lparr>buffer_vec := bs, reader_index := kCheapPrepend,
                 writer_index := size_add kCheapPrepend readable\<rparr>)))"

definition EnsureWriteableBytes :: "buffer \<Rightarrow> nat \<Rightarrow> buffer res" where
  "EnsureWriteableBytes b len = (if len > WritableBytes b then make_space b len else Inr b)"

definition Append :: "buffer \<Rightarrow> byte list \<Rightarrow> buffer res" where
  "Append b data =
     andthen (EnsureWriteableBytes b (length data)) (\<lambda>b.
       andthen (mem_store (buffer_vec b) (begin_write b) data) (\<lambda>bs.
         Inr (b\<lparr>buffer_vec := bs, writer_index := size_add (writer_index b) (length data)\<rparr>)))"

definition AppendInt :: "buffer \<Rightarrow> 'a::len word \<Rightarrow> buffer res" where
  "AppendInt b num = Append b (mem_of_word (host_to_be num))"

definition AppendInt64 :: "buffer \<Rightarrow> 64 word \<Rightarrow> buffer res" where "AppendInt64 = AppendInt"

definition AppendInt32 :: "buffer \<Rightarrow> 32 word \<Rightarrow> buffer res" where "AppendInt32 = AppendInt"

definition AppendInt16 :: "buffer \<Rightarrow> 16 word \<Rightarrow> buffer res" where "AppendInt16 = AppendInt"

definition AppendInt8 :: "buffer \<Rightarrow> 8 word \<Rightarrow> buffer res" where "AppendInt8 = AppendInt"

definition Prepend :: "buffer \<Rightarrow> byte list \<Rightarrow> buffer res" where
  "Prepend b data = assert_then (length data \<le> PrependableBytes b)
     (andthen (mem_store (buffer_vec b) (begin_read b - length data) data) (\<lambda>bs.
       Inr (b\<lparr>buffer_vec := bs, reader_index := size_sub (reader_index b) (length data)\<rparr>)))"

definition PrependInt :: "buffer \<Rightarrow> 'a::len word \<Rightarrow> buffer res" where
  "PrependInt b num = Prepend b (mem_of_word (host_to_be num))"

definition PrependInt64 :: "buffer \<Rightarrow> 64 word \<Rightarrow> buffer res" where "PrependInt64 = PrependInt"

definition PrependInt32 :: "buffer \<Rightarrow> 32 word \<Rightarrow> buffer res" where "PrependInt32 = PrependInt"

definition PrependInt16 :: "buffer \<Rightarrow> 16 word \<Rightarrow> buffer res" where "PrependInt16 = PrependInt"

definition PrependInt8 :: "buffer \<Rightarrow> 8 word \<Rightarrow> buffer res" where "PrependInt8 = PrependInt"

subsection \<open>Reading from a file descriptor\<close>

text \<open>
  \<open>readv\<close> is a parameter: from the lengths of the vectors to an error or to the bytes that
  were received, which the kernel scatters over the vectors in order. The value returned is
  the \<open>ssize_t\<close> of the call and, for a failure, the error number left in \<open>errno\<close>.
\<close>

type_synonym readv_fun = "nat list \<Rightarrow> byte list sysret"

definition ReadFd :: "readv_fun \<Rightarrow> buffer \<Rightarrow> (nat sysret \<times> buffer) res" where
  "ReadFd readv b =
     (let writable = WritableBytes b;
          iov = (if writable < kExtraBufSize then [writable, kExtraBufSize] else [writable])
      in case readv iov of
           SysErr e \<Rightarrow> Inr (SysErr e, b)
         | SysOk data \<Rightarrow>
             let n = length data in
             andthen (mem_store (buffer_vec b) (begin_write b) (take writable data)) (\<lambda>bs.
             andthen (mem_store (replicate kExtraBufSize 0) 0 (drop writable data)) (\<lambda>extra_buf.
               if n \<le> writable
               then Inr (SysOk n, b\<lparr>buffer_vec := bs, writer_index := size_add (writer_index b) n\<rparr>)
               else andthen (Append (b\<lparr>buffer_vec := bs, writer_index := length bs\<rparr>)
                              (take (n - writable) extra_buf)) (\<lambda>b'.
                      Inr (SysOk n, b')))))"

subsection \<open>Well-formedness and content\<close>

text \<open>
  The picture in the header comment: \<open>0 \<le> reader_index \<le> writer_index \<le> size()\<close>. The
  content is what lies between the two indices.
\<close>

definition buf_wf :: "buffer \<Rightarrow> bool" where
  "buf_wf b \<longleftrightarrow> reader_index b \<le> writer_index b \<and> writer_index b \<le> length (buffer_vec b)
     \<and> length (buffer_vec b) \<le> vector_max"

definition content :: "buffer \<Rightarrow> byte list" where
  "content b = take (writer_index b - reader_index b) (drop (reader_index b) (buffer_vec b))"

lemma buf_wf_bounds:
  assumes "buf_wf b"
  shows "reader_index b \<le> writer_index b" "writer_index b \<le> length (buffer_vec b)"
    "length (buffer_vec b) \<le> vector_max" "writer_index b < size_modulus"
    "length (buffer_vec b) < size_modulus"
  using assms vector_max_less [of "length (buffer_vec b)"] by (auto simp: buf_wf_def)

lemma observers_exact:
  assumes "buf_wf b"
  shows "ReadableBytes b = writer_index b - reader_index b"
    "WritableBytes b = length (buffer_vec b) - writer_index b"
    "PrependableBytes b = reader_index b"
    "Peek b = reader_index b" "begin_write b = writer_index b" "begin_read b = reader_index b"
  using buf_wf_bounds [OF assms] by (simp_all add: buffer_defs size_sub_exact)

lemma length_content: "buf_wf b \<Longrightarrow> length (content b) = writer_index b - reader_index b"
  by (auto simp: content_def buf_wf_def)

lemma content_layout:
  assumes "buffer_vec b = xs @ c @ ys" and "reader_index b = length xs"
    and "writer_index b = length xs + length c"
  shows "content b = c"
  using assms by (simp add: content_def)

lemma ReadableBytes_content: "buf_wf b \<Longrightarrow> ReadableBytes b = length (content b)"
  by (simp add: observers_exact length_content)

lemma mem_load_content:
  assumes "buf_wf b" and "len \<le> length (content b)"
  shows "mem_load (buffer_vec b) (Peek b) len = Inr (take len (content b))"
  using assms by (auto simp: mem_load_def observers_exact length_content content_def buf_wf_def)

lemma mem_load_content_from:
  assumes "buf_wf b" and "reader_index b \<le> i" and "i \<le> writer_index b"
  shows "mem_load (buffer_vec b) i (writer_index b - i) = Inr (drop (i - reader_index b) (content b))"
  using assms by (auto simp: mem_load_def content_def buf_wf_def drop_take)

lemma Buffer_ctor_ok:
  assumes "init_size + kCheapPrepend \<le> vector_max"
  shows "\<exists>b. Buffer_ctor init_size = Inr b \<and> buf_wf b \<and> content b = []
    \<and> WritableBytes b = init_size \<and> PrependableBytes b = kCheapPrepend"
proof -
  have "size_add kCheapPrepend init_size = kCheapPrepend + init_size"
    using assms vector_max_less [of "kCheapPrepend + init_size"] by (simp add: size_add_exact add.commute)
  moreover have "size_sub (kCheapPrepend + init_size) kCheapPrepend = init_size"
    using assms vector_max_less [of "kCheapPrepend + init_size"] by (simp add: size_sub_exact add.commute)
  ultimately show ?thesis
    using assms
    by (simp add: Buffer_ctor_def vector_resize_def buf_wf_def content_def buffer_defs add.commute)
qed

subsection \<open>Retrieving\<close>

lemma Retrieve_iff:
  assumes "buf_wf b"
  shows "Retrieve b len = (if len \<le> length (content b)
    then Inr (b\<lparr>reader_index := reader_index b + len\<rparr>) else Inl AssertFail)"
proof (cases "len \<le> length (content b)")
  case True
  then have "reader_index b + len < size_modulus"
    using buf_wf_bounds [OF assms] length_content [OF assms] by linarith
  with True assms show ?thesis
    by (simp add: Retrieve_def ReadableBytes_content size_add_exact)
next
  case False
  with assms show ?thesis
    by (simp add: Retrieve_def ReadableBytes_content)
qed

lemma retrieve_effect:
  assumes "buf_wf b" and "len \<le> length (content b)"
  shows "buf_wf (b\<lparr>reader_index := reader_index b + len\<rparr>)"
    and "content (b\<lparr>reader_index := reader_index b + len\<rparr>) = drop len (content b)"
  using assms length_content [OF assms(1)]
  by (auto simp: buf_wf_def content_def drop_take add.commute)

lemma Retrieve_ok:
  assumes "buf_wf b" and "len \<le> length (content b)"
  shows "\<exists>b'. Retrieve b len = Inr b' \<and> buf_wf b' \<and> content b' = drop len (content b)"
  using assms by (simp add: Retrieve_iff retrieve_effect)

lemma RetrieveAll_ok:
  assumes "buf_wf b" and "kCheapPrepend \<le> length (buffer_vec b)"
  shows "buf_wf (RetrieveAll b)" and "content (RetrieveAll b) = []"
  using assms by (auto simp: RetrieveAll_def buf_wf_def content_def)

lemma RetrieveAsString_iff:
  assumes "buf_wf b"
  shows "RetrieveAsString b len = (if len \<le> length (content b)
    then Inr (take len (content b), b\<lparr>reader_index := reader_index b + len\<rparr>) else Inl AssertFail)"
  using assms
  by (simp add: RetrieveAsString_def ReadableBytes_content mem_load_content Retrieve_iff)

lemma RetrieveUntil_iff:
  assumes "buf_wf b"
  shows "RetrieveUntil b fin = (if reader_index b \<le> fin \<and> fin \<le> writer_index b
    then Inr (b\<lparr>reader_index := fin\<rparr>) else Inl AssertFail)"
  using assms buf_wf_bounds(1) [OF assms]
  by (auto simp: RetrieveUntil_def observers_exact Retrieve_iff length_content assert_then_def)

subsection \<open>Making space and appending\<close>

text \<open>
  A buffer that came out of the constructor always has the eight bytes of the prepend area,
  which \<open>RetrieveAll\<close> and \<open>make_space\<close> rely on.
\<close>

definition buf_inv :: "buffer \<Rightarrow> bool" where
  "buf_inv b \<longleftrightarrow> buf_wf b \<and> kCheapPrepend \<le> length (buffer_vec b)"

lemma buf_inv_wf: "buf_inv b \<Longrightarrow> buf_wf b"
  by (simp add: buf_inv_def)

lemma make_space_cond:
  assumes "buf_wf b" and "len \<le> vector_max"
  shows "size_add (WritableBytes b) (PrependableBytes b) < size_add len kCheapPrepend \<longleftrightarrow>
    length (buffer_vec b) - writer_index b + reader_index b < len + kCheapPrepend"
proof -
  have "WritableBytes b + PrependableBytes b < size_modulus"
    using buf_wf_bounds [OF assms(1)] by (simp add: observers_exact [OF assms(1)])
  moreover have "len + kCheapPrepend < size_modulus"
    using assms(2) by (simp add: vector_max_def size_modulus_def kCheapPrepend_def)
  ultimately show ?thesis
    by (simp add: size_add_exact observers_exact [OF assms(1)])
qed

lemma make_space_outside:
  assumes "buf_wf b" and "len \<le> vector_max" and "len > WritableBytes b"
    and "length (buffer_vec b) - writer_index b + reader_index b < len + kCheapPrepend"
  shows "make_space b len = (if writer_index b + len \<le> vector_max
    then Inr (b\<lparr>buffer_vec := buffer_vec b
                @ replicate (writer_index b + len - length (buffer_vec b)) 0\<rparr>)
    else Inl LengthError)"
proof -
  have "size_add (writer_index b) len = writer_index b + len"
    using buf_wf_bounds [OF assms(1)] assms(2) vector_max_add [of "writer_index b" len]
    by (intro size_add_exact) linarith
  moreover have "length (buffer_vec b) < writer_index b + len"
    using assms(1,3) by (simp add: observers_exact)
  ultimately show ?thesis
    using assms by (simp add: make_space_def make_space_cond vector_resize_def)
qed

text \<open>
  The compaction only runs when the reader index lies beyond the prepend area, so that
  \<open>std::copy\<close> moves towards the front and the overlapping ranges are no problem.
\<close>

lemma make_space_inside:
  assumes "buf_wf b" and "len \<le> vector_max" and "len > WritableBytes b"
    and "\<not> length (buffer_vec b) - writer_index b + reader_index b < len + kCheapPrepend"
  shows "kCheapPrepend < reader_index b"
    and "make_space b len = Inr (b\<lparr>
      buffer_vec := take kCheapPrepend (buffer_vec b) @ content b
        @ drop (kCheapPrepend + length (content b)) (buffer_vec b),
      reader_index := kCheapPrepend, writer_index := kCheapPrepend + length (content b)\<rparr>)"
proof -
  show lt: "kCheapPrepend < reader_index b"
    using assms by (simp add: observers_exact)
  have "size_add kCheapPrepend (ReadableBytes b) = kCheapPrepend + length (content b)"
    using lt buf_wf_bounds [OF assms(1)]
    by (simp add: ReadableBytes_content [OF assms(1)] length_content [OF assms(1)] size_add_exact)
  moreover have "copy_fwd (buffer_vec b) (reader_index b) (writer_index b) kCheapPrepend =
    Inr (take kCheapPrepend (buffer_vec b) @ content b
        @ drop (kCheapPrepend + length (content b)) (buffer_vec b))"
    using lt buf_wf_bounds [OF assms(1)]
    by (simp add: copy_fwd_down length_content [OF assms(1)] content_def [symmetric])
  ultimately show "make_space b len = Inr (b\<lparr>
      buffer_vec := take kCheapPrepend (buffer_vec b) @ content b
        @ drop (kCheapPrepend + length (content b)) (buffer_vec b),
      reader_index := kCheapPrepend, writer_index := kCheapPrepend + length (content b)\<rparr>)"
    using assms by (simp add: make_space_def make_space_cond observers_exact(5,6) Let_def)
qed

lemma make_space_ok:
  assumes "buf_inv b" and "len \<le> vector_max" and "len > WritableBytes b"
    and "make_space b len = Inr b'"
  shows "buf_inv b' \<and> content b' = content b \<and> len \<le> WritableBytes b'"
proof (cases "length (buffer_vec b) - writer_index b + reader_index b < len + kCheapPrepend")
  case True
  have wf: "buf_wf b" using assms(1) by (rule buf_inv_wf)
  from make_space_outside [OF wf assms(2,3) True] assms(4)
  have fit: "writer_index b + len \<le> vector_max" and b': "b' = b\<lparr>buffer_vec := buffer_vec b
      @ replicate (writer_index b + len - length (buffer_vec b)) 0\<rparr>"
    by (auto split: if_splits)
  have "length (buffer_vec b) < writer_index b + len"
    using assms(3) by (simp add: observers_exact [OF wf])
  with fit assms(1) have inv: "buf_inv b'"
    by (simp add: b' buf_inv_def buf_wf_def)
  moreover have "content b' = content b"
    using buf_wf_bounds [OF wf] by (simp add: b' content_def)
  moreover have "len \<le> WritableBytes b'"
    using inv \<open>length (buffer_vec b) < writer_index b + len\<close>
    by (simp add: observers_exact [OF buf_inv_wf] b')
  ultimately show ?thesis by blast
next
  case False
  have wf: "buf_wf b" using assms(1) by (rule buf_inv_wf)
  note inside = make_space_inside [OF wf assms(2,3) False]
  have b': "b' = b\<lparr>buffer_vec := take kCheapPrepend (buffer_vec b) @ content b
        @ drop (kCheapPrepend + length (content b)) (buffer_vec b),
      reader_index := kCheapPrepend, writer_index := kCheapPrepend + length (content b)\<rparr>"
    using inside(2) assms(4) by simp
  have len: "kCheapPrepend + length (content b) \<le> length (buffer_vec b)"
    using inside(1) buf_wf_bounds [OF wf] by (simp add: length_content [OF wf])
  with assms(1) have inv: "buf_inv b'"
    by (simp add: b' buf_inv_def buf_wf_def)
  moreover have "content b' = content b"
    using len by (intro content_layout [where xs = "take kCheapPrepend (buffer_vec b)"]) (auto simp: b')
  moreover have "len \<le> WritableBytes b'"
  proof -
    have "WritableBytes b' = length (buffer_vec b) - (kCheapPrepend + length (content b))"
      using len by (simp add: observers_exact(2) [OF buf_inv_wf [OF inv]]) (simp add: b')
    then show ?thesis
      using False inside(1) buf_wf_bounds [OF wf] by (simp add: length_content [OF wf])
  qed
  ultimately show ?thesis by blast
qed

lemma make_space_error:
  assumes "buf_wf b" and "len \<le> vector_max" and "len > WritableBytes b"
    and "make_space b len = Inl e"
  shows "e = LengthError \<and> vector_max < writer_index b + len"
  using assms make_space_outside [OF assms(1-3)] make_space_inside(2) [OF assms(1-3)]
  by (cases "length (buffer_vec b) - writer_index b + reader_index b < len + kCheapPrepend")
    (auto split: if_splits)

lemma EnsureWriteableBytes_ok:
  assumes "buf_inv b" and "len \<le> vector_max" and "EnsureWriteableBytes b len = Inr b'"
  shows "buf_inv b'" "content b' = content b" "len \<le> WritableBytes b'"
proof -
  have "buf_inv b' \<and> content b' = content b \<and> len \<le> WritableBytes b'"
    using assms make_space_ok [OF assms(1,2)]
    by (cases "len > WritableBytes b") (auto simp: EnsureWriteableBytes_def)
  then show "buf_inv b'" "content b' = content b" "len \<le> WritableBytes b'" by auto
qed

lemma EnsureWriteableBytes_error:
  assumes "buf_inv b" and "len \<le> vector_max" and "EnsureWriteableBytes b len = Inl e"
  shows "e = LengthError \<and> vector_max < writer_index b + len"
  using assms make_space_error [OF buf_inv_wf [OF assms(1)] assms(2)]
  by (auto simp: EnsureWriteableBytes_def split: if_splits)

lemma store_at_writer:
  assumes "buf_inv b" and "writer_index b + length d \<le> length (buffer_vec b)"
    and "b' = b\<lparr>buffer_vec := take (writer_index b) (buffer_vec b) @ d
            @ drop (writer_index b + length d) (buffer_vec b),
            writer_index := writer_index b + length d\<rparr>"
  shows "buf_inv b'" and "content b' = content b @ d"
  using assms buf_wf_bounds [OF buf_inv_wf [OF assms(1)]]
  by (auto simp: buf_inv_def buf_wf_def content_def drop_take)

lemma append_in_place:
  assumes "buf_inv b" and "length d \<le> WritableBytes b"
  shows "\<exists>bs. mem_store (buffer_vec b) (begin_write b) d = Inr bs
    \<and> length bs = length (buffer_vec b)
    \<and> buf_inv (b\<lparr>buffer_vec := bs, writer_index := size_add (writer_index b) (length d)\<rparr>)
    \<and> content (b\<lparr>buffer_vec := bs, writer_index := size_add (writer_index b) (length d)\<rparr>)
      = content b @ d
    \<and> size_add (writer_index b) (length d) = writer_index b + length d"
proof -
  note wf = buf_inv_wf [OF assms(1)]
  have fit: "writer_index b + length d \<le> length (buffer_vec b)"
    using assms(2) buf_wf_bounds [OF wf] by (simp add: observers_exact [OF wf])
  have "size_add (writer_index b) (length d) = writer_index b + length d"
    using fit buf_wf_bounds [OF wf] by (simp add: size_add_exact)
  with fit store_at_writer [OF assms(1) fit refl] show ?thesis
    by (simp add: mem_store_def observers_exact [OF wf])
qed

lemma Append_ok:
  assumes "buf_inv b" and "length d \<le> vector_max" and "Append b d = Inr b'"
  shows "buf_inv b'" and "content b' = content b @ d"
proof -
  from assms(3) obtain b1 where b1: "EnsureWriteableBytes b (length d) = Inr b1"
    by (auto simp: Append_def andthen_eq_Inr)
  note ok = EnsureWriteableBytes_ok [OF assms(1,2) b1]
  show "buf_inv b'" and "content b' = content b @ d"
    using append_in_place [OF ok(1,3)] ok(2) assms(3) by (auto simp: Append_def b1)
qed

lemma Append_error:
  assumes "buf_inv b" and "length d \<le> vector_max" and "Append b d = Inl e"
  shows "e = LengthError \<and> vector_max < writer_index b + length d"
proof (cases "EnsureWriteableBytes b (length d)")
  case (Inl e')
  with assms EnsureWriteableBytes_error [OF assms(1,2) Inl] show ?thesis
    by (simp add: Append_def)
next
  case (Inr b1)
  note ok = EnsureWriteableBytes_ok [OF assms(1,2) Inr]
  show ?thesis
    using append_in_place [OF ok(1,3)] assms(3) by (auto simp: Append_def Inr)
qed

lemma Append_cases:
  assumes "buf_inv b" and "length d \<le> vector_max"
  obtains b' where "Append b d = Inr b'" "buf_inv b'" "content b' = content b @ d"
  | "Append b d = Inl LengthError" "vector_max < writer_index b + length d"
proof (cases "Append b d")
  case (Inl e)
  with Append_error [OF assms Inl] that(2) show ?thesis by simp
next
  case (Inr b')
  with Append_ok [OF assms Inr] that(1) show ?thesis by simp
qed

subsection \<open>Prepending\<close>

lemma Prepend_iff:
  assumes "buf_inv b"
  shows "Prepend b d = (if length d \<le> reader_index b
    then Inr (b\<lparr>buffer_vec := take (reader_index b - length d) (buffer_vec b) @ d
                  @ drop (reader_index b) (buffer_vec b),
                reader_index := reader_index b - length d\<rparr>)
    else Inl AssertFail)"
  using buf_wf_bounds [OF buf_inv_wf [OF assms]] observers_exact [OF buf_inv_wf [OF assms]]
  by (auto simp: Prepend_def mem_store_def size_sub_exact)

lemma Prepend_ok:
  assumes "buf_inv b" and "Prepend b d = Inr b'"
  shows "buf_inv b'" and "content b' = d @ content b"
  using assms buf_wf_bounds [OF buf_inv_wf [OF assms(1)]]
  by (auto simp: Prepend_iff [OF assms(1)] buf_inv_def buf_wf_def content_def split: if_splits)

subsection \<open>Reading from a file descriptor\<close>

definition ReadFd_iov :: "buffer \<Rightarrow> nat list" where
  "ReadFd_iov b = (if WritableBytes b < kExtraBufSize
     then [WritableBytes b, kExtraBufSize] else [WritableBytes b])"

text \<open>The documented contract of \<open>readv\<close>: no more bytes than the vectors hold.\<close>

definition readv_ok :: "readv_fun \<Rightarrow> bool" where
  "readv_ok readv \<longleftrightarrow> (\<forall>iov data. readv iov = SysOk data \<longrightarrow> length data \<le> sum_list iov)"

lemma kExtraBufSize_le: "kExtraBufSize \<le> vector_max"
  by (simp add: kExtraBufSize_def vector_max_def)

lemma ReadFd_error: "readv (ReadFd_iov b) = SysErr e \<Longrightarrow> ReadFd readv b = Inr (SysErr e, b)"
  by (simp add: ReadFd_def ReadFd_iov_def Let_def)

lemma ReadFd_fits:
  assumes "buf_inv b" and "readv (ReadFd_iov b) = SysOk data" and "length data \<le> WritableBytes b"
  shows "\<exists>b'. ReadFd readv b = Inr (SysOk (length data), b') \<and> buf_inv b'
    \<and> content b' = content b @ data"
  using append_in_place [OF assms(1,3)] assms(2,3)
  by (auto simp: ReadFd_def ReadFd_iov_def [symmetric] Let_def mem_store_def [of "replicate _ _"])

lemma ReadFd_spills:
  assumes "buf_inv b" and "readv_ok readv" and "readv (ReadFd_iov b) = SysOk data"
    and "WritableBytes b < length data"
  obtains b' where "ReadFd readv b = Inr (SysOk (length data), b')" "buf_inv b'"
      "content b' = content b @ data"
  | "ReadFd readv b = Inl LengthError" "vector_max < length (buffer_vec b) + length data"
proof -
  note wf = buf_inv_wf [OF assms(1)]
  have iov: "WritableBytes b < kExtraBufSize" "length data \<le> WritableBytes b + kExtraBufSize"
    using assms(2-4) by (auto simp: readv_ok_def ReadFd_iov_def split: if_splits dest!: spec)
  let ?d = "take (WritableBytes b) data" and ?x = "drop (WritableBytes b) data"
  have len: "length ?d = WritableBytes b" using assms(4) by simp
  obtain bs where bs: "mem_store (buffer_vec b) (begin_write b) ?d = Inr bs"
      "length bs = length (buffer_vec b)"
    and b1: "buf_inv (b\<lparr>buffer_vec := bs, writer_index := size_add (writer_index b) (length ?d)\<rparr>)"
      "content (b\<lparr>buffer_vec := bs, writer_index := size_add (writer_index b) (length ?d)\<rparr>)
        = content b @ ?d"
      "size_add (writer_index b) (length ?d) = writer_index b + length ?d"
    using append_in_place [OF assms(1), of ?d] len by auto
  have full: "writer_index b + length ?d = length bs"
    using buf_wf_bounds [OF wf] observers_exact(2) [OF wf] unfolding len bs(2) by simp
  have exec: "ReadFd readv b = andthen (Append (b\<lparr>buffer_vec := bs, writer_index := length bs\<rparr>) ?x)
      (\<lambda>b'. Inr (SysOk (length data), b'))"
    using assms(3,4) iov(2) le_diff_conv [of "length data" "WritableBytes b" kExtraBufSize]
    by (simp add: add.commute ReadFd_def ReadFd_iov_def [symmetric] Let_def bs(1) mem_store_def [of "replicate _ _"])
  have b2: "buf_inv (b\<lparr>buffer_vec := bs, writer_index := length bs\<rparr>)"
      "content (b\<lparr>buffer_vec := bs, writer_index := length bs\<rparr>) = content b @ ?d"
    using b1 full by simp_all
  have "length ?x \<le> kExtraBufSize"
    using iov(2) by simp
  then have "length ?x \<le> vector_max"
    using kExtraBufSize_le by (rule order_trans)
  from b2(1) this show thesis
  proof (cases rule: Append_cases)
    case (1 b')
    with b2(2) exec that(1) show ?thesis by simp
  next
    case 2
    with exec that(2) show ?thesis by (simp add: bs(2))
  qed
qed

lemma ReadFd_cases:
  assumes "buf_inv b" and "readv_ok readv"
  obtains (failed) e where "readv (ReadFd_iov b) = SysErr e" "ReadFd readv b = Inr (SysErr e, b)"
  | (received) data b' where "readv (ReadFd_iov b) = SysOk data"
      "ReadFd readv b = Inr (SysOk (length data), b')" "buf_inv b'" "content b' = content b @ data"
  | (too_long) data where "readv (ReadFd_iov b) = SysOk data" "ReadFd readv b = Inl LengthError"
      "vector_max < length (buffer_vec b) + length data"
proof (cases "readv (ReadFd_iov b)")
  case (SysErr e)
  then show ?thesis using failed ReadFd_error by blast
next
  case (SysOk data)
  show ?thesis
  proof (cases "length data \<le> WritableBytes b")
    case True
    then show ?thesis using received ReadFd_fits [where readv = readv, OF assms(1) SysOk True] SysOk by blast
  next
    case False
    then have "WritableBytes b < length data" by simp
    from ReadFd_spills [OF assms SysOk this] received too_long SysOk show ?thesis by blast
  qed
qed

subsection \<open>Integers in network byte order\<close>

abbreviation int_width :: "nat \<Rightarrow> bool" where
  "int_width n \<equiv> n \<in> {8, 16, 32, 64}"

lemma be_image:
  assumes "int_width LENGTH('a)"
  shows "mem_of_word (host_to_be (x :: 'a::len word)) = rev (mem_of_word x)"
proof (cases "LENGTH('a) = 8")
  case True
  then have "length (mem_of_word x) = Suc 0" by simp
  then obtain v where "mem_of_word x = [v]" unfolding length_Suc_conv by auto
  then show ?thesis using True by (simp add: host_to_be_def)
next
  case False
  with assms have "8 dvd LENGTH('a)" by auto
  then show ?thesis using False by (simp add: host_to_be_def mem_of_bswap)
qed

lemma be_round_trip:
  assumes "int_width LENGTH('a)"
  shows "be_to_host (word_of_mem (mem_of_word (host_to_be x))) = (x :: 'a::len word)"
proof -
  have "8 dvd LENGTH('a)" using assms by auto
  then show ?thesis
    by (simp add: be_to_host_def host_to_be_def word_of_mem_of_word bswap_bswap)
qed

lemma PeekInt_prefix:
  assumes "buf_wf b" and "int_width LENGTH('a)"
    and "content b = mem_of_word (host_to_be (x :: 'a::len word)) @ rest"
  shows "PeekInt b = Inr x"
  using assms mem_load_content [OF assms(1), of "LENGTH('a) div 8"]
  by (simp add: PeekInt_def ReadableBytes_content be_round_trip)

lemma RetrieveAsInt_prefix:
  assumes "buf_inv b" and "int_width LENGTH('a)"
    and "content b = mem_of_word (host_to_be (x :: 'a::len word)) @ rest"
  shows "\<exists>b'. RetrieveAsInt b = Inr (x, b') \<and> buf_inv b' \<and> content b' = rest"
proof -
  note wf = buf_inv_wf [OF assms(1)]
  have "LENGTH('a) div 8 \<le> length (content b)" by (simp add: assms(3))
  note eff = retrieve_effect [OF wf this]
  show ?thesis
    using PeekInt_prefix [OF wf assms(2,3)] eff assms(1,3)
    by (simp add: RetrieveAsInt_def Retrieve_iff [OF wf] buf_inv_def)
qed

subsection \<open>Searching\<close>

lemma memmem_Some:
  "memmem xs nd = Some i \<longleftrightarrow> i \<le> length xs \<and> take (length nd) (drop i xs) = nd
     \<and> (\<forall>j<i. take (length nd) (drop j xs) \<noteq> nd)"
proof (induction xs arbitrary: i)
  case Nil
  then show ?case by auto
next
  case (Cons x xs)
  then show ?case
    by (cases i) (auto simp: less_Suc_eq_0_disj)
qed

lemma memmem_None:
  "memmem xs nd = None \<longleftrightarrow> (\<forall>i\<le>length xs. take (length nd) (drop i xs) \<noteq> nd)"
proof (induction xs)
  case Nil
  then show ?case by auto
next
  case (Cons x xs)
  then show ?case by (simp add: all_le_Suc)
qed

lemma length_kCRLF: "length kCRLF = 2"
  by (simp add: kCRLF_def)

lemma FindCRLF_eq:
  assumes "buf_wf b"
  shows "FindCRLF b = Inr (map_option (\<lambda>i. Peek b + i) (memmem (content b) kCRLF))"
  using mem_load_content [OF assms, of "length (content b)"] assms
  by (simp add: FindCRLF_def ReadableBytes_content)

lemma FindCRLF_from_eq:
  assumes "buf_wf b" and "reader_index b \<le> start" and "start \<le> writer_index b"
  shows "FindCRLF_from b start =
    Inr (map_option (\<lambda>i. start + i) (memmem (drop (start - reader_index b) (content b)) kCRLF))"
  using mem_load_content_from [OF assms] assms by (simp add: FindCRLF_from_def observers_exact)

lemma memchr_memmem: "memchr xs c = memmem xs [c]"
  by (induction xs) auto

lemma FindEOL_eq:
  assumes "buf_wf b"
  shows "FindEOL b = Inr (map_option (\<lambda>i. Peek b + i) (memmem (content b) [10]))"
  using mem_load_content [OF assms, of "length (content b)"] assms
  by (simp add: FindEOL_def ReadableBytes_content memchr_memmem)

subsection \<open>The buffer as a queue of bytes\<close>

text \<open>
  The calls that change a buffer. \<open>OpRetrieveUntil n\<close> is the call with the pointer
  \<open>Peek() + n\<close>. The output of a call is the string it returns; for \<open>ReadFd\<close> it is empty.
\<close>

datatype buf_op = OpRetrieve nat | OpRetrieveUntil nat | OpRetrieveAll
  | OpRetrieveAsString nat | OpRetrieveAllAsString | OpEnsureWriteableBytes nat
  | OpAppend "byte list" | OpPrepend "byte list" | OpReadFd readv_fun

fun buf_exec :: "buf_op \<Rightarrow> buffer \<Rightarrow> (byte list \<times> buffer) res" where
  "buf_exec (OpRetrieve n) b = andthen (Retrieve b n) (\<lambda>b'. Inr ([], b'))"
| "buf_exec (OpRetrieveUntil n) b = andthen (RetrieveUntil b (Peek b + n)) (\<lambda>b'. Inr ([], b'))"
| "buf_exec OpRetrieveAll b = Inr ([], RetrieveAll b)"
| "buf_exec (OpRetrieveAsString n) b = RetrieveAsString b n"
| "buf_exec OpRetrieveAllAsString b = RetrieveAllAsString b"
| "buf_exec (OpEnsureWriteableBytes n) b = andthen (EnsureWriteableBytes b n) (\<lambda>b'. Inr ([], b'))"
| "buf_exec (OpAppend d) b = andthen (Append b d) (\<lambda>b'. Inr ([], b'))"
| "buf_exec (OpPrepend d) b = andthen (Prepend b d) (\<lambda>b'. Inr ([], b'))"
| "buf_exec (OpReadFd readv) b = andthen (ReadFd readv b) (\<lambda>(n, b'). Inr ([], b'))"

text \<open>Blocks of memory are no longer than the largest object, and \<open>readv\<close> keeps its contract.\<close>

fun op_ok :: "buf_op \<Rightarrow> bool" where
  "op_ok (OpEnsureWriteableBytes n) = (n \<le> vector_max)"
| "op_ok (OpAppend d) = (length d \<le> vector_max)"
| "op_ok (OpPrepend d) = (length d \<le> vector_max)"
| "op_ok (OpReadFd readv) = readv_ok readv"
| "op_ok _ = True"

text \<open>The specification: what each call does to a queue of bytes.\<close>

inductive queue_step :: "buf_op \<Rightarrow> byte list \<Rightarrow> byte list \<Rightarrow> byte list \<Rightarrow> bool" where
  retrieve: "n \<le> length q \<Longrightarrow> queue_step (OpRetrieve n) q [] (drop n q)"
| retrieve_until: "n \<le> length q \<Longrightarrow> queue_step (OpRetrieveUntil n) q [] (drop n q)"
| retrieve_all: "queue_step OpRetrieveAll q [] []"
| retrieve_string: "n \<le> length q \<Longrightarrow> queue_step (OpRetrieveAsString n) q (take n q) (drop n q)"
| retrieve_all_string: "queue_step OpRetrieveAllAsString q q []"
| ensure: "queue_step (OpEnsureWriteableBytes n) q [] q"
| append: "queue_step (OpAppend d) q [] (q @ d)"
| prepend: "queue_step (OpPrepend d) q [] (d @ q)"
| read_ok: "readv iov = SysOk d \<Longrightarrow> queue_step (OpReadFd readv) q [] (q @ d)"
| read_err: "readv iov = SysErr e \<Longrightarrow> queue_step (OpReadFd readv) q [] q"

inductive_simps queue_step_simps:
  "queue_step (OpRetrieve n) q out q'" "queue_step OpRetrieveAll q out q'"
  "queue_step (OpRetrieveAsString n) q out q'" "queue_step OpRetrieveAllAsString q out q'"
  "queue_step (OpRetrieveUntil n) q out q'"
  "queue_step (OpEnsureWriteableBytes n) q out q'" "queue_step (OpAppend d) q out q'"
  "queue_step (OpPrepend d) q out q'" "queue_step (OpReadFd f) q out q'"

lemma buf_exec_refines:
  assumes inv: "buf_inv b" and ok: "op_ok opn" and run: "buf_exec opn b = Inr (out, b')"
  shows "buf_inv b' \<and> queue_step opn (content b) out (content b')"
proof -
  note wf = buf_inv_wf [OF inv]
  show ?thesis
  proof (cases opn)
    case (OpEnsureWriteableBytes n)
    with run ok EnsureWriteableBytes_ok [OF inv, of n] show ?thesis
      by (auto simp: queue_step_simps andthen_eq_Inr)
  next
    case (OpAppend d)
    with run ok Append_ok [OF inv, of d] show ?thesis
      by (auto simp: queue_step_simps andthen_eq_Inr)
  next
    case (OpPrepend d)
    with run Prepend_ok [OF inv, of d] show ?thesis
      by (auto simp: queue_step_simps andthen_eq_Inr)
  next
    case (OpReadFd readv)
    with ok have "readv_ok readv" by simp
    with inv show ?thesis
      by (cases rule: ReadFd_cases) (use run inv OpReadFd in \<open>auto simp: queue_step_simps\<close>)
  next
    case OpRetrieveAll
    with run inv RetrieveAll_ok [OF wf] show ?thesis
      by (auto simp: queue_step_simps buf_inv_def RetrieveAll_def)
  next
    case OpRetrieveAllAsString
    with run inv retrieve_effect [OF wf] show ?thesis
      by (auto simp: queue_step_simps buf_inv_def RetrieveAllAsString_def RetrieveAsString_iff
          ReadableBytes_content)
  next
    case (OpRetrieveUntil n)
    have "Peek b + n = reader_index b + n" by (simp add: observers_exact [OF wf])
    with OpRetrieveUntil run inv retrieve_effect [OF wf, of n] length_content [OF wf] show ?thesis
      by (auto simp: queue_step_simps buf_inv_def RetrieveUntil_iff split: if_splits)
  next
    case (OpRetrieve n)
    with run inv retrieve_effect [OF wf, of n] show ?thesis
      by (auto simp: queue_step_simps buf_inv_def Retrieve_iff split: if_splits)
  next
    case (OpRetrieveAsString n)
    with run inv retrieve_effect [OF wf, of n] show ?thesis
      by (auto simp: queue_step_simps buf_inv_def RetrieveAsString_iff split: if_splits)
  qed
qed

fun buf_run :: "buf_op list \<Rightarrow> buffer \<Rightarrow> (byte list list \<times> buffer) res" where
  "buf_run [] b = Inr ([], b)"
| "buf_run (opn # ops) b = andthen (buf_exec opn b) (\<lambda>(out, b1).
     andthen (buf_run ops b1) (\<lambda>(outs, b2). Inr (out # outs, b2)))"

fun queue_run :: "buf_op list \<Rightarrow> byte list \<Rightarrow> byte list list \<Rightarrow> byte list \<Rightarrow> bool" where
  "queue_run [] q outs q' \<longleftrightarrow> outs = [] \<and> q' = q"
| "queue_run (opn # ops) q outs q' \<longleftrightarrow>
     (\<exists>out outs' q1. outs = out # outs' \<and> queue_step opn q out q1 \<and> queue_run ops q1 outs' q')"

lemma buf_run_refines:
  "buf_inv b \<Longrightarrow> \<forall>opn\<in>set ops. op_ok opn \<Longrightarrow> buf_run ops b = Inr (outs, b') \<Longrightarrow>
   buf_inv b' \<and> queue_run ops (content b) outs (content b')"
proof (induction ops arbitrary: b outs)
  case Nil
  then show ?case by simp
next
  case (Cons opn ops)
  from Cons.prems(3) obtain out b1 outs' where
    step: "buf_exec opn b = Inr (out, b1)" and run: "buf_run ops b1 = Inr (outs', b')"
    and outs: "outs = out # outs'"
    by (auto simp: andthen_eq_Inr)
  have "buf_inv b1 \<and> queue_step opn (content b) out (content b1)"
    using Cons.prems(1,2) step by (intro buf_exec_refines) auto
  with Cons.IH [OF _ _ run] Cons.prems(2) show ?case by (auto simp: outs)
qed

text \<open>
  Which assertion a call makes, and how many bytes it may have to add to the vector.
\<close>

fun op_assert :: "buf_op \<Rightarrow> buffer \<Rightarrow> bool" where
  "op_assert (OpRetrieve n) b = (n \<le> length (content b))"
| "op_assert (OpRetrieveUntil n) b = (n \<le> length (content b))"
| "op_assert (OpRetrieveAsString n) b = (n \<le> length (content b))"
| "op_assert (OpPrepend d) b = (length d \<le> reader_index b)"
| "op_assert _ b = True"

fun op_need :: "buf_op \<Rightarrow> buffer \<Rightarrow> nat" where
  "op_need (OpEnsureWriteableBytes n) b = n"
| "op_need (OpAppend d) b = length d"
| "op_need (OpReadFd readv) b = sum_list (ReadFd_iov b)"
| "op_need _ b = 0"

lemma buf_exec_error:
  assumes inv: "buf_inv b" and ok: "op_ok opn" and run: "buf_exec opn b = Inl e"
  shows "e = AssertFail \<and> \<not> op_assert opn b
    \<or> e = LengthError \<and> vector_max < length (buffer_vec b) + op_need opn b"
proof -
  note wf = buf_inv_wf [OF inv]
  note le = buf_wf_bounds(2) [OF wf]
  show ?thesis
  proof (cases opn)
    case (OpEnsureWriteableBytes n)
    with run ok le EnsureWriteableBytes_error [OF inv, of n] show ?thesis
      by (auto simp: andthen_eq_Inl)
  next
    case (OpAppend d)
    with run ok le Append_error [OF inv, of d] show ?thesis
      by (auto simp: andthen_eq_Inl)
  next
    case (OpReadFd readv)
    with ok have rok: "readv_ok readv" by simp
    from inv rok show ?thesis
    proof (cases rule: ReadFd_cases)
      case (too_long data)
      with rok have "length data \<le> sum_list (ReadFd_iov b)" by (simp add: readv_ok_def)
      with too_long run OpReadFd show ?thesis by simp
    qed (use run OpReadFd in auto)
  next
    case (OpRetrieveUntil n)
    have "Peek b + n = reader_index b + n" by (simp add: observers_exact [OF wf])
    with OpRetrieveUntil run buf_wf_bounds(1) [OF wf] show ?thesis
      by (auto simp: RetrieveUntil_iff [OF wf] length_content [OF wf] split: if_splits)
  qed (use run in \<open>auto simp: Retrieve_iff [OF wf] RetrieveAsString_iff [OF wf]
      RetrieveAllAsString_def ReadableBytes_content [OF wf] Prepend_iff [OF inv] split: if_splits\<close>)
qed

subsection \<open>The contract the connection relies on\<close>

text \<open>
  What \<open>TcpConnection\<close> uses of its two buffers. The client lemmas say that bytes leave in
  the order they came in: what was taken out followed by what is still queued is what was
  put in.
\<close>

locale byte_queue =
  fixes inv :: "'q \<Rightarrow> bool" and abs :: "'q \<Rightarrow> byte list" and readable :: "'q \<Rightarrow> nat"
    and app :: "'q \<Rightarrow> byte list \<Rightarrow> 'q res" and deq :: "'q \<Rightarrow> nat \<Rightarrow> 'q res"
  assumes readable_abs: "inv q \<Longrightarrow> readable q = length (abs q)"
    and app_abs: "inv q \<Longrightarrow> length d \<le> vector_max \<Longrightarrow> app q d = Inr q' \<Longrightarrow>
      inv q' \<and> abs q' = abs q @ d"
    and app_fail: "inv q \<Longrightarrow> length d \<le> vector_max \<Longrightarrow> app q d = Inl e \<Longrightarrow> e = LengthError"
    and deq_abs: "inv q \<Longrightarrow> n \<le> length (abs q) \<Longrightarrow>
      \<exists>q'. deq q n = Inr q' \<and> inv q' \<and> abs q' = drop n (abs q)"
begin

lemma empty_iff: "inv q \<Longrightarrow> readable q = 0 \<longleftrightarrow> abs q = []"
  by (simp add: readable_abs)

lemma deq_keeps_stream:
  assumes "inv q" and "n \<le> readable q" and "deq q n = Inr q'"
  shows "inv q'" and "sent @ take n (abs q) @ abs q' = sent @ abs q"
    and "readable q' = readable q - n"
  using deq_abs [OF assms(1), of n] assms by (auto simp: readable_abs)

lemma app_keeps_stream:
  assumes "inv q" and "length d \<le> vector_max" and "app q d = Inr q'"
  shows "inv q'" and "sent @ abs q' = (sent @ abs q) @ d"
    and "readable q' = readable q + length d"
  using app_abs [OF assms] assms(1) by (auto simp: readable_abs)

lemma deq_total: "inv q \<Longrightarrow> n \<le> readable q \<Longrightarrow> \<exists>q'. deq q n = Inr q'"
  using deq_abs by (auto simp: readable_abs)

end

interpretation bq: byte_queue buf_inv content ReadableBytes Append Retrieve
proof unfold_locales
  fix q n assume "buf_inv q" and "n \<le> length (content q)"
  then show "\<exists>q'. Retrieve q n = Inr q' \<and> buf_inv q' \<and> content q' = drop n (content q)"
    using retrieve_effect [of q n] by (simp add: Retrieve_iff buf_inv_def)
qed (auto simp: ReadableBytes_content buf_inv_wf Append_ok dest: Append_error)

subsection \<open>Properties of the buffer\<close>

lemmas buffer_eval = Buffer_ctor_def vector_resize_def buffer_defs size_defs size_modulus_def
  vector_max_def kCheapPrepend_def kExtraBufSize_def kCRLF_def Retrieve_def RetrieveUntil_def
  RetrieveAll_def RetrieveAsString_def RetrieveAllAsString_def make_space_def
  EnsureWriteableBytes_def Append_def Prepend_def mem_load_def mem_store_def
  content_def buf_inv_def buf_wf_def copy_fwd.simps

definition fresh_buffer :: buffer where
  "fresh_buffer = \<lparr>buffer_vec = replicate 12 0, reader_index = 8, writer_index = 8\<rparr>"

lemma Buffer_ctor_4: "Buffer_ctor 4 = Inr fresh_buffer"
  by (simp add: buffer_eval fresh_buffer_def)

lemma fresh_buffer_inv: "buf_inv fresh_buffer" and fresh_buffer_content: "content fresh_buffer = []"
  by (simp_all add: fresh_buffer_def buffer_eval)

text \<open>
  C4: whatever sequence of calls is made on a newly constructed buffer, if it succeeds then
  the buffer is well-formed (\<open>0 \<le> reader_index \<le> writer_index \<le> size()\<close>), the strings the
  calls return are those of a plain queue of bytes, and the readable bytes are the contents
  of that queue.
\<close>

theorem buffer_refines_queue:
  assumes "init_size + kCheapPrepend \<le> vector_max" and "Buffer_ctor init_size = Inr b0"
    and "\<forall>opn\<in>set ops. op_ok opn" and "buf_run ops b0 = Inr (outs, b)"
  shows "buf_wf b \<and> queue_run ops [] outs (content b)"
proof -
  from Buffer_ctor_ok [OF assms(1)] assms(2) have "buf_wf b0" "content b0 = []"
    and "PrependableBytes b0 = kCheapPrepend" by auto
  then have "buf_inv b0"
    using buf_wf_bounds [of b0] by (simp add: buf_inv_def buffer_defs)
  with buf_run_refines [OF this assms(3,4)] \<open>content b0 = []\<close> show ?thesis
    by (simp add: buf_inv_def)
qed

theorem buffer_refines_queue_witness:
  "queue_run [OpAppend [1, 2, 3, 4], OpRetrieveAsString 2, OpAppend [5, 6], OpPrepend [7],
     OpRetrieveAllAsString] [] [[], [1, 2], [], [], [7, 3, 4, 5, 6]] []"
proof -
  let ?ops = "[OpAppend [1, 2, 3, 4], OpRetrieveAsString 2, OpAppend [5, 6], OpPrepend [7],
     OpRetrieveAllAsString]"
  obtain b where run: "buf_run ?ops fresh_buffer = Inr ([[], [1, 2], [], [], [7, 3, 4, 5, 6]], b)"
      and "content b = []"
    by (simp add: fresh_buffer_def buffer_eval nth_append list_update_append
        cong: andthen_weak_cong)
  have "4 + kCheapPrepend \<le> vector_max" by (simp add: buffer_eval)
  moreover have "\<forall>opn\<in>set ?ops. op_ok opn" by (simp add: buffer_eval)
  ultimately have "buf_wf b \<and> queue_run ?ops [] [[], [1, 2], [], [], [7, 3, 4, 5, 6]] (content b)"
    using run by (rule buffer_refines_queue [OF _ Buffer_ctor_4])
  with \<open>content b = []\<close> show ?thesis by simp
qed

text \<open>
  C22: on a well-formed buffer a call fails only in the two ways the code documents: its
  \<open>assert\<close> is violated, or the vector would have to grow beyond \<open>max_size()\<close>. In
  particular no call reads or writes outside the vector, the compaction in \<open>make_space\<close>
  included.
\<close>

theorem buffer_errors:
  assumes "buf_inv b" and "op_ok opn" and "buf_exec opn b = Inl e"
  shows "e = AssertFail \<and> \<not> op_assert opn b
    \<or> e = LengthError \<and> vector_max < length (buffer_vec b) + op_need opn b"
  using assms by (rule buf_exec_error)

theorem buffer_errors_witness:
  "buf_exec (OpPrepend (replicate 9 0)) fresh_buffer = Inl AssertFail
   \<and> \<not> op_assert (OpPrepend (replicate 9 0)) fresh_buffer"
proof -
  have run: "buf_exec (OpPrepend (replicate 9 0)) fresh_buffer = Inl AssertFail"
    by (simp add: fresh_buffer_def buffer_eval)
  have "op_ok (OpPrepend (replicate 9 0))" by (simp add: buffer_eval)
  from buffer_errors [OF fresh_buffer_inv this run] run show ?thesis by simp
qed

text \<open>
  C30: an integer appended with \<open>AppendInt\<close> is stored most significant byte first, behind
  what was readable before, and \<open>RetrieveAsInt\<close> of the same type returns it when the
  bytes in front of it have been retrieved. For all four widths.
\<close>

theorem append_int_round_trip:
  fixes x :: "'a::len word"
  assumes "buf_inv b" and "int_width LENGTH('a)" and "AppendInt b x = Inr b1"
    and "Retrieve b1 (length (content b)) = Inr b2"
  shows "content b1 = content b @ rev (mem_of_word x)
    \<and> (\<exists>b3. RetrieveAsInt b2 = Inr (x, b3) \<and> content b3 = [])"
proof -
  have le: "length (mem_of_word (host_to_be x)) \<le> vector_max"
    using assms(2) by (auto simp: vector_max_def)
  have app: "Append b (mem_of_word (host_to_be x)) = Inr b1"
    using assms(3) by (simp add: AppendInt_def)
  note b1 = Append_ok [OF assms(1) le app]
  from bq.deq_abs [OF b1(1), of "length (content b)"] assms(4)
  have "buf_inv b2" and "content b2 = mem_of_word (host_to_be x)"
    by (auto simp: b1(2))
  then show ?thesis
    using RetrieveAsInt_prefix [OF _ assms(2), of b2 x "[]"] be_image [OF assms(2)]
    by (auto simp: b1(2))
qed

theorem append_int_round_trip_witness:
  "\<exists>b1 b3. AppendInt fresh_buffer (0x01020304 :: 32 word) = Inr b1 \<and> content b1 = [1, 2, 3, 4]
     \<and> RetrieveAsInt b1 = Inr (0x01020304 :: 32 word, b3)"
proof -
  have w: "int_width LENGTH(32)" by simp
  obtain b1 where b1: "AppendInt fresh_buffer (0x01020304 :: 32 word) = Inr b1"
      "content b1 = [1, 2, 3, 4]"
    by (simp add: AppendInt_def host_to_be_def bswap_def mem_of_word_def fresh_buffer_def
        buffer_eval upt_rec push_bit_eq_mult)
  have inv: "buf_inv b1"
    using b1(1) by (intro Append_ok(1) [OF fresh_buffer_inv]) (auto simp: AppendInt_def vector_max_def)
  have "Retrieve b1 (length (content fresh_buffer)) = Inr b1"
    by (simp add: fresh_buffer_content Retrieve_iff [OF buf_inv_wf [OF inv]])
  from append_int_round_trip [OF fresh_buffer_inv w b1(1) this] b1 show ?thesis by auto
qed

text \<open>
  \<open>PrependInt\<close> puts an integer in front of the readable bytes and \<open>RetrieveAsInt\<close> takes
  it off again, leaving the readable bytes as they were; there is room for one integer of
  any width whenever the reader index has not moved below the prepend area.
\<close>

theorem prepend_int_round_trip:
  fixes x :: "'a::len word"
  assumes "buf_inv b" and "int_width LENGTH('a)" and "kCheapPrepend \<le> reader_index b"
  shows "\<exists>b1 b2. PrependInt b x = Inr b1 \<and> content b1 = rev (mem_of_word x) @ content b
    \<and> RetrieveAsInt b1 = Inr (x, b2) \<and> content b2 = content b"
proof -
  have "length (mem_of_word (host_to_be x)) \<le> reader_index b"
    using assms(2,3) by (auto simp: kCheapPrepend_def)
  then obtain b1 where b1: "Prepend b (mem_of_word (host_to_be x)) = Inr b1"
    using assms(1) by (simp add: Prepend_iff)
  note ok = Prepend_ok [OF assms(1) b1]
  from RetrieveAsInt_prefix [OF ok(1) assms(2) ok(2)] b1 ok(2) show ?thesis
    by (auto simp: PrependInt_def be_image [OF assms(2)])
qed

theorem prepend_int_round_trip_witness:
  "\<exists>b1 b2. PrependInt fresh_buffer (0x0102 :: 16 word) = Inr b1
     \<and> content b1 = rev (mem_of_word (0x0102 :: 16 word)) @ content fresh_buffer
     \<and> RetrieveAsInt b1 = Inr (0x0102 :: 16 word, b2) \<and> content b2 = content fresh_buffer"
  by (rule prepend_int_round_trip [OF fresh_buffer_inv])
    (simp_all add: fresh_buffer_def kCheapPrepend_def)

text \<open>
  \<open>ReadFd\<close> returns what \<open>readv\<close> returned, and on success the bytes received are
  appended to the readable bytes in order, whether they fit into the writable area or spill
  into the 64 KiB stack buffer; on failure the buffer is unchanged. It can only fail to
  return when the vector would exceed \<open>max_size()\<close>.
\<close>

theorem ReadFd_appends:
  assumes "buf_inv b" and "readv_ok readv"
    and "length (buffer_vec b) + sum_list (ReadFd_iov b) \<le> vector_max"
  shows "\<exists>b'. buf_inv b' \<and> (case readv (ReadFd_iov b) of
      SysErr e \<Rightarrow> ReadFd readv b = Inr (SysErr e, b') \<and> b' = b
    | SysOk data \<Rightarrow> ReadFd readv b = Inr (SysOk (length data), b')
        \<and> content b' = content b @ data)"
  using assms(1,2)
proof (cases rule: ReadFd_cases)
  case (too_long data)
  with assms(2) have "length data \<le> sum_list (ReadFd_iov b)" by (simp add: readv_ok_def)
  with too_long assms(3) show ?thesis by simp
qed (use assms(1) in auto)

theorem ReadFd_appends_witness:
  "\<exists>b'. ReadFd (\<lambda>iov. if 6 \<le> sum_list iov then SysOk [1, 2, 3, 4, 5, 6] else SysErr EAGAIN)
       fresh_buffer = Inr (SysOk 6, b') \<and> content b' = [1, 2, 3, 4, 5, 6]"
proof -
  let ?readv = "\<lambda>iov. if 6 \<le> sum_list iov then SysOk [1, 2, 3, 4, 5, 6] else SysErr EAGAIN"
  have ok: "readv_ok ?readv" by (auto simp: readv_ok_def)
  have iov: "ReadFd_iov fresh_buffer = [4, 65536]"
    by (simp add: ReadFd_iov_def fresh_buffer_def buffer_eval)
  have room: "length (buffer_vec fresh_buffer) + sum_list (ReadFd_iov fresh_buffer) \<le> vector_max"
    unfolding iov by (simp add: fresh_buffer_def buffer_eval)
  from ReadFd_appends [OF fresh_buffer_inv ok room] show ?thesis
    by (auto simp: iov fresh_buffer_content)
qed

text \<open>
  \<open>FindCRLF\<close> finds the first line end. When it returns a pointer \<open>p\<close>, the readable
  bytes are a line without line end, the line end, and what \<open>RetrieveUntil(p + 2)\<close> leaves;
  when it returns null there is no line end in the readable bytes.
\<close>

theorem FindCRLF_splits_line:
  assumes "buf_inv b"
  shows "case FindCRLF b of
      Inr (Some p) \<Rightarrow> \<exists>line b'. RetrieveUntil b (p + 2) = Inr b'
        \<and> content b = line @ kCRLF @ content b' \<and> p = Peek b + length line
        \<and> (\<forall>i < length line. take 2 (drop i (content b)) \<noteq> kCRLF)
    | Inr None \<Rightarrow> \<forall>i \<le> length (content b). take 2 (drop i (content b)) \<noteq> kCRLF
    | Inl e \<Rightarrow> False"
proof (cases "memmem (content b) kCRLF")
  case None
  then show ?thesis
    using FindCRLF_eq [OF buf_inv_wf [OF assms]] memmem_None [of "content b" kCRLF]
    by (simp add: length_kCRLF)
next
  case (Some i)
  note wf = buf_inv_wf [OF assms]
  let ?q = "content b"
  from Some have at: "take 2 (drop i ?q) = kCRLF" and first: "\<forall>j<i. take 2 (drop j ?q) \<noteq> kCRLF"
    unfolding memmem_Some by (simp_all add: length_kCRLF)
  have "length (take 2 (drop i ?q)) = 2" by (simp only: at length_kCRLF)
  then have len: "i + 2 \<le> length ?q" by simp
  have split: "?q = take i ?q @ kCRLF @ drop (i + 2) ?q"
    by (metis append_take_drop_id at drop_drop add.commute)
  have "RetrieveUntil b (Peek b + i + 2) = Inr (b\<lparr>reader_index := reader_index b + (i + 2)\<rparr>)"
    using len length_content [OF wf] by (simp add: RetrieveUntil_iff [OF wf] observers_exact [OF wf])
  with split first len retrieve_effect(2) [OF wf len] Some show ?thesis
    by (auto simp: FindCRLF_eq [OF wf] intro!: exI [of _ "take i ?q"])
qed

theorem FindCRLF_splits_line_witness:
  "\<exists>b b'. Append fresh_buffer [65, 13, 10, 66] = Inr b \<and> FindCRLF b = Inr (Some 9)
     \<and> RetrieveUntil b 11 = Inr b' \<and> content b' = [66]"
proof -
  obtain b where b: "Append fresh_buffer [65, 13, 10, 66] = Inr b"
      "content b = [65, 13, 10, 66]" "Peek b = 8"
    by (simp add: fresh_buffer_def buffer_eval)
  have inv: "buf_inv b"
    using b(1) by (intro Append_ok(1) [OF fresh_buffer_inv]) (auto simp: vector_max_def)
  have find: "FindCRLF b = Inr (Some 9)"
    by (simp add: FindCRLF_eq [OF buf_inv_wf [OF inv]] b(2,3) kCRLF_def)
  from FindCRLF_splits_line [OF inv] obtain line b' where
    "RetrieveUntil b 11 = Inr b'" "[65, 13, 10, 66] = line @ kCRLF @ content b'" "length line = 1"
    by (auto simp: find b(2,3))
  then show ?thesis
    using b(1) find by (auto simp: kCRLF_def Cons_eq_append_conv)
qed

text \<open>
  After \<open>EnsureWriteableBytes(len)\<close> at least \<open>len\<close> bytes are writable and the readable
  bytes are unchanged, for every \<open>len\<close> up to the size of the largest object; it returns
  unless the vector would exceed \<open>max_size()\<close>.
\<close>

theorem EnsureWriteableBytes_makes_room:
  assumes "buf_inv b" and "writer_index b + len \<le> vector_max"
  shows "\<exists>b'. EnsureWriteableBytes b len = Inr b' \<and> buf_inv b' \<and> len \<le> WritableBytes b'
    \<and> content b' = content b"
proof (cases "EnsureWriteableBytes b len")
  case (Inl e)
  with EnsureWriteableBytes_error [OF assms(1) _ Inl] assms(2) show ?thesis by simp
next
  case (Inr b')
  with EnsureWriteableBytes_ok [OF assms(1) _ Inr] assms(2) show ?thesis by simp
qed

theorem EnsureWriteableBytes_makes_room_witness:
  "\<exists>b'. EnsureWriteableBytes fresh_buffer 100 = Inr b' \<and> buf_inv b' \<and> 100 \<le> WritableBytes b'
    \<and> content b' = content fresh_buffer"
  by (rule EnsureWriteableBytes_makes_room [OF fresh_buffer_inv])
    (simp add: fresh_buffer_def vector_max_def)

text \<open>
  For a length within eight of \<open>SIZE_MAX\<close> the sum \<open>len + kCheapPrepend\<close> in \<open>make_space\<close>
  wraps around, and \<open>EnsureWriteableBytes\<close> returns without having made room.
\<close>

theorem EnsureWriteableBytes_wraps:
  assumes "buf_inv b" and "kCheapPrepend \<le> reader_index b"
    and "size_modulus - kCheapPrepend \<le> len" and "len < size_modulus"
  shows "\<exists>b'. EnsureWriteableBytes b len = Inr b' \<and> length (buffer_vec b') = length (buffer_vec b)
    \<and> length (buffer_vec b') < len"
proof -
  note wf = buf_inv_wf [OF assms(1)]
  have small: "length (buffer_vec b) < size_modulus - kCheapPrepend"
    using buf_wf_bounds(3) [OF wf] by (simp add: vector_max_def size_modulus_def kCheapPrepend_def)
  have le: "kCheapPrepend \<le> size_modulus" by (simp add: kCheapPrepend_def size_modulus_def)
  define k where "k = len - (size_modulus - kCheapPrepend)"
  have k: "k < kCheapPrepend" "len + kCheapPrepend = size_modulus + k"
    using assms(3,4) le by (simp_all add: k_def)
  have "size_add len kCheapPrepend < kCheapPrepend"
    using k le by (simp add: size_add_def)
  moreover have "size_add (WritableBytes b) (PrependableBytes b) =
      length (buffer_vec b) - writer_index b + reader_index b"
    using buf_wf_bounds [OF wf] by (simp add: size_add_exact observers_exact [OF wf])
  moreover have "copy_fwd (buffer_vec b) (reader_index b) (writer_index b) kCheapPrepend =
      Inr (take kCheapPrepend (buffer_vec b) @ content b
        @ drop (kCheapPrepend + length (content b)) (buffer_vec b))"
    using assms(2) buf_wf_bounds [OF wf]
    by (simp add: copy_fwd_down length_content [OF wf] content_def [symmetric])
  moreover have "kCheapPrepend + length (content b) \<le> length (buffer_vec b)"
    using assms(2) buf_wf_bounds [OF wf] by (simp add: length_content [OF wf])
  moreover have "WritableBytes b < len"
    using small assms(3) by (simp add: observers_exact [OF wf])
  ultimately show ?thesis
    using small assms(2,3)
    by (simp add: EnsureWriteableBytes_def make_space_def Let_def observers_exact(5,6) [OF wf])
qed

end
