(* ===== verification/InetAddress.thy ===== *)
theory InetAddress
  imports Buffer
begin

text \<open>
  \<open>InetAddress\<close> of \<open>include/benet/inet_address.h\<close> and \<open>src/inet_address.cpp\<close>. The member
  \<open>addr_\<close> is the object representation of a \<open>sockaddr_storage\<close>: 128 bytes, the address family in
  host order at offset 0, the port in network order at offset 2, the IPv4 address at offset 4 and
  the IPv6 address at offset 8, as on Linux. \<open>inet_pton\<close> and \<open>inet_ntop\<close> are parameters.
\<close>

type_synonym sockaddr = "byte list"

definition AF_INET :: "16 word" where "AF_INET = 2"

definition AF_INET6 :: "16 word" where "AF_INET6 = 10"

definition sockaddr_zero :: sockaddr where
  "sockaddr_zero = replicate 128 0"

text \<open>Reading and writing the members of the address structures.\<close>

definition sa_put :: "nat \<Rightarrow> byte list \<Rightarrow> sockaddr \<Rightarrow> sockaddr" where
  "sa_put i xs a = take i a @ xs @ drop (i + length xs) a"

definition sa_get :: "nat \<Rightarrow> nat \<Rightarrow> sockaddr \<Rightarrow> byte list" where
  "sa_get i n a = take n (drop i a)"

definition family :: "sockaddr \<Rightarrow> 16 word" where
  "family a = word_of_mem (sa_get 0 2 a)"

definition set_family :: "16 word \<Rightarrow> sockaddr \<Rightarrow> sockaddr" where
  "set_family f a = sa_put 0 (mem_of_word f) a"

definition set_port :: "16 word \<Rightarrow> sockaddr \<Rightarrow> sockaddr" where
  "set_port p a = sa_put 2 (mem_of_word (host_to_be p)) a"

definition sin_addr :: "sockaddr \<Rightarrow> byte list" where
  "sin_addr a = sa_get 4 4 a"

definition sin6_addr :: "sockaddr \<Rightarrow> byte list" where
  "sin6_addr a = sa_get 8 16 a"

type_synonym pton_fun = "16 word \<Rightarrow> string \<Rightarrow> byte list option"

type_synonym ntop_fun = "16 word \<Rightarrow> byte list \<Rightarrow> string"

text \<open>When the text is no IPv6 address, the constructor goes on with IPv4.\<close>

definition InetAddress_ctor :: "pton_fun \<Rightarrow> 16 word \<Rightarrow> string \<Rightarrow> bool \<Rightarrow> sockaddr res" where
  "InetAddress_ctor pton prt ipstr ipv6 =
     (let a6 = (if ipv6 then set_port prt (set_family AF_INET6 sockaddr_zero) else sockaddr_zero);
          a4 = set_port prt (set_family AF_INET a6);
          as4 = (case pton AF_INET ipstr of Some bs \<Rightarrow> Inr (sa_put 4 bs a4) | None \<Rightarrow> Inl Critical)
      in if ipv6 then (case pton AF_INET6 ipstr of Some bs \<Rightarrow> Inr (sa_put 8 bs a6) | None \<Rightarrow> as4)
         else as4)"

definition InetAddress_any :: "pton_fun \<Rightarrow> 16 word \<Rightarrow> sockaddr res" where
  "InetAddress_any pton prt = InetAddress_ctor pton prt ''0.0.0.0'' False"

definition ip :: "ntop_fun \<Rightarrow> sockaddr \<Rightarrow> string" where
  "ip ntop a = (if family a = AF_INET then ntop AF_INET (sin_addr a)
     else if family a = AF_INET6 then ntop AF_INET6 (sin6_addr a) else '''')"

definition port :: "sockaddr \<Rightarrow> 16 word" where
  "port a = (if family a = AF_INET \<or> family a = AF_INET6 then be_to_host (word_of_mem (sa_get 2 2 a)) else 0)"

definition AsString :: "ntop_fun \<Rightarrow> sockaddr \<Rightarrow> string" where
  "AsString ntop a = ip ntop a @ '':'' @ dec_string (unat (port a))"

definition set_addr :: "sockaddr \<Rightarrow> sockaddr \<Rightarrow> sockaddr" where
  "set_addr addr a = sa_put 0 (take (length a) addr) a"

subsection \<open>Members of the structures\<close>

lemma sa_get_put_same [simp]: "i + length xs \<le> length a \<Longrightarrow> n = length xs \<Longrightarrow> sa_get i n (sa_put i xs a) = xs"
  by (simp add: sa_get_def sa_put_def)

lemma length_sa_put [simp]: "i + length xs \<le> length a \<Longrightarrow> length (sa_put i xs a) = length a"
  by (simp add: sa_put_def)

lemma sa_get_put_other:
  assumes "i + length xs \<le> length a" "j + n \<le> i \<or> i + length xs \<le> j"
  shows "sa_get j n (sa_put i xs a) = sa_get j n a"
proof -
  have len: "length (take i a) = i"
    using assms(1) by simp
  from assms(2) show ?thesis
  proof
    assume "j + n \<le> i"
    then have "take n (drop j (take i a @ ys)) = take n (drop j a)" for ys
      using assms(1) by (simp add: drop_take)
    then show ?thesis
      unfolding sa_get_def sa_put_def .
  next
    assume "i + length xs \<le> j"
    then have "drop j (take i a @ xs @ drop (i + length xs) a) = drop j a"
      using len by simp
    then show ?thesis
      unfolding sa_get_def sa_put_def by (rule arg_cong)
  qed
qed

lemma sa_fields:
  assumes "length a = 128"
  shows "length (set_family f a) = 128" "length (set_port p a) = 128"
    "family (set_family f a) = f" "family (set_port p a) = family a"
    "sa_get 2 2 (set_port p a) = mem_of_word (host_to_be p)"
  using assms
  by (simp_all add: set_family_def set_port_def family_def sa_get_put_other word_of_mem_of_word)

lemma port_bytes: "be_to_host (word_of_mem (mem_of_word (host_to_be (p :: 16 word)))) = p"
  by (rule be_round_trip) simp

subsection \<open>Round trips\<close>

text \<open>What \<open>inet_pton(3)\<close> and \<open>inet_ntop(3)\<close> document: addresses of the right size, and the
  printed form of a parsed address parses to the same address.\<close>

definition pton_ok :: "pton_fun \<Rightarrow> bool" where
  "pton_ok pton \<longleftrightarrow> (\<forall>s bs. (pton AF_INET s = Some bs \<longrightarrow> length bs = 4) \<and> (pton AF_INET6 s = Some bs \<longrightarrow> length bs = 16))"

definition ntop_ok :: "pton_fun \<Rightarrow> ntop_fun \<Rightarrow> bool" where
  "ntop_ok pton ntop \<longleftrightarrow> (\<forall>f s bs. pton f s = Some bs \<longrightarrow> pton f (ntop f bs) = Some bs)"

lemma InetAddress_ctor_v4:
  assumes "pton_ok pton" "pton AF_INET s = Some bs" "six \<Longrightarrow> pton AF_INET6 s = None"
  shows "\<exists>a. InetAddress_ctor pton p s six = Inr a \<and> length a = 128 \<and> family a = AF_INET \<and> port a = p \<and> sin_addr a = bs"
proof -
  have bs: "length bs = 4"
    using assms(1,2) by (auto simp: pton_ok_def)
  define z where "z = (if six then set_port p (set_family AF_INET6 sockaddr_zero) else sockaddr_zero)"
  have z: "length z = 128"
    by (simp add: z_def sa_fields sockaddr_zero_def)
  define a where "a = set_port p (set_family AF_INET z)"
  have a: "length a = 128" "family a = AF_INET" "sa_get 2 2 a = mem_of_word (host_to_be p)"
    using z by (simp_all add: a_def sa_fields)
  have "InetAddress_ctor pton p s six = Inr (sa_put 4 bs a)"
    using assms(2,3) by (auto simp: InetAddress_ctor_def Let_def a_def z_def)
  moreover have "family (sa_put 4 bs a) = AF_INET" "sa_get 2 2 (sa_put 4 bs a) = mem_of_word (host_to_be p)"
    using a bs by (simp_all add: family_def sa_get_put_other)
  ultimately show ?thesis
    using a(1) bs by (simp add: port_def port_bytes sin_addr_def)
qed

lemma InetAddress_ctor_v6:
  assumes "pton_ok pton" "pton AF_INET6 s = Some bs"
  shows "\<exists>a. InetAddress_ctor pton p s True = Inr a \<and> length a = 128 \<and> family a = AF_INET6 \<and> port a = p \<and> sin6_addr a = bs"
proof -
  have bs: "length bs = 16"
    using assms by (auto simp: pton_ok_def)
  define a where "a = set_port p (set_family AF_INET6 sockaddr_zero)"
  have a: "length a = 128" "family a = AF_INET6" "sa_get 2 2 a = mem_of_word (host_to_be p)"
    by (simp_all add: a_def sa_fields sockaddr_zero_def)
  have "InetAddress_ctor pton p s True = Inr (sa_put 8 bs a)"
    using assms(2) by (simp add: InetAddress_ctor_def Let_def a_def)
  moreover have "family (sa_put 8 bs a) = AF_INET6" "sa_get 2 2 (sa_put 8 bs a) = mem_of_word (host_to_be p)"
    using a bs by (simp_all add: family_def sa_get_put_other)
  ultimately show ?thesis
    using a(1) bs by (simp add: port_def port_bytes sin6_addr_def)
qed

text \<open>C31: constructing an address and reading it back returns the port and the address that was
  parsed, for IPv4 and IPv6, and printing the address gives a text that parses to the same
  address; a text that is no address at all is a critical error.\<close>

theorem InetAddress_round_trip:
  assumes "pton_ok pton" "ntop_ok pton ntop"
  shows "case InetAddress_ctor pton p s v6 of
      Inr a \<Rightarrow> length a = 128 \<and> port a = p
        \<and> (if v6 \<and> pton AF_INET6 s \<noteq> None
           then family a = AF_INET6 \<and> pton AF_INET6 s = Some (sin6_addr a)
           else family a = AF_INET \<and> pton AF_INET s = Some (sin_addr a))
        \<and> pton (family a) (ip ntop a) = pton (family a) s
        \<and> AsString ntop a = ip ntop a @ '':'' @ dec_string (unat p)
    | Inl e \<Rightarrow> e = Critical \<and> pton AF_INET s = None \<and> (v6 \<longrightarrow> pton AF_INET6 s = None)"
proof -
  have af: "AF_INET \<noteq> AF_INET6"
    by (simp add: AF_INET_def AF_INET6_def)
  consider (v6) bs where "v6" "pton AF_INET6 s = Some bs"
    | (v4) bs where "v6 \<Longrightarrow> pton AF_INET6 s = None" "pton AF_INET s = Some bs"
    | (none) "v6 \<Longrightarrow> pton AF_INET6 s = None" "pton AF_INET s = None"
    by (cases "pton AF_INET6 s"; cases "pton AF_INET s"; cases v6) auto
  then show ?thesis
  proof cases
    case v6
    then show ?thesis
      using InetAddress_ctor_v6 [OF assms(1) v6(2), where p = p] assms(2) af by (auto simp: ip_def ntop_ok_def AsString_def)
  next
    case v4
    then show ?thesis
      using InetAddress_ctor_v4 [OF assms(1) v4(2), where p = p and six = v6] v4(1) assms(2) by (auto simp: ip_def ntop_ok_def AsString_def)
  next
    case none
    then show ?thesis
      by (simp add: InetAddress_ctor_def)
  qed
qed

text \<open>A parser and a printer for the IPv4 addresses 127.0.0.1 and 0.0.0.0 and the IPv6 address ::1.\<close>

definition ex_pton :: pton_fun where
  "ex_pton f s = (if f = AF_INET \<and> s = ''127.0.0.1'' then Some [127, 0, 0, 1]
     else if f = AF_INET \<and> s = ''0.0.0.0'' then Some [0, 0, 0, 0]
     else if f = AF_INET6 \<and> s = ''::1'' then Some [0, 0, 0, 0, 0, 0, 0, 0, 0, 0, 0, 0, 0, 0, 0, 1] else None)"

definition ex_ntop :: ntop_fun where
  "ex_ntop f bs = (if bs = [127, 0, 0, 1] then ''127.0.0.1'' else if bs = [0, 0, 0, 0] then ''0.0.0.0'' else ''::1'')"

lemma ex_pton_ok: "pton_ok ex_pton" "ntop_ok ex_pton ex_ntop"
proof -
  have af: "AF_INET \<noteq> AF_INET6"
    by (simp add: AF_INET_def AF_INET6_def)
  show "pton_ok ex_pton"
    using af by (auto simp: pton_ok_def ex_pton_def split: if_splits)
  show "ntop_ok ex_pton ex_ntop"
    using af by (auto simp: ntop_ok_def ex_pton_def ex_ntop_def split: if_splits)
qed

theorem InetAddress_round_trip_witness:
  "\<exists>a. InetAddress_ctor ex_pton 8080 ''127.0.0.1'' True = Inr a \<and> port a = 8080 \<and> sin_addr a = [127, 0, 0, 1]
    \<and> AsString ex_ntop a = ''127.0.0.1:8080''"
proof -
  have v: "ex_pton AF_INET ''127.0.0.1'' = Some [127, 0, 0, 1]" "ex_pton AF_INET6 ''127.0.0.1'' = None"
    by (simp_all add: ex_pton_def AF_INET_def AF_INET6_def)
  have dec: "dec_string 8080 = ''8080''"
    by (simp add: dec_string.simps char_of_def bit_iff_odd)
  show ?thesis
    using InetAddress_round_trip [OF ex_pton_ok, of "''127.0.0.1''" True 8080] v dec
    by (cases "InetAddress_ctor ex_pton 8080 ''127.0.0.1'' True") (auto simp: ip_def ex_ntop_def)
qed

end
