(* ===== verification/Sockets.thy ===== *)
theory Sockets
  imports InetAddress
begin

text \<open>
  \<open>sockets\<close> of \<open>src/socket_ops.cpp\<close> and \<open>Socket\<close> of \<open>src/socket.cpp\<close>: what is passed to the
  system calls, which errors are fatal, and what is stored in the address arguments. The system
  calls are parameters; those whose effect on the kernel matters take its state and return it.
\<close>

definition sizeof_sockaddr :: nat where "sizeof_sockaddr = 16"

text \<open>The argument of \<open>accept\<close> is a pointer, and the size taken is that of the pointer.\<close>

definition sizeof_ptr :: nat where "sizeof_ptr = 8"

definition sizeof_storage :: nat where "sizeof_storage = 128"

type_synonym addr_call = "fd \<Rightarrow> byte list \<Rightarrow> errno option"

definition create_nonblocking_or_die :: "(16 word \<Rightarrow> fd sysret) \<Rightarrow> 16 word \<Rightarrow> fd res" where
  "create_nonblocking_or_die socket f = (case socket f of SysErr e \<Rightarrow> Inl Critical | SysOk sockfd \<Rightarrow> Inr sockfd)"

definition bind_or_die :: "addr_call \<Rightarrow> fd \<Rightarrow> sockaddr \<Rightarrow> unit res" where
  "bind_or_die bind sockfd addr =
     (case bind sockfd (take sizeof_sockaddr addr) of Some e \<Rightarrow> Inl Critical | None \<Rightarrow> Inr ())"

definition listen_or_die :: "(fd \<Rightarrow> errno option) \<Rightarrow> fd \<Rightarrow> unit res" where
  "listen_or_die listen sockfd = (case listen sockfd of Some e \<Rightarrow> Inl Critical | None \<Rightarrow> Inr ())"

definition connect :: "addr_call \<Rightarrow> fd \<Rightarrow> sockaddr \<Rightarrow> errno option" where
  "connect sys_connect sockfd addr = sys_connect sockfd (take sizeof_sockaddr addr)"

text \<open>\<open>accept4\<close> returns the descriptor and the bytes that it stores into the address.\<close>

type_synonym accept_fun = "fd \<Rightarrow> nat \<Rightarrow> (fd \<times> byte list) sysret"

fun accept_recoverable :: "errno \<Rightarrow> bool" where
  "accept_recoverable EAGAIN = True"
| "accept_recoverable ECONNABORTED = True"
| "accept_recoverable EINTR = True"
| "accept_recoverable EPROTO = True"
| "accept_recoverable EPERM = True"
| "accept_recoverable EMFILE = True"
| "accept_recoverable _ = False"

definition accept :: "accept_fun \<Rightarrow> fd \<Rightarrow> sockaddr \<Rightarrow> (fd sysret \<times> sockaddr) res" where
  "accept accept4 sockfd addr = (case accept4 sockfd sizeof_ptr of
     SysOk (connfd, bs) \<Rightarrow> Inr (SysOk connfd, sa_put 0 bs addr)
   | SysErr e \<Rightarrow> if accept_recoverable e then Inr (SysErr e, addr) else Inl Critical)"

definition get_socket_error :: "(fd \<Rightarrow> nat sysret) \<Rightarrow> (errno \<Rightarrow> nat) \<Rightarrow> fd \<Rightarrow> nat" where
  "get_socket_error getsockopt errno_value sockfd =
     (case getsockopt sockfd of SysErr e \<Rightarrow> errno_value e | SysOk optval \<Rightarrow> optval)"

type_synonym name_fun = "fd \<Rightarrow> nat \<Rightarrow> byte list sysret"

definition get_local_addr :: "name_fun \<Rightarrow> fd \<Rightarrow> sockaddr" where
  "get_local_addr getsockname sockfd = (case getsockname sockfd sizeof_storage of
     SysErr e \<Rightarrow> sockaddr_zero | SysOk bs \<Rightarrow> sa_put 0 bs sockaddr_zero)"

definition get_peer_addr :: "name_fun \<Rightarrow> fd \<Rightarrow> sockaddr" where
  "get_peer_addr getpeername sockfd = (case getpeername sockfd sizeof_storage of
     SysErr e \<Rightarrow> sockaddr_zero | SysOk bs \<Rightarrow> sa_put 0 bs sockaddr_zero)"

definition is_self_connect :: "name_fun \<Rightarrow> name_fun \<Rightarrow> fd \<Rightarrow> bool" where
  "is_self_connect getsockname getpeername sockfd =
     (let localaddr = get_local_addr getsockname sockfd;
          peeraddr = get_peer_addr getpeername sockfd
      in if family localaddr = AF_INET
         then sa_get 2 2 localaddr = sa_get 2 2 peeraddr \<and> sin_addr localaddr = sin_addr peeraddr
         else if family localaddr = AF_INET6
         then sa_get 2 2 localaddr = sa_get 2 2 peeraddr \<and> sin6_addr localaddr = sin6_addr peeraddr
         else False)"

definition Socket_Bind :: "addr_call \<Rightarrow> fd \<Rightarrow> sockaddr \<Rightarrow> unit res" where
  "Socket_Bind bind sockfd local_addr = bind_or_die bind sockfd local_addr"

definition Socket_Listen :: "(fd \<Rightarrow> errno option) \<Rightarrow> fd \<Rightarrow> unit res" where
  "Socket_Listen listen sockfd = listen_or_die listen sockfd"

definition Socket_Accept :: "accept_fun \<Rightarrow> fd \<Rightarrow> sockaddr \<Rightarrow> (fd sysret \<times> sockaddr) res" where
  "Socket_Accept accept4 sockfd peer_addr =
     andthen (accept accept4 sockfd sockaddr_zero) (\<lambda>(connfd, addr).
       Inr (connfd, case connfd of SysOk _ \<Rightarrow> set_addr addr peer_addr | SysErr _ \<Rightarrow> peer_addr))"

text \<open>Reading and writing only pass their arguments on; \<open>send\<close> asks for no signal.\<close>

definition MSG_NOSIGNAL :: nat where "MSG_NOSIGNAL = 0x4000"

definition sock_read :: "(fd \<Rightarrow> nat \<Rightarrow> 'k \<Rightarrow> byte list sysret \<times> 'k) \<Rightarrow> fd \<Rightarrow> nat \<Rightarrow> 'k \<Rightarrow> byte list sysret \<times> 'k" where
  "sock_read read sockfd count k = read sockfd count k"

definition sock_readv :: "(fd \<Rightarrow> nat list \<Rightarrow> 'k \<Rightarrow> byte list sysret \<times> 'k) \<Rightarrow> fd \<Rightarrow> nat list \<Rightarrow> 'k \<Rightarrow> byte list sysret \<times> 'k" where
  "sock_readv readv sockfd iov k = readv sockfd iov k"

definition sock_write :: "(fd \<Rightarrow> byte list \<Rightarrow> 'k \<Rightarrow> nat sysret \<times> 'k) \<Rightarrow> fd \<Rightarrow> byte list \<Rightarrow> 'k \<Rightarrow> nat sysret \<times> 'k" where
  "sock_write write sockfd buf k = write sockfd buf k"

definition sock_send :: "(fd \<Rightarrow> byte list \<Rightarrow> nat \<Rightarrow> 'k \<Rightarrow> nat sysret \<times> 'k) \<Rightarrow> fd \<Rightarrow> byte list \<Rightarrow> 'k \<Rightarrow> nat sysret \<times> 'k" where
  "sock_send send sockfd buf k = send sockfd buf MSG_NOSIGNAL k"

text \<open>A failure of \<open>close\<close>, \<open>shutdown\<close> or \<open>setsockopt\<close> is only logged.\<close>

definition SHUT_WR :: nat where "SHUT_WR = 1"

type_synonym 'k fd_call = "fd \<Rightarrow> 'k \<Rightarrow> errno option \<times> 'k"

type_synonym 'k shutdown_call = "fd \<Rightarrow> nat \<Rightarrow> 'k \<Rightarrow> errno option \<times> 'k"

type_synonym 'k option_call = "fd \<Rightarrow> nat \<Rightarrow> nat \<Rightarrow> int \<Rightarrow> 'k \<Rightarrow> errno option \<times> 'k"

definition sock_close :: "'k fd_call \<Rightarrow> fd \<Rightarrow> 'k \<Rightarrow> 'k" where
  "sock_close close sockfd k = (case close sockfd k of (r, k') \<Rightarrow> k')"

definition shutdown_write :: "'k shutdown_call \<Rightarrow> fd \<Rightarrow> 'k \<Rightarrow> 'k" where
  "shutdown_write shutdown sockfd k = (case shutdown sockfd SHUT_WR k of (r, k') \<Rightarrow> k')"

definition Socket_dtor :: "'k fd_call \<Rightarrow> fd \<Rightarrow> 'k \<Rightarrow> 'k" where
  "Socket_dtor close sockfd k = sock_close close sockfd k"

definition Socket_ShutdownWrite :: "'k shutdown_call \<Rightarrow> fd \<Rightarrow> 'k \<Rightarrow> 'k" where
  "Socket_ShutdownWrite shutdown sockfd k = shutdown_write shutdown sockfd k"

definition IPPROTO_TCP :: nat where "IPPROTO_TCP = 6"

definition SOL_SOCKET :: nat where "SOL_SOCKET = 1"

definition TCP_NODELAY :: nat where "TCP_NODELAY = 1"

definition SO_REUSEADDR :: nat where "SO_REUSEADDR = 2"

definition SO_KEEPALIVE :: nat where "SO_KEEPALIVE = 9"

definition SO_REUSEPORT :: nat where "SO_REUSEPORT = 15"

definition SetTcpNodelay :: "'k option_call \<Rightarrow> fd \<Rightarrow> bool \<Rightarrow> 'k \<Rightarrow> 'k" where
  "SetTcpNodelay setsockopt sockfd on k =
     (let optval = (if on then 1 else 0) in case setsockopt sockfd IPPROTO_TCP TCP_NODELAY optval k of (ret, k') \<Rightarrow> k')"

definition SetReuseAddr :: "'k option_call \<Rightarrow> fd \<Rightarrow> bool \<Rightarrow> 'k \<Rightarrow> 'k" where
  "SetReuseAddr setsockopt sockfd on k =
     (let optval = (if on then 1 else 0) in case setsockopt sockfd SOL_SOCKET SO_REUSEADDR optval k of (ret, k') \<Rightarrow> k')"

definition SetReusePort :: "'k option_call \<Rightarrow> fd \<Rightarrow> bool \<Rightarrow> 'k \<Rightarrow> 'k" where
  "SetReusePort setsockopt sockfd on k =
     (let optval = (if on then 1 else 0) in case setsockopt sockfd SOL_SOCKET SO_REUSEPORT optval k of (ret, k') \<Rightarrow> k')"

definition SetKeepAlive :: "'k option_call \<Rightarrow> fd \<Rightarrow> bool \<Rightarrow> 'k \<Rightarrow> 'k" where
  "SetKeepAlive setsockopt sockfd on k =
     (let optval = (if on then 1 else 0) in case setsockopt sockfd SOL_SOCKET SO_KEEPALIVE optval k of (ret, k') \<Rightarrow> k')"

text \<open>What does not change with an option or with closing the sending direction.\<close>

lemma socket_calls_keep:
  assumes "\<And>fd level name v k. f (snd (setsockopt fd level name v k)) = f k"
  shows "f (SetTcpNodelay setsockopt fd on k) = f k" "f (SetReuseAddr setsockopt fd on k) = f k"
    "f (SetReusePort setsockopt fd on k) = f k" "f (SetKeepAlive setsockopt fd on k) = f k"
  by (simp_all add: SetTcpNodelay_def SetReuseAddr_def SetReusePort_def SetKeepAlive_def case_prod_beta assms)

lemma shutdown_keeps:
  "(\<And>fd how k. f (snd (shutdown fd how k)) = f k) \<Longrightarrow> f (Socket_ShutdownWrite shutdown fd k) = f k"
  by (simp add: Socket_ShutdownWrite_def shutdown_write_def case_prod_beta)

subsection \<open>Addresses of accepted connections\<close>

text \<open>What \<open>accept(2)\<close> documents: the address of the peer, cut to the given size.\<close>

definition accept_ok :: "accept_fun \<Rightarrow> (fd \<Rightarrow> sockaddr) \<Rightarrow> bool" where
  "accept_ok accept4 peer \<longleftrightarrow> (\<forall>sockfd n connfd bs. accept4 sockfd n = SysOk (connfd, bs) \<longrightarrow> bs = take n (peer connfd))"

text \<open>What \<open>bind(2)\<close> documents for IPv6: an address shorter than the structure is refused.\<close>

definition sizeof_sockaddr_in6 :: nat where "sizeof_sockaddr_in6 = 28"

definition bind_ok :: "addr_call \<Rightarrow> bool" where
  "bind_ok bind \<longleftrightarrow> (\<forall>sockfd bs. family bs = AF_INET6 \<and> length bs < sizeof_sockaddr_in6 \<longrightarrow> bind sockfd bs \<noteq> None)"

lemma set_addr_all: "length a = length b \<Longrightarrow> set_addr a b = a"
  by (simp add: set_addr_def sa_put_def)

lemma prefix_8:
  assumes "8 \<le> length a"
  defines "b \<equiv> sa_put 0 (take 8 a) sockaddr_zero"
  shows "length b = 128" "family b = family a" "sa_get 2 2 b = sa_get 2 2 a" "sin_addr b = sin_addr a"
    "sin6_addr b = replicate 16 0"
proof -
  have b: "b = take 8 a @ replicate 120 0"
    using assms(1) by (simp add: b_def sa_put_def sockaddr_zero_def min_def)
  have get: "sa_get i n b = sa_get i n a" if "i + n \<le> 8" for i n
    using that assms(1) unfolding b sa_get_def by (simp add: drop_take min_def)
  show "length b = 128"
    using assms(1) by (simp add: b)
  show "family b = family a" "sa_get 2 2 b = sa_get 2 2 a" "sin_addr b = sin_addr a"
    using get by (simp_all add: family_def sin_addr_def)
  show "sin6_addr b = replicate 16 0"
    using assms(1) by (simp add: b sin6_addr_def sa_get_def)
qed

text \<open>C38: accepting a connection reports family, port and address of an IPv4 peer; of an IPv6
  peer the address is always reported as all zeros, because only the first eight bytes of the
  address are requested. Errors that concern one connection are returned, the others are fatal.\<close>

theorem Accept_peer_address:
  assumes "accept_ok accept4 peer" "length old = 128" "\<And>c. 16 \<le> length (peer c)"
  shows "case Socket_Accept accept4 sockfd old of
      Inl e \<Rightarrow> e = Critical \<and> (\<exists>n. accept4 sockfd sizeof_ptr = SysErr n \<and> \<not> accept_recoverable n)
    | Inr (SysErr n, a) \<Rightarrow> a = old \<and> accept4 sockfd sizeof_ptr = SysErr n \<and> accept_recoverable n
    | Inr (SysOk c, a) \<Rightarrow> length a = 128 \<and> family a = family (peer c) \<and> port a = port (peer c)
        \<and> sin_addr a = sin_addr (peer c) \<and> sin6_addr a = replicate 16 0"
proof (cases "accept4 sockfd sizeof_ptr")
  case (SysErr n)
  then show ?thesis
    by (simp add: Socket_Accept_def accept_def)
next
  case (SysOk r)
  obtain c bs where r: "r = (c, bs)"
    by fastforce
  have bs: "bs = take 8 (peer c)"
    using assms(1) SysOk r by (simp add: accept_ok_def sizeof_ptr_def)
  have long: "8 \<le> length (peer c)"
    using assms(3) [of c] by simp
  have "Socket_Accept accept4 sockfd old = Inr (SysOk c, sa_put 0 (take 8 (peer c)) sockaddr_zero)"
    using SysOk r bs prefix_8(1) [OF long] assms(2) by (simp add: Socket_Accept_def accept_def set_addr_all)
  then show ?thesis
    using prefix_8 [OF long] by (simp add: port_def)
qed

definition ex_peer :: "fd \<Rightarrow> sockaddr" where
  "ex_peer c = (set_port 7 (set_family AF_INET6 sockaddr_zero))[8 := 254, 23 := 1]"

theorem Accept_peer_address_witness:
  "\<exists>a. Socket_Accept (\<lambda>sockfd n. SysOk (9, take n (ex_peer 9))) 3 sockaddr_zero = Inr (SysOk 9, a)
    \<and> family a = AF_INET6 \<and> port a = 7 \<and> sin6_addr a = replicate 16 0 \<and> sin6_addr (ex_peer 9) \<noteq> replicate 16 0"
proof -
  have ok: "accept_ok (\<lambda>sockfd n. SysOk (9, take n (ex_peer 9))) ex_peer"
    by (simp add: accept_ok_def)
  have zero: "length sockaddr_zero = 128"
    by (simp add: sockaddr_zero_def)
  have peer: "length (ex_peer c) = 128" "family (ex_peer c) = AF_INET6" "port (ex_peer c) = 7"
    "sin6_addr (ex_peer c) \<noteq> replicate 16 0" for c
  proof -
    define z where "z = set_port 7 (set_family AF_INET6 sockaddr_zero)"
    have z: "length z = 128" "family z = AF_INET6" "sa_get 2 2 z = mem_of_word (host_to_be (7 :: 16 word))"
      using zero by (simp_all add: z_def sa_fields)
    have keep: "sa_get i n (z[8 := x, 23 := y]) = sa_get i n z" if "i + n \<le> 8" for i n x y
      using that z(1) by (simp add: sa_get_def drop_update_swap take_update_swap list_update_beyond)
    show "length (ex_peer c) = 128" "family (ex_peer c) = AF_INET6" "port (ex_peer c) = 7"
      using z keep by (simp_all add: ex_peer_def z_def [symmetric] family_def port_def port_bytes)
    have "sin6_addr (ex_peer c) ! 0 = 254"
      using z(1) by (simp add: ex_peer_def z_def [symmetric] sin6_addr_def sa_get_def)
    then show "sin6_addr (ex_peer c) \<noteq> replicate 16 0"
      by auto
  qed
  show ?thesis
    using Accept_peer_address [OF ok zero, of 3] peer
    by (cases "Socket_Accept (\<lambda>sockfd n. SysOk (9, take n (ex_peer 9))) 3 sockaddr_zero")
      (auto simp: Socket_Accept_def accept_def)
qed

text \<open>Binding a socket to an IPv6 address always ends the program: only the first sixteen bytes
  of the address are passed on.\<close>

theorem bind_or_die_IPv6:
  assumes "bind_ok bind" "length a = 128" "family a = AF_INET6"
  shows "Socket_Bind bind sockfd a = Inl Critical"
proof -
  have "family (take 16 a) = AF_INET6"
    using assms(3) by (simp add: family_def sa_get_def)
  moreover have "length (take 16 a) < sizeof_sockaddr_in6"
    by (simp add: sizeof_sockaddr_in6_def)
  ultimately have "bind sockfd (take 16 a) \<noteq> None"
    using assms(1) unfolding bind_ok_def by blast
  then show ?thesis
    by (auto simp: Socket_Bind_def bind_or_die_def sizeof_sockaddr_def)
qed

theorem bind_or_die_IPv6_witness:
  "Socket_Bind (\<lambda>sockfd bs. if length bs < 28 \<and> family bs = AF_INET6 then Some EINVAL else None) 3
     (set_family AF_INET6 sockaddr_zero) = Inl Critical"
proof -
  have "bind_ok (\<lambda>sockfd bs. if length bs < 28 \<and> family bs = AF_INET6 then Some EINVAL else None)"
    by (simp add: bind_ok_def sizeof_sockaddr_in6_def)
  then show ?thesis
    using bind_or_die_IPv6 [of _ "set_family AF_INET6 sockaddr_zero" 3] by (simp add: sa_fields sockaddr_zero_def)
qed

end
