(* ===== verification/TcpConnection.thy ===== *)
theory TcpConnection
  imports EventLoop Sockets
begin

text \<open>
  \<open>TcpConnection\<close> of \<open>include/benet/tcp_connection.h\<close> and \<open>src/tcp_connection.cpp\<close>: the
  connections of one event loop. A connection lives at an address of the map \<open>conns\<close> and uses its
  channel through the loop. A call by another thread is a step between two steps of the loop
  thread. Parameters: the system calls (record \<open>conn_sys\<close>) and \<open>user\<close>, which executes the
  callbacks stored in the connection; they may call every operation of the library.

  \<open>sent\<close>, \<open>accepted\<close> and \<open>shut_wr\<close> are history variables: the bytes the kernel took, the bytes
  that \<open>send_in_loop\<close> agreed to send, and whether \<open>ShutdownWrite\<close> was called.
\<close>

subsection \<open>State\<close>

datatype conn_state = Disconnected | Connecting | Connected | Disconnecting

datatype call_arg = ConnArg ptr | MessageArg ptr time_point | SizeArg ptr nat

text \<open>The callbacks bound to channels and the functors queued in the loop.\<close>

datatype conn_cb = WakeupCb | TimerCb | AcceptCb | ReadCb ptr | WriteCb ptr | CloseCb ptr | ErrorCb ptr

datatype 'u conn_fn = SendFn ptr "byte list" | ShutdownFn ptr | ForceCloseFn ptr
  | StartReadFn ptr | StopReadFn ptr | EstablishedFn ptr | DestroyedFn ptr
  | CallFn 'u call_arg

record 'u connection =
  conn_name :: string
  sockfd :: fd
  conn_channel :: ptr
  local_addr :: sockaddr
  peer_addr :: sockaddr
  state :: conn_state
  reading :: bool
  high_water_mark :: nat
  on_high_water_mark :: "'u option"
  on_connection :: "'u option"
  conn_on_close :: "'u option"
  on_message :: "'u option"
  on_write_complete :: "'u option"
  input_buffer :: buffer
  output_buffer :: buffer
  user_context :: "ptr option"
  sent :: "byte list"
  accepted :: "byte list"
  shut_wr :: bool

record ('k, 'u) tcp_loop = "(conn_cb, 'k, 'u conn_fn) evloop" +
  conns :: "ptr \<rightharpoonup> 'u connection"

type_synonym ('k, 'u, 'z) tcp_state = "('k, 'u, 'z) tcp_loop_scheme"

record 'k conn_sys = "'k loop_sys" +
  sys_send :: "fd \<Rightarrow> byte list \<Rightarrow> 'k \<Rightarrow> nat sysret \<times> 'k"
  sys_readv :: "fd \<Rightarrow> 'k \<Rightarrow> nat list \<Rightarrow> byte list sysret \<times> 'k"
  sys_shutdown :: "'k shutdown_call"
  conn_setsockopt :: "'k option_call"
  conn_close :: "'k fd_call"

definition loop_part :: "'k conn_sys \<Rightarrow> 'k loop_sys" where
  "loop_part s = \<lparr>sys_ctl = sys_ctl s, evfd_write = evfd_write s, evfd_read = evfd_read s\<rparr>"

type_synonym ('k, 'u, 'z) user_fun = "'u \<Rightarrow> call_arg \<Rightarrow> ('k, 'u, 'z) tcp_state \<Rightarrow> ('k, 'u, 'z) tcp_state res"

definition with_conn :: "ptr \<Rightarrow> ('k, 'u, 'z) tcp_state \<Rightarrow> ('u connection \<Rightarrow> 'a res) \<Rightarrow> 'a res" where
  "with_conn c w k = (case conns w c of None \<Rightarrow> Inl Dangling | Some x \<Rightarrow> k x)"

definition put_conn :: "ptr \<Rightarrow> 'u connection \<Rightarrow> ('k, 'u, 'z) tcp_state \<Rightarrow> ('k, 'u, 'z) tcp_state" where
  "put_conn c x w = w\<lparr>conns := (conns w)(c \<mapsto> x)\<rparr>"

definition call_cb :: "('k, 'u, 'z) user_fun \<Rightarrow> 'u option \<Rightarrow> call_arg \<Rightarrow> ('k, 'u, 'z) tcp_state \<Rightarrow> ('k, 'u, 'z) tcp_state res" where
  "call_cb user cb arg w = (case cb of None \<Rightarrow> Inl BadFunctionCall | Some u \<Rightarrow> user u arg w)"

definition queue_if_bound :: "'k conn_sys \<Rightarrow> thread_id \<Rightarrow> 'u option \<Rightarrow> call_arg \<Rightarrow> ('k, 'u, 'z) tcp_state \<Rightarrow> ('k, 'u, 'z) tcp_state" where
  "queue_if_bound s me cb arg w = (case cb of None \<Rightarrow> w | Some u \<Rightarrow> QueueInLoop (loop_part s) me (CallFn u arg) w)"

subsection \<open>Construction and destruction\<close>

definition TcpConnection_ctor :: "'k conn_sys \<Rightarrow> ptr \<Rightarrow> ptr \<Rightarrow> fd \<Rightarrow> sockaddr \<Rightarrow> sockaddr \<Rightarrow> string \<Rightarrow> ('k, 'u, 'z) tcp_state \<Rightarrow> ('k, 'u, 'z) tcp_state res" where
  "TcpConnection_ctor s c p fd laddr paddr name w =
     andthen (Buffer_ctor kInitialSize) (\<lambda>buf.
       Inr (w\<lparr>epoll := SetKeepAlive (conn_setsockopt s) fd True (epoll w),
              channel_heap := (channel_heap w)(p \<mapsto>
                BindErrorCallback (ErrorCb c) (BindCloseCallback (CloseCb c)
                  (BindWriteCallback (WriteCb c) (BindReadCallback (ReadCb c) (Channel_ctor (this_loop w) fd))))),
              conns := (conns w)(c \<mapsto>
                \<lparr>conn_name = name, sockfd = fd, conn_channel = p, local_addr = laddr, peer_addr = paddr,
                 state = Connecting, reading = True, high_water_mark = 128 * 1024 * 1024,
                 on_high_water_mark = None, on_connection = None, conn_on_close = None, on_message = None,
                 on_write_complete = None, input_buffer = buf, output_buffer = buf,
                 user_context = None, sent = [], accepted = [], shut_wr = False\<rparr>)\<rparr>))"

text \<open>The destructor: its body, then the channel and the socket.\<close>

definition TcpConnection_dtor :: "'k conn_sys \<Rightarrow> thread_id \<Rightarrow> ptr \<Rightarrow> ('k, 'u, 'z) tcp_state \<Rightarrow> ('k, 'u, 'z) tcp_state res" where
  "TcpConnection_dtor s me c w =
     with_conn c w (\<lambda>x. assert_then (state x = Disconnected)
       (andthen (Channel_dtor me (conn_channel x) w) (\<lambda>w1.
         Inr (w1\<lparr>epoll := Socket_dtor (conn_close s) (sockfd x) (epoll w1), conns := (conns w1)(c := None)\<rparr>))))"

subsection \<open>Closing\<close>

text \<open>\<open>get_socket_error\<close> and the logging have no effect on the model.\<close>

definition handle_close :: "'k conn_sys \<Rightarrow> ('k, 'u, 'z) user_fun \<Rightarrow> thread_id \<Rightarrow> ptr \<Rightarrow> ('k, 'u, 'z) tcp_state \<Rightarrow> ('k, 'u, 'z) tcp_state res" where
  "handle_close s user me c w =
     with_conn c w (\<lambda>x. AssertInLoopThread me w
       (if state x \<noteq> Connected \<and> state x \<noteq> Disconnecting then Inr w
        else andthen (DisableAllEvent (loop_part s) me (conn_channel x) (put_conn c (x\<lparr>state := Disconnected\<rparr>) w)) (\<lambda>w1.
             with_conn c w1 (\<lambda>x1.
             andthen (call_cb user (on_connection x1) (ConnArg c) w1) (\<lambda>w2.
             with_conn c w2 (\<lambda>x2. call_cb user (conn_on_close x2) (ConnArg c) w2))))))"

subsection \<open>Sending\<close>

text \<open>The second half of \<open>send_in_loop\<close>: what was not sent goes to the output buffer.\<close>

definition note_high_water :: "'k conn_sys \<Rightarrow> thread_id \<Rightarrow> ptr \<Rightarrow> 'u connection \<Rightarrow> nat \<Rightarrow> ('k, 'u, 'z) tcp_state \<Rightarrow> ('k, 'u, 'z) tcp_state" where
  "note_high_water s me c x n_remaining w =
     (let old_buf_len = ReadableBytes (output_buffer x) in
      if high_water_mark x \<le> size_add old_buf_len n_remaining \<and> old_buf_len < high_water_mark x
      then queue_if_bound s me (on_high_water_mark x) (SizeArg c (size_add old_buf_len n_remaining)) w
      else w)"

definition send_rest :: "'k conn_sys \<Rightarrow> thread_id \<Rightarrow> ptr \<Rightarrow> byte list \<Rightarrow> nat \<Rightarrow> nat \<Rightarrow> ('k, 'u, 'z) tcp_state \<Rightarrow> ('k, 'u, 'z) tcp_state res" where
  "send_rest s me c msg n_wrote n_remaining w =
     with_conn c w (\<lambda>x.
       let w1 = note_high_water s me c x n_remaining w
       in andthen (mem_load msg n_wrote n_remaining) (\<lambda>data.
          andthen (Append (output_buffer x) data) (\<lambda>buf.
          let w2 = put_conn c (x\<lparr>output_buffer := buf\<rparr>) w1
          in with_channel channel_heap (conn_channel x) w2 (\<lambda>ch.
               if \<not> IsWriteEvent ch then EnableWriteEvent (loop_part s) me (conn_channel x) w2 else Inr w2))))"

definition send_in_loop :: "'k conn_sys \<Rightarrow> ('k, 'u, 'z) user_fun \<Rightarrow> thread_id \<Rightarrow> ptr \<Rightarrow> byte list \<Rightarrow> ('k, 'u, 'z) tcp_state \<Rightarrow> ('k, 'u, 'z) tcp_state res" where
  "send_in_loop s user me c msg w =
     with_conn c w (\<lambda>x. AssertInLoopThread me w
       (if state x \<noteq> Connected then Inr w
        else with_channel channel_heap (conn_channel x) w (\<lambda>ch.
          if \<not> IsWriteEvent ch \<and> ReadableBytes (output_buffer x) = 0
          then (case sys_send s (ch_fd ch) msg (epoll w) of
              (SysOk n_wrote, k) \<Rightarrow>
                let n_remaining = size_sub (length msg) n_wrote;
                    w1 = put_conn c (x\<lparr>sent := sent x @ take n_wrote msg, accepted := accepted x @ msg\<rparr>) (w\<lparr>epoll := k\<rparr>);
                    w2 = (if n_remaining = 0 then queue_if_bound s me (on_write_complete x) (ConnArg c) w1 else w1)
                in if n_remaining = 0 then Inr w2 else send_rest s me c msg n_wrote n_remaining w2
            | (SysErr e, k) \<Rightarrow>
                if e = EPIPE \<or> e = ECONNRESET then handle_close s user me c (w\<lparr>epoll := k\<rparr>)
                else let w1 = put_conn c (x\<lparr>accepted := accepted x @ msg\<rparr>) (w\<lparr>epoll := k\<rparr>)
                     in if length msg = 0 then Inr w1 else send_rest s me c msg 0 (length msg) w1)
          else let w1 = put_conn c (x\<lparr>accepted := accepted x @ msg\<rparr>) w
               in if length msg = 0 then Inr w1 else send_rest s me c msg 0 (length msg) w1)))"

definition Send :: "'k conn_sys \<Rightarrow> ('k, 'u, 'z) user_fun \<Rightarrow> thread_id \<Rightarrow> ptr \<Rightarrow> byte list \<Rightarrow> ('k, 'u, 'z) tcp_state \<Rightarrow> ('k, 'u, 'z) tcp_state res" where
  "Send s user me c msg w =
     with_conn c w (\<lambda>x.
       if state x \<noteq> Connected then Inr w
       else RunInLoop (loop_part s) (\<lambda>fn. send_in_loop s user me c msg) me (SendFn c msg) w)"

text \<open>\<open>Send(Buffer* )\<close>: the buffer is anywhere in the state, given by its accessors.\<close>

definition Send_buffer :: "'k conn_sys \<Rightarrow> ('k, 'u, 'z) user_fun \<Rightarrow> thread_id \<Rightarrow> ptr \<Rightarrow>
    (('k, 'u, 'z) tcp_state \<Rightarrow> buffer res) \<Rightarrow> (buffer \<Rightarrow> ('k, 'u, 'z) tcp_state \<Rightarrow> ('k, 'u, 'z) tcp_state) \<Rightarrow>
    ('k, 'u, 'z) tcp_state \<Rightarrow> ('k, 'u, 'z) tcp_state res" where
  "Send_buffer s user me c getb putb w =
     with_conn c w (\<lambda>x.
       if state x \<noteq> Connected then Inr w
       else andthen (getb w) (\<lambda>b.
         if IsInLoopThread me w
         then andthen (mem_load (buffer_vec b) (Peek b) (ReadableBytes b)) (\<lambda>data.
              andthen (send_in_loop s user me c data w) (\<lambda>w1.
              andthen (getb w1) (\<lambda>b1. Inr (putb (RetrieveAll b1) w1))))
         else andthen (RetrieveAllAsString b) (\<lambda>(message, b1).
              RunInLoop (loop_part s) (\<lambda>fn. send_in_loop s user me c message) me (SendFn c message) (putb b1 w))))"

text \<open>The accessors of the input buffer of a connection, the argument of the message callback.\<close>

definition get_input :: "ptr \<Rightarrow> ('k, 'u, 'z) tcp_state \<Rightarrow> buffer res" where
  "get_input c w = with_conn c w (\<lambda>x. Inr (input_buffer x))"

definition put_input :: "ptr \<Rightarrow> buffer \<Rightarrow> ('k, 'u, 'z) tcp_state \<Rightarrow> ('k, 'u, 'z) tcp_state" where
  "put_input c b w = (case conns w c of None \<Rightarrow> w | Some x \<Rightarrow> put_conn c (x\<lparr>input_buffer := b\<rparr>) w)"

subsection \<open>Shutting down\<close>

definition ShutdownWrite :: "'k conn_sys \<Rightarrow> ptr \<Rightarrow> 'u connection \<Rightarrow> ('k, 'u, 'z) tcp_state \<Rightarrow> ('k, 'u, 'z) tcp_state" where
  "ShutdownWrite s c x w = put_conn c (x\<lparr>shut_wr := True\<rparr>) (w\<lparr>epoll := Socket_ShutdownWrite (sys_shutdown s) (sockfd x) (epoll w)\<rparr>)"

text \<open>The functor of \<open>Shutdown\<close>; \<open>handle_write\<close> runs the same code.\<close>

definition shutdown_in_loop :: "'k conn_sys \<Rightarrow> thread_id \<Rightarrow> ptr \<Rightarrow> ('k, 'u, 'z) tcp_state \<Rightarrow> ('k, 'u, 'z) tcp_state res" where
  "shutdown_in_loop s me c w =
     with_conn c w (\<lambda>x. AssertInLoopThread me w
       (with_channel channel_heap (conn_channel x) w (\<lambda>ch.
          if \<not> IsWriteEvent ch then Inr (ShutdownWrite s c x w) else Inr w)))"

definition Shutdown :: "'k conn_sys \<Rightarrow> thread_id \<Rightarrow> ptr \<Rightarrow> ('k, 'u, 'z) tcp_state \<Rightarrow> ('k, 'u, 'z) tcp_state res" where
  "Shutdown s me c w =
     with_conn c w (\<lambda>x.
       if state x = Connected
       then RunInLoop (loop_part s) (\<lambda>fn. shutdown_in_loop s me c) me (ShutdownFn c) (put_conn c (x\<lparr>state := Disconnecting\<rparr>) w)
       else Inr w)"

definition force_close_in_loop :: "'k conn_sys \<Rightarrow> ('k, 'u, 'z) user_fun \<Rightarrow> thread_id \<Rightarrow> ptr \<Rightarrow> ('k, 'u, 'z) tcp_state \<Rightarrow> ('k, 'u, 'z) tcp_state res" where
  "force_close_in_loop s user me c w =
     with_conn c w (\<lambda>x. AssertInLoopThread me w
       (if state x = Connected \<or> state x = Disconnecting then handle_close s user me c w else Inr w))"

definition ForceClose :: "'k conn_sys \<Rightarrow> thread_id \<Rightarrow> ptr \<Rightarrow> ('k, 'u, 'z) tcp_state \<Rightarrow> ('k, 'u, 'z) tcp_state res" where
  "ForceClose s me c w =
     with_conn c w (\<lambda>x.
       if state x = Connected \<or> state x = Disconnecting
       then Inr (QueueInLoop (loop_part s) me (ForceCloseFn c) (put_conn c (x\<lparr>state := Disconnecting\<rparr>) w))
       else Inr w)"

text \<open>The timer callback of \<open>ForceCloseDelay\<close>, which holds a weak pointer.\<close>

definition ForceCloseDelay_fire :: "'k conn_sys \<Rightarrow> thread_id \<Rightarrow> ptr \<Rightarrow> ('k, 'u, 'z) tcp_state \<Rightarrow> ('k, 'u, 'z) tcp_state res" where
  "ForceCloseDelay_fire s me c w = (if conns w c = None then Inr w else ForceClose s me c w)"

definition SetTcpNoDelay :: "'k conn_sys \<Rightarrow> ptr \<Rightarrow> bool \<Rightarrow> ('k, 'u, 'z) tcp_state \<Rightarrow> ('k, 'u, 'z) tcp_state res" where
  "SetTcpNoDelay s c on w =
     with_conn c w (\<lambda>x. Inr (w\<lparr>epoll := SetTcpNodelay (conn_setsockopt s) (sockfd x) on (epoll w)\<rparr>))"

subsection \<open>Reading\<close>

definition start_read_in_loop :: "'k conn_sys \<Rightarrow> thread_id \<Rightarrow> ptr \<Rightarrow> ('k, 'u, 'z) tcp_state \<Rightarrow> ('k, 'u, 'z) tcp_state res" where
  "start_read_in_loop s me c w =
     with_conn c w (\<lambda>x. AssertInLoopThread me w
       (with_channel channel_heap (conn_channel x) w (\<lambda>ch.
          if \<not> reading x \<or> \<not> IsReadEvent ch
          then andthen (EnableReadEvent (loop_part s) me (conn_channel x) w) (\<lambda>w1.
               with_conn c w1 (\<lambda>x1. Inr (put_conn c (x1\<lparr>reading := True\<rparr>) w1)))
          else Inr w)))"

definition StartRead :: "'k conn_sys \<Rightarrow> thread_id \<Rightarrow> ptr \<Rightarrow> ('k, 'u, 'z) tcp_state \<Rightarrow> ('k, 'u, 'z) tcp_state res" where
  "StartRead s me c w = RunInLoop (loop_part s) (\<lambda>fn. start_read_in_loop s me c) me (StartReadFn c) w"

definition stop_read_in_loop :: "'k conn_sys \<Rightarrow> thread_id \<Rightarrow> ptr \<Rightarrow> ('k, 'u, 'z) tcp_state \<Rightarrow> ('k, 'u, 'z) tcp_state res" where
  "stop_read_in_loop s me c w =
     with_conn c w (\<lambda>x. AssertInLoopThread me w
       (with_channel channel_heap (conn_channel x) w (\<lambda>ch.
          if reading x \<or> IsReadEvent ch
          then andthen (DisableReadEvent (loop_part s) me (conn_channel x) w) (\<lambda>w1.
               with_conn c w1 (\<lambda>x1. Inr (put_conn c (x1\<lparr>reading := False\<rparr>) w1)))
          else Inr w)))"

definition StopRead :: "'k conn_sys \<Rightarrow> thread_id \<Rightarrow> ptr \<Rightarrow> ('k, 'u, 'z) tcp_state \<Rightarrow> ('k, 'u, 'z) tcp_state res" where
  "StopRead s me c w = RunInLoop (loop_part s) (\<lambda>fn. stop_read_in_loop s me c) me (StopReadFn c) w"

definition handle_read :: "'k conn_sys \<Rightarrow> ('k, 'u, 'z) user_fun \<Rightarrow> thread_id \<Rightarrow> ptr \<Rightarrow> time_point \<Rightarrow> ('k, 'u, 'z) tcp_state \<Rightarrow> ('k, 'u, 'z) tcp_state res" where
  "handle_read s user me c receive_time w =
     with_conn c w (\<lambda>x. AssertInLoopThread me w
       (with_channel channel_heap (conn_channel x) w (\<lambda>ch.
          andthen (ReadFd (\<lambda>iov. fst (sys_readv s (ch_fd ch) (epoll w) iov)) (input_buffer x)) (\<lambda>(n, buf).
          let w1 = put_conn c (x\<lparr>input_buffer := buf\<rparr>)
                (w\<lparr>epoll := snd (sys_readv s (ch_fd ch) (epoll w) (ReadFd_iov (input_buffer x)))\<rparr>)
          in case n of
               SysOk len \<Rightarrow> if 0 < len then call_cb user (on_message x) (MessageArg c receive_time) w1
                            else handle_close s user me c w1
             | SysErr e \<Rightarrow> if e = EAGAIN \<or> e = EINTR then Inr w1 else handle_close s user me c w1))))"

subsection \<open>Writing\<close>

text \<open>A result of zero is an error as well; \<open>errno\<close> then has the value it had before (\<open>old_errno\<close>).\<close>

definition handle_write :: "'k conn_sys \<Rightarrow> ('k, 'u, 'z) user_fun \<Rightarrow> errno \<Rightarrow> thread_id \<Rightarrow> ptr \<Rightarrow> ('k, 'u, 'z) tcp_state \<Rightarrow> ('k, 'u, 'z) tcp_state res" where
  "handle_write s user old_errno me c w =
     with_conn c w (\<lambda>x. AssertInLoopThread me w
       (with_channel channel_heap (conn_channel x) w (\<lambda>ch.
          if \<not> IsWriteEvent ch then Inr w
          else andthen (mem_load (buffer_vec (output_buffer x)) (Peek (output_buffer x)) (ReadableBytes (output_buffer x))) (\<lambda>data.
            case sys_send s (ch_fd ch) data (epoll w) of (ret, k) \<Rightarrow>
            let w1 = w\<lparr>epoll := k\<rparr>;
                failed = (\<lambda>e. if e = EAGAIN \<or> e = EINTR then Inr w1 else handle_close s user me c w1)
            in case ret of SysErr e \<Rightarrow> failed e | SysOk n \<Rightarrow>
               if n = 0 then failed old_errno
               else andthen (Retrieve (output_buffer x) n) (\<lambda>buf.
                 let w2 = put_conn c (x\<lparr>output_buffer := buf, sent := sent x @ take n data\<rparr>) w1
                 in if 0 < ReadableBytes buf then Inr w2
                    else andthen (DisableWriteEvent (loop_part s) me (conn_channel x) w2) (\<lambda>w3.
                      let w4 = queue_if_bound s me (on_write_complete x) (ConnArg c) w3
                      in if state x = Disconnecting then shutdown_in_loop s me c w4 else Inr w4))))))"

definition handle_error :: "ptr \<Rightarrow> ('k, 'u, 'z) tcp_state \<Rightarrow> ('k, 'u, 'z) tcp_state res" where
  "handle_error c w = with_conn c w (\<lambda>x. Inr w)"

subsection \<open>Established and destroyed\<close>

definition ConnectionEstablished :: "'k conn_sys \<Rightarrow> ('k, 'u, 'z) user_fun \<Rightarrow> thread_id \<Rightarrow> ptr \<Rightarrow> ('k, 'u, 'z) tcp_state \<Rightarrow> ('k, 'u, 'z) tcp_state res" where
  "ConnectionEstablished s user me c w =
     with_conn c w (\<lambda>x. AssertInLoopThread me w
       (assert_then (state x = Connecting)
         (with_channel channel_heap (conn_channel x) w (\<lambda>ch.
           andthen (EnableReadEvent (loop_part s) me (conn_channel x)
               (put_channel (conn_channel x) (Tie c ch) (put_conn c (x\<lparr>state := Connected\<rparr>) w))) (\<lambda>w1.
             with_conn c w1 (\<lambda>x1. call_cb user (on_connection x1) (ConnArg c) w1))))))"

definition ConnectionDestroyed :: "'k conn_sys \<Rightarrow> ('k, 'u, 'z) user_fun \<Rightarrow> thread_id \<Rightarrow> ptr \<Rightarrow> ('k, 'u, 'z) tcp_state \<Rightarrow> ('k, 'u, 'z) tcp_state res" where
  "ConnectionDestroyed s user me c w =
     with_conn c w (\<lambda>x. AssertInLoopThread me w
       (andthen (if state x = Connected
                 then andthen (DisableAllEvent (loop_part s) me (conn_channel x) (put_conn c (x\<lparr>state := Disconnected\<rparr>) w)) (\<lambda>w1.
                      with_conn c w1 (\<lambda>x1. call_cb user (on_connection x1) (ConnArg c) w1))
                 else Inr w) (\<lambda>w2.
        with_conn c w2 (\<lambda>x2. RemoveFromLoop (loop_part s) me (conn_channel x2) w2))))"

subsection \<open>Observers, callbacks and defaults\<close>

text \<open>A bound \<open>std::function\<close> may be empty.\<close>

definition IsConnected :: "'u connection \<Rightarrow> bool" where
  "IsConnected x \<longleftrightarrow> state x = Connected"

definition IsDisconnected :: "'u connection \<Rightarrow> bool" where
  "IsDisconnected x \<longleftrightarrow> state x = Disconnected"

definition conn_AsString :: "ntop_fun \<Rightarrow> 'u connection \<Rightarrow> string" where
  "conn_AsString ntop x = AsString ntop (local_addr x) @ '' <=> '' @ AsString ntop (peer_addr x)"

definition BindConnectionCallback :: "'u option \<Rightarrow> 'u connection \<Rightarrow> 'u connection" where
  "BindConnectionCallback cb x = x\<lparr>on_connection := cb\<rparr>"

definition conn_BindCloseCallback :: "'u option \<Rightarrow> 'u connection \<Rightarrow> 'u connection" where
  "conn_BindCloseCallback cb x = x\<lparr>conn_on_close := cb\<rparr>"

definition BindMessageCallback :: "'u option \<Rightarrow> 'u connection \<Rightarrow> 'u connection" where
  "BindMessageCallback cb x = x\<lparr>on_message := cb\<rparr>"

definition BindWriteCompleteCallback :: "'u option \<Rightarrow> 'u connection \<Rightarrow> 'u connection" where
  "BindWriteCompleteCallback cb x = x\<lparr>on_write_complete := cb\<rparr>"

definition BindHighWaterMarkCallback :: "'u option \<Rightarrow> nat \<Rightarrow> 'u connection \<Rightarrow> 'u connection" where
  "BindHighWaterMarkCallback cb mark x = x\<lparr>on_high_water_mark := cb, high_water_mark := mark\<rparr>"

text \<open>The user's context, a \<open>std::any\<close>, is known here by its address; the library never reads it.\<close>

definition set_context :: "ptr option \<Rightarrow> 'u connection \<Rightarrow> 'u connection" where
  "set_context v x = x\<lparr>user_context := v\<rparr>"

text \<open>The default connection callback only logs, the default message callback discards what was
  received.\<close>

definition default_connection_callback :: "ptr \<Rightarrow> ('k, 'u, 'z) tcp_state \<Rightarrow> ('k, 'u, 'z) tcp_state res" where
  "default_connection_callback c w = with_conn c w (\<lambda>x. Inr w)"

definition default_message_callback :: "ptr \<Rightarrow> ('k, 'u, 'z) tcp_state \<Rightarrow> ('k, 'u, 'z) tcp_state res" where
  "default_message_callback c w = andthen (get_input c w) (\<lambda>b. Inr (put_input c (RetrieveAll b) w))"

fun state_as_string :: "conn_state \<Rightarrow> string" where
  "state_as_string Disconnected = ''Disconnected''"
| "state_as_string Connecting = ''Connecting''"
| "state_as_string Connected = ''Connected''"
| "state_as_string Disconnecting = ''Disconnecting''"

subsection \<open>What the loop runs\<close>

fun exec_functor :: "'k conn_sys \<Rightarrow> ('k, 'u, 'z) user_fun \<Rightarrow> thread_id \<Rightarrow> 'u conn_fn \<Rightarrow> ('k, 'u, 'z) tcp_state \<Rightarrow> ('k, 'u, 'z) tcp_state res" where
  "exec_functor s user me (SendFn c msg) w = send_in_loop s user me c msg w"
| "exec_functor s user me (ShutdownFn c) w = shutdown_in_loop s me c w"
| "exec_functor s user me (ForceCloseFn c) w = force_close_in_loop s user me c w"
| "exec_functor s user me (StartReadFn c) w = start_read_in_loop s me c w"
| "exec_functor s user me (StopReadFn c) w = stop_read_in_loop s me c w"
| "exec_functor s user me (EstablishedFn c) w = ConnectionEstablished s user me c w"
| "exec_functor s user me (DestroyedFn c) w = ConnectionDestroyed s user me c w"
| "exec_functor s user me (CallFn u arg) w = user u arg w"

text \<open>The callbacks of the channels of other components are the parameter \<open>other\<close>.\<close>

fun run_callback :: "'k conn_sys \<Rightarrow> ('k, 'u, 'z) user_fun \<Rightarrow> errno \<Rightarrow> (conn_cb, ('k, 'u, 'z) tcp_state) run_fun \<Rightarrow> thread_id \<Rightarrow>
    (conn_cb, ('k, 'u, 'z) tcp_state) run_fun" where
  "run_callback s user old_errno other me (ReadCb c) t w = handle_read s user me c t w"
| "run_callback s user old_errno other me (WriteCb c) t w = handle_write s user old_errno me c w"
| "run_callback s user old_errno other me (CloseCb c) t w = handle_close s user me c w"
| "run_callback s user old_errno other me (ErrorCb c) t w = handle_error c w"
| "run_callback s user old_errno other me WakeupCb t w = Inr (reset_wakeup (loop_part s) w)"
| "run_callback s user old_errno other me TimerCb t w = other TimerCb t w"
| "run_callback s user old_errno other me AcceptCb t w = other AcceptCb t w"

end
