(* ===== verification/Connection_Inv.thy ===== *)
theory Connection_Inv
  imports TcpConnection
begin

text \<open>
  The invariant of the connections of a loop and its preservation by every operation of
  \<open>TcpConnection\<close>: the bytes the kernel took followed by the bytes still buffered are the bytes
  that were accepted for sending; write events are enabled exactly while something is buffered; the
  sending direction is shut down only when nothing is left; states only move forward.
\<close>

named_theorems tcp_ok \<open>operations that keep the invariant\<close>

subsection \<open>What the system calls promise\<close>

definition conn_sys_ok :: "'k conn_sys \<Rightarrow> ('k \<Rightarrow> fd \<rightharpoonup> epoll_event) \<Rightarrow> bool" where
  "conn_sys_ok s interest \<longleftrightarrow> epoll_ok (sys_ctl s) interest
     \<and> (\<forall>fd msg k. interest (snd (sys_send s fd msg k)) = interest k)
     \<and> (\<forall>fd msg k n. fst (sys_send s fd msg k) = SysOk n \<longrightarrow> n \<le> length msg)
     \<and> (\<forall>fd k iov. interest (snd (sys_readv s fd k iov)) = interest k)
     \<and> (\<forall>fd k. readv_ok (\<lambda>iov. fst (sys_readv s fd k iov)))
     \<and> (\<forall>fd how k. interest (snd (sys_shutdown s fd how k)) = interest k)
     \<and> (\<forall>fd level name v k. interest (snd (conn_setsockopt s fd level name v k)) = interest k)
     \<and> (\<forall>fd k. interest (snd (conn_close s fd k)) = (interest k)(fd := None))
     \<and> (\<forall>fd k. interest (snd (evfd_write s fd k)) = interest k)
     \<and> (\<forall>fd k. interest (snd (evfd_read s fd k)) = interest k)"

lemma conn_sys_okD:
  assumes "conn_sys_ok s interest"
  shows "epoll_ok (sys_ctl (loop_part s)) interest"
    "interest (snd (sys_send s fd msg k)) = interest k"
    "fst (sys_send s fd msg k) = SysOk n \<Longrightarrow> n \<le> length msg"
    "interest (snd (sys_readv s fd k iov)) = interest k"
    "readv_ok (\<lambda>iov. fst (sys_readv s fd k iov))"
    "interest (Socket_ShutdownWrite (sys_shutdown s) fd k) = interest k"
    "interest (snd (evfd_write (loop_part s) fd k)) = interest k"
    "interest (snd (evfd_read (loop_part s) fd k)) = interest k"
    "interest (SetKeepAlive (conn_setsockopt s) fd on k) = interest k" "interest (SetTcpNodelay (conn_setsockopt s) fd on k) = interest k"
    "interest (Socket_dtor (conn_close s) fd k) = (interest k)(fd := None)"
  using assms by (simp_all add: conn_sys_ok_def loop_part_def shutdown_keeps socket_calls_keep Socket_dtor_def sock_close_def case_prod_beta)

subsection \<open>The invariant\<close>

definition open_state :: "conn_state \<Rightarrow> bool" where
  "open_state st \<longleftrightarrow> st = Connected \<or> st = Disconnecting"

definition conn_ok :: "conn_cb channel \<Rightarrow> 'u connection \<Rightarrow> bool" where
  "conn_ok ch x \<longleftrightarrow> ch_fd ch = sockfd x \<and> buf_inv (input_buffer x) \<and> buf_inv (output_buffer x)
     \<and> (open_state (state x) \<longrightarrow> (IsWriteEvent ch \<longleftrightarrow> content (output_buffer x) \<noteq> [])
          \<and> sent x @ content (output_buffer x) = accepted x)
     \<and> (\<not> open_state (state x) \<longrightarrow> \<not> IsWriteEvent ch)
     \<and> (state x = Connecting \<longrightarrow> sent x = [] \<and> accepted x = [] \<and> content (output_buffer x) = [] \<and> \<not> shut_wr x)
     \<and> (shut_wr x \<longrightarrow> state x = Disconnected \<or> state x = Disconnecting \<and> content (output_buffer x) = [])
     \<and> (\<exists>rest. accepted x = sent x @ rest)"

definition tcp_inv :: "('k \<Rightarrow> fd \<rightharpoonup> epoll_event) \<Rightarrow> ('k, 'u, 'z) tcp_state \<Rightarrow> bool" where
  "tcp_inv interest w \<longleftrightarrow> loop_inv interest w
     \<and> (\<forall>c x. conns w c = Some x \<longrightarrow> (\<exists>ch. channel_heap w (conn_channel x) = Some ch \<and> conn_ok ch x))
     \<and> (\<forall>c d x y. conns w c = Some x \<longrightarrow> conns w d = Some y \<longrightarrow> conn_channel x = conn_channel y \<longrightarrow> c = d)"

fun rank :: "conn_state \<Rightarrow> nat" where
  "rank Connecting = 0"
| "rank Connected = 1"
| "rank Disconnecting = 2"
| "rank Disconnected = 3"

definition conn_forward :: "'u connection \<Rightarrow> 'u connection \<Rightarrow> bool" where
  "conn_forward x y \<longleftrightarrow> conn_channel y = conn_channel x \<and> sockfd y = sockfd x \<and> conn_name y = conn_name x
     \<and> rank (state x) \<le> rank (state y)
     \<and> (\<exists>r. sent y = sent x @ r) \<and> (\<exists>r. accepted y = accepted x @ r) \<and> (shut_wr x \<longrightarrow> shut_wr y)
     \<and> (2 \<le> rank (state x) \<longrightarrow> accepted y = accepted x) \<and> (3 \<le> rank (state x) \<longrightarrow> sent y = sent x)"

definition tcp_forward :: "('k, 'u, 'z) tcp_state \<Rightarrow> ('k, 'u, 'z) tcp_state \<Rightarrow> bool" where
  "tcp_forward w w' \<longleftrightarrow> thread_id w' = thread_id w \<and> this_loop w' = this_loop w
     \<and> (\<forall>c x. conns w c = Some x \<longrightarrow> (\<exists>y. conns w' c = Some y \<and> conn_forward x y))"

text \<open>The functors that the connections queue: a message fits into memory, and the functor of
  \<open>Shutdown\<close> belongs to a connection that has left the state \<open>Connected\<close>.\<close>

fun fn_ok :: "('k, 'u, 'z) tcp_state \<Rightarrow> 'u conn_fn \<Rightarrow> bool" where
  "fn_ok w (SendFn c msg) = (length msg \<le> vector_max)"
| "fn_ok w (ShutdownFn c) = (case conns w c of None \<Rightarrow> False | Some x \<Rightarrow> 2 \<le> rank (state x))"
| "fn_ok w _ = True"

definition pend_ok :: "('k, 'u, 'z) tcp_state \<Rightarrow> bool" where
  "pend_ok w \<longleftrightarrow> (\<forall>fn \<in> set (pendings w). fn_ok w fn)"

definition tcp_step :: "('k \<Rightarrow> fd \<rightharpoonup> epoll_event) \<Rightarrow> ('k, 'u, 'z) tcp_state \<Rightarrow> ('k, 'u, 'z) tcp_state \<Rightarrow> bool" where
  "tcp_step interest w w' \<longleftrightarrow> tcp_inv interest w' \<and> tcp_forward w w' \<and> (pend_ok w \<longrightarrow> pend_ok w')"

text \<open>What the callbacks may do: anything that keeps the invariant, lets the states only move
  forward, queues functors of the library as the library does, and destroys no connection.\<close>

definition user_ok :: "('k \<Rightarrow> fd \<rightharpoonup> epoll_event) \<Rightarrow> ('k, 'u, 'z) user_fun \<Rightarrow> bool" where
  "user_ok interest user \<longleftrightarrow> (\<forall>u arg w w'. tcp_inv interest w \<longrightarrow> user u arg w = Inr w' \<longrightarrow> tcp_step interest w w')"

lemma conn_forward_refl [simp]: "conn_forward x x"
  by (simp add: conn_forward_def)

lemma conn_forward_trans: "conn_forward x y \<Longrightarrow> conn_forward y z \<Longrightarrow> conn_forward x z"
  by (auto simp: conn_forward_def)

lemma tcp_step_refl: "tcp_inv interest w \<Longrightarrow> tcp_step interest w w"
  by (simp add: tcp_step_def tcp_forward_def)

lemma tcp_step_trans:
  assumes "tcp_step interest u v" "tcp_step interest v w"
  shows "tcp_step interest u w"
proof -
  have "\<exists>z. conns w c = Some z \<and> conn_forward x z" if "conns u c = Some x" for c x
    using that assms conn_forward_trans unfolding tcp_step_def tcp_forward_def by metis
  then show ?thesis
    using assms by (simp add: tcp_step_def tcp_forward_def)
qed

lemma tcp_stepD:
  assumes "tcp_step interest w w'"
  shows "tcp_inv interest w'" "IsInLoopThread me w' = IsInLoopThread me w"
    "conns w c = Some x \<Longrightarrow> \<exists>y. conns w' c = Some y \<and> conn_forward x y"
  using assms by (auto simp: tcp_step_def tcp_forward_def IsInLoopThread_def)

lemma fn_ok_forward: "fn_ok w fn \<Longrightarrow> tcp_forward w w' \<Longrightarrow> fn_ok w' fn"
  by (cases fn) (fastforce simp: tcp_forward_def conn_forward_def split: option.splits)+

lemma pend_ok_forward:
  assumes "tcp_forward w w'" "\<forall>fn \<in> set (pendings w'). fn \<in> set (pendings w) \<or> fn_ok w' fn" "pend_ok w"
  shows "pend_ok w'"
  using assms fn_ok_forward unfolding pend_ok_def by blast

lemma tcp_invD:
  assumes "tcp_inv interest w"
  shows "loop_inv interest w"
    "conns w c = Some x \<Longrightarrow> \<exists>ch. channel_heap w (conn_channel x) = Some ch \<and> conn_ok ch x"
    "conns w c = Some x \<Longrightarrow> conns w d = Some y \<Longrightarrow> conn_channel x = conn_channel y \<Longrightarrow> c = d"
  using assms unfolding tcp_inv_def by blast+

subsection \<open>One step on one connection\<close>

text \<open>A change of one connection and of its channel.\<close>

lemma tcp_step_one:
  assumes inv: "tcp_inv interest w" and x: "conns w c = Some x"
    and loop: "loop_inv interest w'" "thread_id w' = thread_id w" "this_loop w' = this_loop w"
    and conns: "conns w' = (conns w)(c \<mapsto> y)" "conn_forward x y"
    and heap: "\<And>q. q \<noteq> conn_channel x \<Longrightarrow> channel_heap w' q = channel_heap w q"
      "channel_heap w' (conn_channel x) = Some ch" "conn_ok ch y"
    and pend: "\<forall>fn \<in> set (pendings w'). fn \<in> set (pendings w) \<or> fn_ok w' fn"
  shows "tcp_step interest w w'"
proof -
  have chan: "conn_channel y = conn_channel x"
    using conns(2) by (simp add: conn_forward_def)
  have other: "\<exists>ch. channel_heap w' (conn_channel z) = Some ch \<and> conn_ok ch z" if z: "conns w d = Some z" "d \<noteq> c" for d z
  proof -
    have "conn_channel z \<noteq> conn_channel x"
      using tcp_invD(3) [OF inv z(1) x] z(2) by blast
    then show ?thesis
      using tcp_invD(2) [OF inv z(1)] heap(1) by simp
  qed
  have "tcp_inv interest w'"
    unfolding tcp_inv_def
  proof (intro conjI allI impI)
    fix d z assume "conns w' d = Some z"
    then show "\<exists>ch. channel_heap w' (conn_channel z) = Some ch \<and> conn_ok ch z"
      using other [of d z] conns(1) heap(2,3) chan by (cases "d = c") auto
  next
    fix d e z v assume eq: "conns w' d = Some z" "conns w' e = Some v" "conn_channel z = conn_channel v"
    have old: "\<exists>o'. conns w a = Some o' \<and> conn_channel o' = conn_channel b" if "conns w' a = Some b" for a b
      using that conns(1) x chan by (cases "a = c") auto
    obtain z' where z': "conns w d = Some z'" "conn_channel z' = conn_channel z"
      using old [OF eq(1)] by blast
    obtain v' where v': "conns w e = Some v'" "conn_channel v' = conn_channel v"
      using old [OF eq(2)] by blast
    show "d = e"
      using tcp_invD(3) [OF inv z'(1) v'(1)] z'(2) v'(2) eq(3) by simp
  qed (rule loop(1))
  moreover have "tcp_forward w w'"
    using loop(2,3) conns x by (auto simp: tcp_forward_def)
  ultimately show ?thesis
    using pend_ok_forward [OF _ pend] by (simp add: tcp_step_def)
qed

text \<open>Changes that touch neither connections nor channels.\<close>

lemma loop_inv_frame:
  "loop_inv interest (w\<lparr>pendings := ps\<rparr>) = loop_inv interest w"
  "loop_inv interest (w\<lparr>conns := cs\<rparr>) = loop_inv interest w"
  by (simp_all add: loop_inv_def poller_inv_def index_ok_def)

definition tcp_frame :: "('k \<Rightarrow> fd \<rightharpoonup> epoll_event) \<Rightarrow> ('k, 'u, 'z) tcp_state \<Rightarrow> ('k, 'u, 'z) tcp_state \<Rightarrow> bool" where
  "tcp_frame interest w w' \<longleftrightarrow> conns w' = conns w \<and> channel_heap w' = channel_heap w
     \<and> thread_id w' = thread_id w \<and> this_loop w' = this_loop w \<and> (loop_inv interest w \<longrightarrow> loop_inv interest w')
     \<and> (\<forall>fn \<in> set (pendings w'). fn \<in> set (pendings w) \<or> fn_ok w' fn)"

lemma fn_ok_conns: "conns w' = conns w \<Longrightarrow> fn_ok w' fn = fn_ok w fn"
  by (cases fn) simp_all

lemma tcp_frame_refl [simp]: "tcp_frame interest w w"
  by (simp add: tcp_frame_def)

lemma tcp_frame_step:
  assumes "tcp_inv interest w" "tcp_frame interest w w'"
  shows "tcp_step interest w w'"
proof -
  have "tcp_forward w w'"
    using assms(2) by (simp add: tcp_frame_def tcp_forward_def)
  then have "pend_ok w \<longrightarrow> pend_ok w'"
    using assms(2) pend_ok_forward by (auto simp: tcp_frame_def)
  then show ?thesis
    using assms \<open>tcp_forward w w'\<close> unfolding tcp_step_def tcp_inv_def tcp_frame_def by simp
qed

lemma tcp_frame_epoll: "interest k = interest (epoll w) \<Longrightarrow> tcp_frame interest w (w\<lparr>epoll := k\<rparr>)"
  by (simp add: tcp_frame_def loop_inv_epoll)

lemma tcp_frame_set_wakeup:
  assumes "conn_sys_ok s interest"
  shows "tcp_frame interest w (set_wakeup (loop_part s) w)" "tcp_frame interest w (reset_wakeup (loop_part s) w)"
  unfolding set_wakeup_def reset_wakeup_def by (simp_all add: tcp_frame_epoll conn_sys_okD [OF assms])

lemma tcp_frame_queue:
  fixes w :: "('k, 'u, 'z) tcp_state"
  assumes "conn_sys_ok s interest" "fn_ok w fn"
  shows "tcp_frame interest w (QueueInLoop (loop_part s) me fn w)"
proof -
  let ?v = "w\<lparr>pendings := pendings w @ [fn]\<rparr>"
  have fn: "fn_ok v fn" if "conns v = conns w" for v :: "('k, 'u, 'z) tcp_state"
    using assms(2) fn_ok_conns [OF that] by simp
  have "loop_inv interest ?v = loop_inv interest w"
    by (simp add: loop_inv_frame)
  then show ?thesis
    using tcp_frame_set_wakeup(1) [OF assms(1), of ?v] fn
    by (auto simp: QueueInLoop_def Let_def tcp_frame_def set_wakeup_def)
qed

lemma tcp_frame_queue_if_bound:
  "conn_sys_ok s interest \<Longrightarrow> tcp_frame interest w (queue_if_bound s me cb arg w)"
  by (simp add: queue_if_bound_def tcp_frame_queue split: option.split)

subsection \<open>Channel operations on a connection\<close>

text \<open>\<open>w0\<close> is \<open>w\<close> with a changed connection.\<close>

definition conn_changed :: "('k \<Rightarrow> fd \<rightharpoonup> epoll_event) \<Rightarrow> ptr \<Rightarrow> 'u connection \<Rightarrow> ('k, 'u, 'z) tcp_state \<Rightarrow> ('k, 'u, 'z) tcp_state \<Rightarrow> bool" where
  "conn_changed interest c y w w0 \<longleftrightarrow> conns w0 = (conns w)(c \<mapsto> y) \<and> channel_heap w0 = channel_heap w
     \<and> thread_id w0 = thread_id w \<and> this_loop w0 = this_loop w \<and> loop_inv interest w0
     \<and> (\<forall>fn \<in> set (pendings w0). fn \<in> set (pendings w) \<or> fn_ok w0 fn)"

lemma conn_changed_put:
  "loop_inv interest w \<Longrightarrow> conn_changed interest c y w (put_conn c y w)"
  by (simp add: conn_changed_def put_conn_def loop_inv_frame)

lemma conn_changed_frame:
  assumes "conn_changed interest c y w w0" "tcp_frame interest w0 w1"
  shows "conn_changed interest c y w w1"
proof -
  have "fn_ok w1 fn = fn_ok w0 fn" for fn
    using assms(2) by (intro fn_ok_conns) (simp add: tcp_frame_def)
  then show ?thesis
    using assms by (auto simp: conn_changed_def tcp_frame_def)
qed

lemma fn_ok_put:
  assumes "fn_ok w fn" "conns w c = Some y" "conn_forward y z"
  shows "fn_ok (put_conn c z w) fn"
  using assms(1) by (rule fn_ok_forward) (use assms(2,3) in \<open>auto simp: tcp_forward_def put_conn_def\<close>)

lemma conn_changed_again:
  assumes "conn_changed interest c y w w0" "conn_forward y z"
  shows "conn_changed interest c z w (put_conn c z w0)"
proof -
  have "fn_ok (put_conn c z w0) fn" if "fn_ok w0 fn" for fn
    using fn_ok_put [OF that _ assms(2)] assms(1) by (simp add: conn_changed_def)
  then show ?thesis
    using assms(1) by (auto simp: conn_changed_def put_conn_def loop_inv_frame)
qed

lemma conn_changed_put_frame:
  assumes "loop_inv interest w" "tcp_frame interest w w0" "conns w c = Some x" "conn_forward x y"
  shows "conn_changed interest c y w (put_conn c y w0)"
proof -
  have "fn_ok (put_conn c y w0) fn" if "fn_ok w0 fn" for fn
    using fn_ok_put [OF that _ assms(4)] assms(2,3) by (simp add: tcp_frame_def)
  then show ?thesis
    using assms(1,2) by (auto simp: conn_changed_def put_conn_def tcp_frame_def loop_inv_frame)
qed

lemma conn_changed_step:
  assumes "tcp_inv interest w" "conns w c = Some x" "conn_changed interest c y w w0" "conn_forward x y"
    "channel_heap w (conn_channel x) = Some ch" "conn_ok ch y"
  shows "tcp_step interest w w0"
  using assms by (intro tcp_step_one [OF assms(1,2)]) (auto simp: conn_changed_def)

lemma mask_step:
  assumes sys: "conn_sys_ok s interest" and inv: "tcp_inv interest w" and x: "conns w c = Some x"
    and me: "IsInLoopThread me w" and ch: "channel_heap w (conn_channel x) = Some ch"
    and w0: "conn_changed interest c y w w0" and f: "mask_only f" and fwd: "conn_forward x y"
    and ok: "conn_ok (masked f ch) y" and run: "update_mask (loop_part s) me f (conn_channel x) w0 = Inr w'"
  shows "tcp_step interest w w'" "conns w' = (conns w)(c \<mapsto> y)"
    "channel_heap w' = (channel_heap w)(conn_channel x \<mapsto> masked f ch)" "pendings w' = pendings w0"
proof -
  let ?p = "conn_channel x"
  have w0': "loop_inv interest w0" "IsInLoopThread me w0" "channel_heap w0 ?p = Some ch"
    using w0 me ch by (simp_all add: conn_changed_def IsInLoopThread_def)
  obtain k where k: "w' = channel_changed ?p (masked f ch) (Some ?p) k w0" "loop_inv interest w'"
    using update_mask_sync [OF conn_sys_okD(1) [OF sys] w0' f] run by auto
  then show "conns w' = (conns w)(c \<mapsto> y)" "channel_heap w' = (channel_heap w)(?p \<mapsto> masked f ch)" "pendings w' = pendings w0"
    using w0 by (simp_all add: conn_changed_def channel_changed_def)
  moreover have "fn_ok w' fn = fn_ok w0 fn" for fn
    using k(1) by (intro fn_ok_conns) (simp add: channel_changed_def)
  ultimately show "tcp_step interest w w'"
    using w0 k ok fwd by (intro tcp_step_one [OF inv x]) (auto simp: conn_changed_def channel_changed_def)
qed

subsection \<open>Closing\<close>

lemma call_cb_step:
  "user_ok interest user \<Longrightarrow> tcp_inv interest w \<Longrightarrow> call_cb user cb arg w = Inr w' \<Longrightarrow> tcp_step interest w w'"
  by (auto simp: user_ok_def call_cb_def split: option.splits)

lemma with_conn_Inr [res_simps]: "with_conn c w k = Inr y \<longleftrightarrow> (\<exists>x. conns w c = Some x \<and> k x = Inr y)"
  by (auto simp: with_conn_def split: option.split)

lemma AssertInLoopThread_Inr [res_simps]: "AssertInLoopThread me w k = Inr y \<longleftrightarrow> IsInLoopThread me w \<and> k = Inr y"
  by (simp add: AssertInLoopThread_def)

lemma conn_ok_closed:
  assumes "conn_ok ch x" "ch_fd ch' = ch_fd ch" "\<not> IsWriteEvent ch'"
  shows "conn_ok ch' (x\<lparr>state := Disconnected\<rparr>)"
  using assms by (auto simp: conn_ok_def open_state_def)

lemma conn_ok_openI:
  assumes "ch_fd ch = sockfd y" "buf_inv (input_buffer y)" "buf_inv (output_buffer y)" "open_state (state y)"
    "IsWriteEvent ch \<longleftrightarrow> content (output_buffer y) \<noteq> []" "sent y @ content (output_buffer y) = accepted y"
    "shut_wr y \<Longrightarrow> state y = Disconnecting \<and> content (output_buffer y) = []"
  shows "conn_ok ch y"
  using assms unfolding conn_ok_def open_state_def by (auto simp flip: assms(6))

lemma conn_forward_close: "conn_forward x (x\<lparr>state := Disconnected\<rparr>)"
  by (cases "state x") (simp_all add: conn_forward_def)

text \<open>Disabling all events of a connection that becomes disconnected.\<close>

lemma close_channel_step:
  assumes sys: "conn_sys_ok s interest" and inv: "tcp_inv interest w" and x: "conns w c = Some x"
    and me: "IsInLoopThread me w"
    and run: "DisableAllEvent (loop_part s) me (conn_channel x) (put_conn c (x\<lparr>state := Disconnected\<rparr>) w) = Inr w'"
  shows "tcp_step interest w w'" "conns w' = (conns w)(c \<mapsto> x\<lparr>state := Disconnected\<rparr>)"
proof -
  obtain ch where ch: "channel_heap w (conn_channel x) = Some ch" "conn_ok ch x"
    using tcp_invD(2) [OF inv x] by blast
  have ok: "conn_ok (masked disable_all ch) (x\<lparr>state := Disconnected\<rparr>)"
    using ch(2) by (rule conn_ok_closed) (simp_all add: mask_only_ops mask_onlyD(4))
  show "tcp_step interest w w'" "conns w' = (conns w)(c \<mapsto> x\<lparr>state := Disconnected\<rparr>)"
    using mask_step(1,2) [OF sys inv x me ch(1) conn_changed_put [OF tcp_invD(1) [OF inv]] mask_only_ops(5)
        conn_forward_close ok run [unfolded mask_operations]] by blast+
qed

lemma handle_close_step [tcp_ok]:
  assumes sys: "conn_sys_ok s interest" and user: "user_ok interest user" and inv: "tcp_inv interest w"
    and run: "handle_close s user me c w = Inr w'"
  shows "tcp_step interest w w'"
proof -
  obtain x where x: "conns w c = Some x" "IsInLoopThread me w"
    using run by (auto simp: handle_close_def res_simps)
  show ?thesis
  proof (cases "state x \<noteq> Connected \<and> state x \<noteq> Disconnecting")
    case True
    then show ?thesis
      using run x inv by (auto simp: handle_close_def res_simps tcp_step_refl)
  next
    case False
    then obtain w1 cb w2 cb' where w1: "DisableAllEvent (loop_part s) me (conn_channel x) (put_conn c (x\<lparr>state := Disconnected\<rparr>) w) = Inr w1"
      and w2: "call_cb user cb (ConnArg c) w1 = Inr w2" and w3: "call_cb user cb' (ConnArg c) w2 = Inr w'"
      using run x by (auto simp: handle_close_def res_simps)
    have s1: "tcp_step interest w w1"
      using close_channel_step(1) [OF sys inv x w1] .
    have s2: "tcp_step interest w1 w2"
      using call_cb_step [OF user tcp_stepD(1) [OF s1] w2] .
    have "tcp_step interest w2 w'"
      using call_cb_step [OF user tcp_stepD(1) [OF s2] w3] .
    then show ?thesis
      using s1 s2 tcp_step_trans by blast
  qed
qed

lemma tcp_step_frame_then:
  assumes "tcp_inv interest w" "tcp_frame interest w v" "tcp_inv interest v \<Longrightarrow> tcp_step interest v w'"
  shows "tcp_step interest w w'"
  using tcp_frame_step [OF assms(1,2)] assms(3) tcp_stepD(1) tcp_step_trans by blast

subsection \<open>Sending\<close>

lemma send_rest_step:
  assumes sys: "conn_sys_ok s interest" and inv: "tcp_inv interest w" and x: "conns w c = Some x"
    and me: "IsInLoopThread me w" and w0: "conn_changed interest c y w w0" "conn_forward x y"
    and y: "state y = Connected" "output_buffer y = output_buffer x" "input_buffer y = input_buffer x" "shut_wr y = shut_wr x"
      "sent y @ content (output_buffer x) @ take r (drop n msg) = accepted y" "state x = Connected"
    and r: "0 < r" "n + r \<le> length msg" "length msg \<le> vector_max"
    and run: "send_rest s me c msg n r w0 = Inr w'"
  shows "tcp_step interest w w'"
proof -
  obtain ch where ch: "channel_heap w (conn_channel x) = Some ch" "conn_ok ch x"
    using tcp_invD(2) [OF inv x] by blast
  have y0: "conns w0 c = Some y" "conn_channel y = conn_channel x"
    using w0 by (auto simp: conn_changed_def conn_forward_def)
  define w1 where "w1 = note_high_water s me c y r w0"
  have w1: "tcp_frame interest w0 w1"
    by (simp add: w1_def note_high_water_def Let_def tcp_frame_queue_if_bound [OF sys])
  obtain buf where app: "Append (output_buffer x) (take r (drop n msg)) = Inr buf"
    and w2: "with_channel channel_heap (conn_channel y) (put_conn c (y\<lparr>output_buffer := buf\<rparr>) w1) (\<lambda>ch.
        if \<not> IsWriteEvent ch then EnableWriteEvent (loop_part s) me (conn_channel y) (put_conn c (y\<lparr>output_buffer := buf\<rparr>) w1)
        else Inr (put_conn c (y\<lparr>output_buffer := buf\<rparr>) w1)) = Inr w'"
    using run y0(1) y(2) r(2) unfolding w1_def by (auto simp: send_rest_def Let_def with_conn_def andthen_eq_Inr mem_load_def)
  note w2 = w2 [unfolded y0(2)]
  let ?z = "y\<lparr>output_buffer := buf\<rparr>"
  let ?v = "put_conn c ?z w1"
  have v: "conn_changed interest c ?z w ?v"
    by (rule conn_changed_again [OF conn_changed_frame [OF w0(1) w1]]) (simp add: conn_forward_def)
  have buf: "buf_inv buf" "content buf = content (output_buffer x) @ take r (drop n msg)"
    using Append_ok [OF _ _ app] ch(2) r by (auto simp: conn_ok_def)
  have ne: "content buf \<noteq> []"
    using buf(2) r by simp
  have ok: "conn_ok ch' ?z" if "ch_fd ch' = ch_fd ch" "IsWriteEvent ch'" for ch'
  proof (rule conn_ok_openI)
    show "sent ?z @ content (output_buffer ?z) = accepted ?z"
      using y(5) buf(2) by simp
    show "ch_fd ch' = sockfd ?z" "shut_wr ?z \<Longrightarrow> state ?z = Disconnecting \<and> content (output_buffer ?z) = []"
      using ch(2) that(1) w0(2) y(4,6) by (auto simp: conn_ok_def conn_forward_def)
  qed (use ch(2) y that(2) buf(1) ne in \<open>simp_all add: conn_ok_def open_state_def\<close>)
  have fwd: "conn_forward x ?z"
    using w0(2) by (simp add: conn_forward_def)
  have heap: "channel_heap ?v (conn_channel x) = Some ch"
    using v ch(1) by (simp add: conn_changed_def)
  show ?thesis
  proof (cases "IsWriteEvent ch")
    case True
    then have "w' = ?v"
      using w2 heap by (simp add: with_channel_def)
    then show ?thesis
      using conn_changed_step [OF inv x v fwd ch(1)] ok [OF refl True] by blast
  next
    case False
    then have run': "update_mask (loop_part s) me enable_write (conn_channel x) ?v = Inr w'"
      using w2 heap by (simp add: with_channel_def mask_operations)
    have "conn_ok (masked enable_write ch) ?z"
      by (rule ok) (simp_all add: mask_only_ops mask_onlyD(4))
    then show ?thesis
      using mask_step(1) [OF sys inv x me ch(1) v mask_only_ops(3) fwd _ run'] by blast
  qed
qed

lemma conn_okD:
  assumes "conn_ok ch x"
  shows "ch_fd ch = sockfd x" "buf_inv (input_buffer x)" "buf_inv (output_buffer x)"
    "open_state (state x) \<Longrightarrow> IsWriteEvent ch \<longleftrightarrow> content (output_buffer x) \<noteq> []"
    "open_state (state x) \<Longrightarrow> sent x @ content (output_buffer x) = accepted x"
    "\<not> open_state (state x) \<Longrightarrow> \<not> IsWriteEvent ch"
    "shut_wr x \<Longrightarrow> state x = Disconnected \<or> state x = Disconnecting \<and> content (output_buffer x) = []"
  using assms by (simp_all add: conn_ok_def)

lemmas send_eval = send_in_loop_def with_conn_def AssertInLoopThread_def with_channel_def

text \<open>The kernel took a part of a message that was sent directly.\<close>

lemma send_taken_step:
  assumes sys: "conn_sys_ok s interest" and inv: "tcp_inv interest w" and x: "conns w c = Some x" "state x = Connected"
    and me: "IsInLoopThread me w" and ch: "channel_heap w (conn_channel x) = Some ch" "conn_ok ch x"
    and out: "content (output_buffer x) = []" and k: "tcp_frame interest w (w\<lparr>epoll := k\<rparr>)"
    and msg: "length msg \<le> vector_max" and n: "n \<le> length msg"
    and v: "v = put_conn c (x\<lparr>sent := sent x @ take n msg, accepted := accepted x @ msg\<rparr>) (w\<lparr>epoll := k\<rparr>)"
    and run: "(if length msg - n = 0 then Inr (queue_if_bound s me (on_write_complete x) (ConnArg c) v)
       else send_rest s me c msg n (length msg - n) v) = Inr w'"
  shows "tcp_step interest w w'"
proof -
  define y where "y = x\<lparr>sent := sent x @ take n msg, accepted := accepted x @ msg\<rparr>"
  have fwd: "conn_forward x y"
    using x(2) by (simp add: y_def conn_forward_def)
  then have v': "conn_changed interest c y w v"
    unfolding v y_def using conn_changed_put_frame [OF tcp_invD(1) [OF inv] k x(1)] by blast
  have stream: "sent x = accepted x" and shut: "\<not> shut_wr x"
    using conn_okD(5,7) [OF ch(2)] x(2) out by (auto simp: open_state_def)
  show ?thesis
  proof (cases "length msg = n")
    case True
    then have "conn_changed interest c y w w'"
      using run by (auto simp: conn_changed_frame [OF v'] tcp_frame_queue_if_bound [OF sys])
    moreover have "conn_ok ch y"
      using ch(2) True stream shut x(2) by (auto simp: y_def conn_ok_def open_state_def out)
    ultimately show ?thesis
      using conn_changed_step [OF inv x(1) _ fwd ch(1)] by blast
  next
    case False
    then have "send_rest s me c msg n (length msg - n) v = Inr w'"
      using run n by simp
    then show ?thesis
      using send_rest_step [OF sys inv x(1) me v' fwd _ _ _ _ _ x(2) _ _ msg, of "length msg - n" n w'] False n stream x(2) out
      by (simp add: y_def)
  qed
qed

text \<open>Nothing of the message has been sent.\<close>

lemma send_kept_step:
  assumes sys: "conn_sys_ok s interest" and inv: "tcp_inv interest w" and x: "conns w c = Some x" "state x = Connected"
    and me: "IsInLoopThread me w" and k: "tcp_frame interest w v" and msg: "length msg \<le> vector_max"
    and run: "(if length msg = 0 then Inr (put_conn c (x\<lparr>accepted := accepted x @ msg\<rparr>) v)
       else send_rest s me c msg 0 (length msg) (put_conn c (x\<lparr>accepted := accepted x @ msg\<rparr>) v)) = Inr w'"
  shows "tcp_step interest w w'"
proof -
  obtain ch where ch: "channel_heap w (conn_channel x) = Some ch" "conn_ok ch x"
    using tcp_invD(2) [OF inv x(1)] by blast
  let ?y = "x\<lparr>accepted := accepted x @ msg\<rparr>"
  have v: "conn_changed interest c ?y w (put_conn c ?y v)"
    by (rule conn_changed_put_frame [OF tcp_invD(1) [OF inv] k x(1)]) (simp add: conn_forward_def x(2))
  have stream: "sent x @ content (output_buffer x) = accepted x"
    using conn_okD(5) [OF ch(2)] x(2) by (simp add: open_state_def)
  show ?thesis
  proof (cases "msg = []")
    case True
    then show ?thesis
      using run conn_changed_step [OF inv x(1) v _ ch(1)] ch(2) by simp
  next
    case False
    then show ?thesis
      using run send_rest_step [OF sys inv x(1) me v _ _ _ _ _ _ x(2) _ _ msg, of "length msg" 0 w'] stream x(2)
      by (simp add: conn_forward_def)
  qed
qed

lemma send_in_loop_step [tcp_ok]:
  assumes sys: "conn_sys_ok s interest" and user: "user_ok interest user" and inv: "tcp_inv interest w"
    and msg: "length msg \<le> vector_max" and run: "send_in_loop s user me c msg w = Inr w'"
  shows "tcp_step interest w w'"
proof -
  obtain x where x: "conns w c = Some x" and me: "IsInLoopThread me w"
    using run by (auto simp: send_in_loop_def res_simps)
  obtain ch where ch: "channel_heap w (conn_channel x) = Some ch" "conn_ok ch x"
    using tcp_invD(2) [OF inv x] by blast
  obtain ret k where send: "sys_send s (ch_fd ch) msg (epoll w) = (ret, k)"
    by fastforce
  have k: "tcp_frame interest w (w\<lparr>epoll := k\<rparr>)"
    using conn_sys_okD(2) [OF sys, of "ch_fd ch" msg "epoll w"] send by (intro tcp_frame_epoll) simp
  consider (rejected) "state x \<noteq> Connected" | (buffered) "state x = Connected" "IsWriteEvent ch \<or> ReadableBytes (output_buffer x) \<noteq> 0"
    | (direct) "state x = Connected" "\<not> IsWriteEvent ch" "ReadableBytes (output_buffer x) = 0"
    by blast
  then show ?thesis
  proof cases
    case rejected
    then show ?thesis
      using run x me inv by (simp add: send_eval tcp_step_refl)
  next
    case buffered
    then show ?thesis
      using run x me ch(1) send_kept_step [OF sys inv x buffered(1) me tcp_frame_refl msg, of w']
      by (auto simp: send_eval Let_def)
  next
    case direct
    show ?thesis
    proof (cases ret)
      case (SysErr e)
      show ?thesis
      proof (cases "e = EPIPE \<or> e = ECONNRESET")
        case True
        then have "handle_close s user me c (w\<lparr>epoll := k\<rparr>) = Inr w'"
          using run x me ch(1) direct send SysErr by (auto simp: send_eval)
        then show ?thesis
          using tcp_step_frame_then [OF inv k] handle_close_step [OF sys user] by blast
      next
        case False
        then show ?thesis
          using run x me ch(1) direct send SysErr send_kept_step [OF sys inv x direct(1) me k msg, of w']
          by (simp add: send_eval Let_def)
      qed
    next
      case (SysOk n)
      have n: "n \<le> length msg"
        using conn_sys_okD(3) [OF sys, of "ch_fd ch" msg "epoll w" n] send SysOk by simp
      then have rem: "size_sub (length msg) n = length msg - n"
        using msg vector_max_less by (simp add: size_sub_exact)
      have "content (output_buffer x) = []"
        using direct(3) bq.empty_iff conn_okD(3) [OF ch(2)] by simp
      then show ?thesis
        using run x me ch(1) direct send SysOk rem send_taken_step [OF sys inv x direct(1) me ch _ k msg n refl, of w']
        by (cases "length msg - n = 0") (simp_all add: send_eval Let_def)
    qed
  qed
qed

lemma RunInLoop_step:
  assumes "conn_sys_ok s interest" "tcp_inv interest w" "fn_ok w fn" "RunInLoop (loop_part s) exec me fn w = Inr w'"
    "exec fn w = Inr w' \<Longrightarrow> tcp_step interest w w'"
  shows "tcp_step interest w w'"
  using assms(4,5) tcp_frame_step [OF assms(2) tcp_frame_queue [OF assms(1,3)]]
  by (auto simp: RunInLoop_def split: if_splits)

lemma Send_step [tcp_ok]:
  assumes "conn_sys_ok s interest" "user_ok interest user" "tcp_inv interest w" "length msg \<le> vector_max"
    "Send s user me c msg w = Inr w'"
  shows "tcp_step interest w w'"
proof -
  obtain x where x: "conns w c = Some x"
    using assms(5) by (auto simp: Send_def res_simps)
  show ?thesis
  proof (cases "state x = Connected")
    case True
    then have "RunInLoop (loop_part s) (\<lambda>fn. send_in_loop s user me c msg) me (SendFn c msg) w = Inr w'"
      using assms(5) x by (simp add: Send_def with_conn_def)
    then show ?thesis
      by (rule RunInLoop_step [OF assms(1,3), rotated]) (use assms send_in_loop_step in auto)
  next
    case False
    then show ?thesis
      using assms(5) x tcp_step_refl [OF assms(3)] by (simp add: Send_def with_conn_def)
  qed
qed

subsection \<open>Shutting down\<close>

lemma shutdown_in_loop_step:
  assumes sys: "conn_sys_ok s interest" and inv: "tcp_inv interest w" and x: "conns w c = Some x"
    and w0: "conn_changed interest c y w w0" "conn_forward x y" "channel_heap w (conn_channel x) = Some ch"
    and y: "conn_ok ch y" "state y = Disconnecting \<or> state y = Disconnected"
    and run: "shutdown_in_loop s me c w0 = Inr w'"
  shows "tcp_step interest w w'"
proof -
  have c0: "conns w0 c = Some y" "conn_channel y = conn_channel x" "channel_heap w0 (conn_channel y) = Some ch"
    using w0 by (auto simp: conn_changed_def conn_forward_def)
  show ?thesis
  proof (cases "IsWriteEvent ch")
    case True
    then have "w' = w0"
      using run c0 by (simp add: shutdown_in_loop_def res_simps)
    then show ?thesis
      using conn_changed_step [OF inv x w0 y(1)] by simp
  next
    case False
    define k where "k = Socket_ShutdownWrite (sys_shutdown s) (sockfd y) (epoll w0)"
    let ?z = "y\<lparr>shut_wr := True\<rparr>"
    have "w' = put_conn c ?z (w0\<lparr>epoll := k\<rparr>)"
      using run c0 False by (simp add: shutdown_in_loop_def res_simps ShutdownWrite_def k_def)
    moreover have "tcp_frame interest w0 (w0\<lparr>epoll := k\<rparr>)"
      by (intro tcp_frame_epoll) (simp add: k_def conn_sys_okD(6) [OF sys])
    ultimately have w': "conn_changed interest c ?z w w'"
      using conn_changed_again [OF conn_changed_frame [OF w0(1)], of _ ?z] by (simp add: conn_forward_def)
    have fwd: "conn_forward x ?z"
      using w0(2) by (simp add: conn_forward_def)
    have "conn_ok ch ?z"
      using y False by (auto simp: conn_ok_def open_state_def)
    then show ?thesis
      using conn_changed_step [OF inv x w' fwd w0(3)] by simp
  qed
qed

lemma Shutdown_step [tcp_ok]:
  assumes sys: "conn_sys_ok s interest" and inv: "tcp_inv interest w" and run: "Shutdown s me c w = Inr w'"
  shows "tcp_step interest w w'"
proof -
  obtain x where x: "conns w c = Some x"
    using run by (auto simp: Shutdown_def res_simps)
  obtain ch where ch: "channel_heap w (conn_channel x) = Some ch" "conn_ok ch x"
    using tcp_invD(2) [OF inv x] by blast
  show ?thesis
  proof (cases "state x = Connected")
    case False
    then show ?thesis
      using run x inv by (simp add: Shutdown_def res_simps tcp_step_refl)
  next
    case True
    let ?y = "x\<lparr>state := Disconnecting\<rparr>"
    have w0: "conn_changed interest c ?y w (put_conn c ?y w)" and fwd: "conn_forward x ?y"
      using True conn_changed_put [OF tcp_invD(1) [OF inv]] by (auto simp: conn_forward_def)
    have ok: "conn_ok ch ?y"
      using ch(2) True by (auto simp: conn_ok_def open_state_def)
    have "fn_ok (put_conn c ?y w) (ShutdownFn c)"
      by (simp add: put_conn_def)
    then have "tcp_step interest w (QueueInLoop (loop_part s) me (ShutdownFn c) (put_conn c ?y w))"
      using conn_changed_step [OF inv x conn_changed_frame [OF w0 tcp_frame_queue [OF sys]] fwd ch(1) ok] by blast
    then show ?thesis
      using run x True shutdown_in_loop_step [OF sys inv x w0 fwd ch(1) ok]
      by (auto simp: Shutdown_def res_simps RunInLoop_def split: if_splits)
  qed
qed

lemma shutdown_functor_step [tcp_ok]:
  assumes sys: "conn_sys_ok s interest" and inv: "tcp_inv interest w" and run: "shutdown_in_loop s me c w = Inr w'"
    and st: "\<And>x. conns w c = Some x \<Longrightarrow> state x = Disconnecting \<or> state x = Disconnected"
  shows "tcp_step interest w w'"
proof -
  obtain x where x: "conns w c = Some x"
    using run by (auto simp: shutdown_in_loop_def res_simps)
  obtain ch where ch: "channel_heap w (conn_channel x) = Some ch" "conn_ok ch x"
    using tcp_invD(2) [OF inv x] by blast
  have "conn_changed interest c x w w"
    using x tcp_invD(1) [OF inv] by (auto simp: conn_changed_def)
  then show ?thesis
    using shutdown_in_loop_step [OF sys inv x _ conn_forward_refl ch st [OF x] run] by blast
qed

lemma ForceClose_step [tcp_ok]:
  assumes sys: "conn_sys_ok s interest" and inv: "tcp_inv interest w" and run: "ForceClose s me c w = Inr w'"
  shows "tcp_step interest w w'"
proof -
  obtain x where x: "conns w c = Some x"
    using run by (auto simp: ForceClose_def res_simps)
  obtain ch where ch: "channel_heap w (conn_channel x) = Some ch" "conn_ok ch x"
    using tcp_invD(2) [OF inv x] by blast
  show ?thesis
  proof (cases "state x = Connected \<or> state x = Disconnecting")
    case False
    then show ?thesis
      using run x inv by (simp add: ForceClose_def res_simps tcp_step_refl)
  next
    case True
    let ?y = "x\<lparr>state := Disconnecting\<rparr>"
    have w0: "conn_changed interest c ?y w (put_conn c ?y w)" and fwd: "conn_forward x ?y"
      using True conn_changed_put [OF tcp_invD(1) [OF inv]] by (auto simp: conn_forward_def)
    have "conn_ok ch ?y"
      using ch(2) True by (auto simp: conn_ok_def open_state_def)
    then show ?thesis
      using conn_changed_step [OF inv x conn_changed_frame [OF w0 tcp_frame_queue [OF sys]] fwd ch(1), of "ForceCloseFn c"] run x True
      by (auto simp: ForceClose_def res_simps)
  qed
qed

lemma force_close_step [tcp_ok]:
  assumes "conn_sys_ok s interest" "user_ok interest user" "tcp_inv interest w" "force_close_in_loop s user me c w = Inr w'"
  shows "tcp_step interest w w'"
proof -
  have "handle_close s user me c w = Inr w' \<or> w' = w"
    using assms(4) by (auto simp: force_close_in_loop_def res_simps split: if_splits)
  then show ?thesis
    using handle_close_step [OF assms(1-3)] tcp_step_refl [OF assms(3)] by blast
qed

subsection \<open>Reading\<close>

text \<open>A change of the read events of an open connection or a closed one.\<close>

lemma conn_ok_read:
  assumes "conn_ok ch x" "ch_fd ch' = ch_fd ch" "IsWriteEvent ch' = IsWriteEvent ch"
  shows "conn_ok ch' (x\<lparr>reading := b\<rparr>)" "conn_ok ch' x"
  using assms by (simp_all add: conn_ok_def)

lemma read_mask_step:
  assumes sys: "conn_sys_ok s interest" and inv: "tcp_inv interest w" and x: "conns w c = Some x" and me: "IsInLoopThread me w"
    and f: "f = enable_read \<or> f = disable_read"
    and run: "andthen (update_mask (loop_part s) me f (conn_channel x) w) (\<lambda>w1.
        with_conn c w1 (\<lambda>x1. Inr (put_conn c (x1\<lparr>reading := b\<rparr>) w1))) = Inr w'"
  shows "tcp_step interest w w'"
proof -
  obtain ch where ch: "channel_heap w (conn_channel x) = Some ch" "conn_ok ch x"
    using tcp_invD(2) [OF inv x] by blast
  have mask: "mask_only f" and keep: "IsWriteEvent (f ch) = IsWriteEvent ch"
    using f mask_only_ops by auto
  have w0: "conn_changed interest c x w w"
    using x tcp_invD(1) [OF inv] by (auto simp: conn_changed_def)
  have ok: "conn_ok (masked f ch) x"
    using ch(2) mask keep by (intro conn_ok_read(2) [OF ch(2)]) (simp_all add: mask_onlyD(4))
  obtain w1 where w1: "update_mask (loop_part s) me f (conn_channel x) w = Inr w1"
    using run by (auto simp: andthen_eq_Inr)
  note step = mask_step [OF sys inv x me ch(1) w0 mask conn_forward_refl ok w1]
  have x1: "conns w1 c = Some x" "channel_heap w1 (conn_channel x) = Some (masked f ch)"
    using step(2,3) by simp_all
  let ?y = "x\<lparr>reading := b\<rparr>"
  have w': "w' = put_conn c ?y w1"
    using run w1 x1(1) by (simp add: with_conn_def)
  have "conn_changed interest c ?y w1 w'" "conn_ok (masked f ch) ?y" "conn_forward x ?y"
    using conn_changed_put [OF tcp_invD(1) [OF tcp_stepD(1) [OF step(1)]]] ok by (simp_all add: w' conn_ok_def conn_forward_def)
  then have "tcp_step interest w1 w'"
    using conn_changed_step [OF tcp_stepD(1) [OF step(1)] x1(1) _ _ x1(2)] by blast
  then show ?thesis
    using tcp_step_trans [OF step(1)] by blast
qed

lemma read_switch_step [tcp_ok]:
  assumes "conn_sys_ok s interest" "tcp_inv interest w"
    "start_read_in_loop s me c w = Inr w' \<or> stop_read_in_loop s me c w = Inr w'"
  shows "tcp_step interest w w'"
proof -
  obtain x where x: "conns w c = Some x" "IsInLoopThread me w"
    using assms(3) by (auto simp: start_read_in_loop_def stop_read_in_loop_def res_simps)
  have "w' = w \<or> (\<exists>f b. (f = enable_read \<or> f = disable_read)
      \<and> andthen (update_mask (loop_part s) me f (conn_channel x) w) (\<lambda>w1.
          with_conn c w1 (\<lambda>x1. Inr (put_conn c (x1\<lparr>reading := b\<rparr>) w1))) = Inr w')"
    using assms(3) x unfolding start_read_in_loop_def stop_read_in_loop_def mask_operations
    by (auto simp: with_conn_def [of c w] AssertInLoopThread_def with_channel_Inr split: if_splits)
  then show ?thesis
    using tcp_step_refl [OF assms(2)] read_mask_step [OF assms(1,2) x] by blast
qed

lemma StartRead_step [tcp_ok]:
  assumes "conn_sys_ok s interest" "tcp_inv interest w" "StartRead s me c w = Inr w' \<or> StopRead s me c w = Inr w'"
  shows "tcp_step interest w w'"
  using assms(3) RunInLoop_step [OF assms(1,2), of "StartReadFn c"] RunInLoop_step [OF assms(1,2), of "StopReadFn c"]
    read_switch_step [OF assms(1,2)] unfolding StartRead_def StopRead_def by (metis fn_ok.simps)

lemma handle_read_step [tcp_ok]:
  assumes sys: "conn_sys_ok s interest" and user: "user_ok interest user" and inv: "tcp_inv interest w"
    and run: "handle_read s user me c t w = Inr w'"
  shows "tcp_step interest w w'"
proof -
  obtain x where x: "conns w c = Some x" and me: "IsInLoopThread me w"
    using run by (auto simp: handle_read_def res_simps)
  obtain ch where ch: "channel_heap w (conn_channel x) = Some ch" "conn_ok ch x"
    using tcp_invD(2) [OF inv x] by blast
  let ?readv = "\<lambda>iov. fst (sys_readv s (ch_fd ch) (epoll w) iov)"
  define k where "k = snd (sys_readv s (ch_fd ch) (epoll w) (ReadFd_iov (input_buffer x)))"
  obtain n buf where rd: "ReadFd ?readv (input_buffer x) = Inr (n, buf)"
    and rest: "(case n of SysOk len \<Rightarrow> if 0 < len then call_cb user (on_message x) (MessageArg c t) (put_conn c (x\<lparr>input_buffer := buf\<rparr>) (w\<lparr>epoll := k\<rparr>))
        else handle_close s user me c (put_conn c (x\<lparr>input_buffer := buf\<rparr>) (w\<lparr>epoll := k\<rparr>))
      | SysErr e \<Rightarrow> if e = EAGAIN \<or> e = EINTR then Inr (put_conn c (x\<lparr>input_buffer := buf\<rparr>) (w\<lparr>epoll := k\<rparr>))
        else handle_close s user me c (put_conn c (x\<lparr>input_buffer := buf\<rparr>) (w\<lparr>epoll := k\<rparr>))) = Inr w'"
    using run x me ch(1) unfolding k_def
    by (auto simp: handle_read_def with_conn_def AssertInLoopThread_def with_channel_def andthen_eq_Inr Let_def)
  let ?w1 = "put_conn c (x\<lparr>input_buffer := buf\<rparr>) (w\<lparr>epoll := k\<rparr>)"
  have "buf_inv buf"
    using ReadFd_cases [OF conn_okD(2) [OF ch(2)] conn_sys_okD(5) [OF sys, of "ch_fd ch" "epoll w"]] rd conn_okD(2) [OF ch(2)] by auto
  then have ok: "conn_ok ch (x\<lparr>input_buffer := buf\<rparr>)"
    using ch(2) by (simp add: conn_ok_def)
  have "tcp_frame interest w (w\<lparr>epoll := k\<rparr>)"
    by (intro tcp_frame_epoll) (simp add: k_def conn_sys_okD(4) [OF sys])
  then have step: "tcp_step interest w ?w1"
    using conn_changed_step [OF inv x conn_changed_put_frame [OF tcp_invD(1) [OF inv] _ x] _ ch(1) ok] by (simp add: conn_forward_def)
  have "tcp_step interest ?w1 w'"
    using rest call_cb_step [OF user tcp_stepD(1) [OF step]] handle_close_step [OF sys user tcp_stepD(1) [OF step]]
      tcp_step_refl [OF tcp_stepD(1) [OF step]]
    by (auto split: sysret.splits if_splits)
  then show ?thesis
    using tcp_step_trans [OF step] by blast
qed

subsection \<open>Writing\<close>

lemma load_output: "buf_inv b \<Longrightarrow> mem_load (buffer_vec b) (Peek b) (ReadableBytes b) = Inr (content b)"
  using mem_load_content [OF buf_inv_wf, of b "length (content b)"] by (simp add: ReadableBytes_content buf_inv_wf)

text \<open>The kernel took \<open>n\<close> bytes of the output buffer.\<close>

lemma write_taken_step:
  assumes sys: "conn_sys_ok s interest" and inv: "tcp_inv interest w" and x: "conns w c = Some x" and me: "IsInLoopThread me w"
    and ch: "channel_heap w (conn_channel x) = Some ch" "conn_ok ch x" "IsWriteEvent ch"
    and k: "tcp_frame interest w v" and n: "n \<le> length (content (output_buffer x))" and buf: "Retrieve (output_buffer x) n = Inr buf"
    and y: "y = x\<lparr>output_buffer := buf, sent := sent x @ take n (content (output_buffer x))\<rparr>"
    and run: "(if 0 < ReadableBytes buf then Inr (put_conn c y v)
       else andthen (DisableWriteEvent (loop_part s) me (conn_channel x) (put_conn c y v)) (\<lambda>w3.
         let w4 = queue_if_bound s me (on_write_complete x) (ConnArg c) w3
         in if state x = Disconnecting then shutdown_in_loop s me c w4 else Inr w4)) = Inr w'"
  shows "tcp_step interest w w'"
proof -
  have op: "open_state (state x)"
    using conn_okD(6) [OF ch(2)] ch(3) by blast
  have buf': "buf_inv buf" "content buf = drop n (content (output_buffer x))"
    using bq.deq_abs [OF conn_okD(3) [OF ch(2)] n] buf by auto
  have fwd: "conn_forward x y"
    using op by (auto simp: y conn_forward_def open_state_def)
  then have w0: "conn_changed interest c y w (put_conn c y v)"
    by (rule conn_changed_put_frame [OF tcp_invD(1) [OF inv] k x])
  have shut: "\<not> shut_wr x"
    using conn_okD(4,7) [OF ch(2)] op ch(3) by (auto simp: open_state_def)
  have stream: "sent x @ content (output_buffer x) = accepted x"
    using conn_okD(5) [OF ch(2) op] .
  have ok: "conn_ok ch' y" if "ch_fd ch' = ch_fd ch" "IsWriteEvent ch' \<longleftrightarrow> content buf \<noteq> []" for ch'
    by (rule conn_ok_openI) (use that op shut stream buf' conn_okD(1,2) [OF ch(2)] in \<open>simp_all add: y\<close>)
  show ?thesis
  proof (cases "0 < ReadableBytes buf")
    case True
    then have "conn_ok ch y"
      using ok [of ch] ch(3) bq.readable_abs [OF buf'(1)] by simp
    then show ?thesis
      using run True conn_changed_step [OF inv x w0 fwd ch(1)] by simp
  next
    case False
    then have empty: "content buf = []"
      using bq.readable_abs [OF buf'(1)] by simp
    obtain w3 where w3: "update_mask (loop_part s) me disable_write (conn_channel x) (put_conn c y v) = Inr w3"
      using run False by (auto simp: andthen_eq_Inr mask_operations)
    have ok3: "conn_ok (masked disable_write ch) y"
      using ok [of "masked disable_write ch"] empty by (simp add: mask_only_ops mask_onlyD(4))
    note step = mask_step [OF sys inv x me ch(1) w0 mask_only_ops(4) fwd ok3 w3]
    define w4 where "w4 = queue_if_bound s me (on_write_complete x) (ConnArg c) w3"
    have fr: "tcp_frame interest w3 w4"
      by (simp add: w4_def tcp_frame_queue_if_bound [OF sys])
    have x3: "conns w3 c = Some y" "channel_heap w3 (conn_channel y) = Some (masked disable_write ch)"
      using step(2,3) by (simp_all add: y)
    have "conn_changed interest c y w3 w4"
      using fr x3(1) tcp_invD(1) [OF tcp_stepD(1) [OF step(1)]] by (auto simp: conn_changed_def tcp_frame_def)
    note shutdown = shutdown_in_loop_step [OF sys tcp_stepD(1) [OF step(1)] x3(1) this conn_forward_refl x3(2) ok3]
    have "tcp_step interest w3 w'"
      using run False w3 shutdown tcp_frame_step [OF tcp_stepD(1) [OF step(1)] fr]
      by (auto simp: mask_operations Let_def w4_def [symmetric] y split: if_splits)
    then show ?thesis
      using tcp_step_trans [OF step(1)] by blast
  qed
qed

lemma handle_write_step [tcp_ok]:
  assumes sys: "conn_sys_ok s interest" and user: "user_ok interest user" and inv: "tcp_inv interest w"
    and run: "handle_write s user old_errno me c w = Inr w'"
  shows "tcp_step interest w w'"
proof -
  obtain x where x: "conns w c = Some x" and me: "IsInLoopThread me w"
    using run by (auto simp: handle_write_def res_simps)
  obtain ch where ch: "channel_heap w (conn_channel x) = Some ch" "conn_ok ch x"
    using tcp_invD(2) [OF inv x] by blast
  note load = load_output [OF conn_okD(3) [OF ch(2)]]
  note eval = handle_write_def with_conn_def AssertInLoopThread_def with_channel_def
  show ?thesis
  proof (cases "IsWriteEvent ch")
    case False
    then show ?thesis
      using run x me ch(1) tcp_step_refl [OF inv] by (simp add: eval)
  next
    case wr: True
    let ?data = "content (output_buffer x)"
    obtain ret k where send: "sys_send s (ch_fd ch) ?data (epoll w) = (ret, k)"
      by fastforce
    have k: "tcp_frame interest w (w\<lparr>epoll := k\<rparr>)"
      using conn_sys_okD(2) [OF sys, of "ch_fd ch" ?data "epoll w"] send by (intro tcp_frame_epoll) simp
    have failed: "tcp_step interest w w'"
      if "(if e = EAGAIN \<or> e = EINTR then Inr (w\<lparr>epoll := k\<rparr>) else handle_close s user me c (w\<lparr>epoll := k\<rparr>)) = Inr w'" for e
      using that tcp_frame_step [OF inv k] tcp_step_frame_then [OF inv k] handle_close_step [OF sys user]
      by (auto split: if_splits)
    show ?thesis
    proof (cases "\<exists>n. ret = SysOk n \<and> n \<noteq> 0")
      case False
      then show ?thesis
        using run x me ch(1) wr send load failed by (cases ret) (simp_all add: eval Let_def)
    next
      case True
      then obtain n where n: "ret = SysOk n" "n \<noteq> 0"
        by blast
      then have "n \<le> length ?data"
        using conn_sys_okD(3) [OF sys, of "ch_fd ch" ?data "epoll w" n] send by simp
      then show ?thesis
        using run x me ch(1) wr send load n write_taken_step [OF sys inv x me ch wr k _ _ refl, of n]
        by (auto simp: eval Let_def andthen_eq_Inr)
    qed
  qed
qed

subsection \<open>Established and destroyed\<close>

lemma ConnectionEstablished_result:
  assumes sys: "conn_sys_ok s interest" and user: "user_ok interest user" and inv: "tcp_inv interest w"
    and run: "ConnectionEstablished s user me c w = Inr w'"
  shows "tcp_step interest w w'" "\<exists>y. conns w' c = Some y \<and> state y \<noteq> Connecting"
proof -
  obtain x where x: "conns w c = Some x" and me: "IsInLoopThread me w" and st: "state x = Connecting"
    using run by (auto simp: ConnectionEstablished_def res_simps)
  obtain ch where ch: "channel_heap w (conn_channel x) = Some ch" "conn_ok ch x"
    using tcp_invD(2) [OF inv x] by blast
  let ?p = "conn_channel x" and ?y = "x\<lparr>state := Connected\<rparr>"
  define v where "v = put_channel ?p (Tie c ch) w"
  have loop: "loop_inv interest v"
    unfolding v_def by (rule loop_inv_put [OF tcp_invD(1) [OF inv] ch(1)]) (simp_all add: Tie_def)
  have tie: "conn_ok (Tie c ch) x"
    using ch(2) by (simp add: conn_ok_def Tie_def IsWriteEvent_def)
  have v: "tcp_step interest w v"
    using tie x by (intro tcp_step_one [OF inv x loop]) (auto simp: v_def put_channel_def)
  have xv: "conns v c = Some x" "IsInLoopThread me v" "channel_heap v ?p = Some (Tie c ch)"
    using x me by (simp_all add: v_def put_channel_def IsInLoopThread_def)
  have w0: "conn_changed interest c ?y v (put_conn c ?y v)"
    using conn_changed_put [OF loop] .
  have fwd: "conn_forward x ?y" and ok: "conn_ok (masked enable_read (Tie c ch)) ?y"
    using st tie by (auto simp: conn_forward_def conn_ok_def open_state_def mask_only_ops mask_onlyD(4))
  have comm: "put_channel ?p (Tie c ch) (put_conn c ?y w) = put_conn c ?y v"
    by (simp add: v_def put_channel_def put_conn_def)
  obtain w1 cb where w1: "update_mask (loop_part s) me enable_read ?p (put_conn c ?y v) = Inr w1"
    and cb: "call_cb user cb (ConnArg c) w1 = Inr w'"
    using run x ch(1) unfolding comm [symmetric] by (auto simp: ConnectionEstablished_def res_simps mask_operations)
  note enabled = mask_step [OF sys tcp_stepD(1) [OF v] xv w0 mask_only_ops(1) fwd ok w1]
  have called: "tcp_step interest w1 w'"
    using call_cb_step [OF user tcp_stepD(1) [OF enabled(1)] cb] .
  then show "tcp_step interest w w'"
    using v enabled(1) tcp_step_trans by blast
  have "conns w1 c = Some ?y"
    by (simp add: enabled(2))
  from tcp_stepD(3) [OF called this] show "\<exists>y. conns w' c = Some y \<and> state y \<noteq> Connecting"
    by (auto simp: conn_forward_def)
qed

lemmas ConnectionEstablished_step [tcp_ok] = ConnectionEstablished_result(1)

lemma RemoveFromLoop_step:
  assumes sys: "conn_sys_ok s interest" and inv: "tcp_inv interest w" and x: "conns w c = Some x"
    and me: "IsInLoopThread me w" and run: "RemoveFromLoop (loop_part s) me (conn_channel x) w = Inr w'"
  shows "tcp_step interest w w'"
proof -
  obtain ch where ch: "channel_heap w (conn_channel x) = Some ch" "conn_ok ch x"
    using tcp_invD(2) [OF inv x] by blast
  let ?d = "ch\<lparr>added_in_loop := Some False, index := kNewChannel\<rparr>"
  obtain k where k: "w' = channel_changed (conn_channel x) ?d None k w" "loop_inv interest w'"
    using RemoveFromLoop_sync [OF conn_sys_okD(1) [OF sys] tcp_invD(1) [OF inv] me ch(1)] run by (auto split: if_splits)
  have "conn_ok ?d x"
    using ch(2) by (simp add: conn_ok_def)
  then show ?thesis
    using k x by (intro tcp_step_one [OF inv x k(2)]) (auto simp: channel_changed_def)
qed

lemma ConnectionDestroyed_step [tcp_ok]:
  assumes sys: "conn_sys_ok s interest" and user: "user_ok interest user" and inv: "tcp_inv interest w"
    and run: "ConnectionDestroyed s user me c w = Inr w'"
  shows "tcp_step interest w w'"
proof -
  obtain x where x: "conns w c = Some x" and me: "IsInLoopThread me w"
    using run by (auto simp: ConnectionDestroyed_def res_simps)
  obtain v where v: "(if state x = Connected
        then andthen (DisableAllEvent (loop_part s) me (conn_channel x) (put_conn c (x\<lparr>state := Disconnected\<rparr>) w)) (\<lambda>w1.
             with_conn c w1 (\<lambda>x1. call_cb user (on_connection x1) (ConnArg c) w1)) else Inr w) = Inr v"
    and rem: "with_conn c v (\<lambda>x2. RemoveFromLoop (loop_part s) me (conn_channel x2) v) = Inr w'"
    using run x me by (auto simp: ConnectionDestroyed_def with_conn_def [of c w] AssertInLoopThread_def andthen_eq_Inr)
  have s1: "tcp_step interest w v"
  proof (cases "state x = Connected")
    case True
    then obtain w1 cb where w1: "DisableAllEvent (loop_part s) me (conn_channel x) (put_conn c (x\<lparr>state := Disconnected\<rparr>) w) = Inr w1"
      and cb: "call_cb user cb (ConnArg c) w1 = Inr v"
      using v by (auto simp: res_simps)
    have "tcp_step interest w w1"
      using close_channel_step(1) [OF sys inv x me w1] .
    then show ?thesis
      using call_cb_step [OF user _ cb] tcp_stepD(1) tcp_step_trans by blast
  next
    case False
    then show ?thesis
      using v tcp_step_refl [OF inv] by simp
  qed
  obtain x2 where x2: "conns v c = Some x2" "RemoveFromLoop (loop_part s) me (conn_channel x2) v = Inr w'"
    using rem unfolding with_conn_Inr by blast
  have "tcp_step interest v w'"
    using RemoveFromLoop_step [OF sys tcp_stepD(1) [OF s1] x2(1) _ x2(2)] tcp_stepD(2) [OF s1] me by blast
  then show ?thesis
    using tcp_step_trans [OF s1] by blast
qed

subsection \<open>Sending a buffer\<close>

lemma RetrieveAll_inv:
  assumes "buf_inv b"
  shows "buf_inv (RetrieveAll b)" "content (RetrieveAll b) = []"
  using assms RetrieveAll_ok [OF buf_inv_wf [OF assms]] by (simp_all add: buf_inv_def RetrieveAll_def)

lemma RetrieveAllAsString_inv:
  assumes "buf_inv b" "RetrieveAllAsString b = Inr (message, b')"
  shows "buf_inv b'" "message = content b"
  using assms by (auto simp: RetrieveAllAsString_def RetrieveAsString_iff buf_inv_wf ReadableBytes_content buf_inv_def buf_wf_def
      content_def split: if_splits)

lemma content_max: "buf_inv b \<Longrightarrow> length (content b) \<le> vector_max"
  by (auto simp: buf_inv_def buf_wf_def content_def)

lemma put_input_step:
  assumes inv: "tcp_inv interest w" and x: "conns w d = Some x" and b: "buf_inv b"
  shows "tcp_step interest w (put_input d b w)"
proof -
  obtain ch where ch: "channel_heap w (conn_channel x) = Some ch" "conn_ok ch x"
    using tcp_invD(2) [OF inv x] by blast
  have "conn_ok ch (x\<lparr>input_buffer := b\<rparr>)" "conn_forward x (x\<lparr>input_buffer := b\<rparr>)"
    using ch(2) b by (simp_all add: conn_ok_def conn_forward_def)
  then show ?thesis
    using conn_changed_step [OF inv x conn_changed_put [OF tcp_invD(1) [OF inv]] _ ch(1)] x by (simp add: put_input_def)
qed

lemma Send_buffer_step [tcp_ok]:
  assumes sys: "conn_sys_ok s interest" and user: "user_ok interest user" and inv: "tcp_inv interest w"
    and run: "Send_buffer s user me c (get_input d) (put_input d) w = Inr w'"
  shows "tcp_step interest w w'"
proof -
  obtain x where x: "conns w c = Some x"
    using run by (auto simp: Send_buffer_def res_simps)
  show ?thesis
  proof (cases "state x = Connected")
    case False
    then show ?thesis
      using run x tcp_step_refl [OF inv] by (simp add: Send_buffer_def with_conn_def)
  next
    case True
    then obtain z where z: "conns w d = Some z"
      using run x by (auto simp: Send_buffer_def get_input_def res_simps with_conn_def split: option.splits)
    have b: "buf_inv (input_buffer z)"
      using tcp_invD(2) [OF inv z] conn_okD(2) by blast
    show ?thesis
    proof (cases "IsInLoopThread me w")
      case True
      obtain w1 y where w1: "send_in_loop s user me c (content (input_buffer z)) w = Inr w1"
        and y: "conns w1 d = Some y" "w' = put_input d (RetrieveAll (input_buffer y)) w1"
        using run x z \<open>state x = Connected\<close> True load_output [OF b]
        by (auto simp: Send_buffer_def get_input_def with_conn_def andthen_eq_Inr split: option.splits)
      have s1: "tcp_step interest w w1"
        using send_in_loop_step [OF sys user inv content_max [OF b] w1] .
      have "buf_inv (input_buffer y)"
        using tcp_invD(2) [OF tcp_stepD(1) [OF s1] y(1)] conn_okD(2) by blast
      then show ?thesis
        using put_input_step [OF tcp_stepD(1) [OF s1] y(1) RetrieveAll_inv(1)] s1 y(2) tcp_step_trans by blast
    next
      case False
      obtain message b1 where m: "RetrieveAllAsString (input_buffer z) = Inr (message, b1)"
        and q: "RunInLoop (loop_part s) (\<lambda>fn. send_in_loop s user me c message) me (SendFn c message) (put_input d b1 w) = Inr w'"
        using run x z \<open>state x = Connected\<close> False
        by (auto simp: Send_buffer_def get_input_def with_conn_def andthen_eq_Inr split: option.splits)
      note s1 = put_input_step [OF inv z RetrieveAllAsString_inv(1) [OF b m]]
      have "length message \<le> vector_max"
        using content_max [OF b] RetrieveAllAsString_inv(2) [OF b m] by simp
      then have "tcp_step interest (put_input d b1 w) w'"
        using RunInLoop_step [OF sys tcp_stepD(1) [OF s1] _ q] send_in_loop_step [OF sys user tcp_stepD(1) [OF s1]] by simp
      then show ?thesis
        using s1 tcp_step_trans by blast
    qed
  qed
qed

subsection \<open>Options\<close>

lemma SetTcpNoDelay_step [tcp_ok]:
  assumes "conn_sys_ok s interest" "tcp_inv interest w" "SetTcpNoDelay s c on w = Inr w'"
  shows "tcp_step interest w w'"
proof -
  obtain x where x: "conns w c = Some x" "w' = w\<lparr>epoll := SetTcpNodelay (conn_setsockopt s) (sockfd x) on (epoll w)\<rparr>"
    using assms(3) by (auto simp: SetTcpNoDelay_def res_simps)
  have "tcp_frame interest w w'"
    unfolding x(2) by (rule tcp_frame_epoll) (rule conn_sys_okD(10) [OF assms(1)])
  then show ?thesis
    by (rule tcp_frame_step [OF assms(2)])
qed

end
