(* ===== verification/Connection_Runs.thy ===== *)
theory Connection_Runs
  imports Connection_Inv
begin

text \<open>
  Runs of a loop with connections: iterations of the loop, which read, write, close and execute
  functors, in any order with calls of \<open>Send\<close>, \<open>Shutdown\<close>, \<open>ForceClose\<close>, \<open>StartRead\<close>,
  \<open>StopRead\<close> and \<open>SetTcpNoDelay\<close> by any thread. The buffer given to \<open>Send\<close> is the input buffer of
  some connection.
\<close>

subsection \<open>Operations\<close>

datatype 'u tcp_op = LoopIter "'u conn_fn loop_input"
  | SendOp thread_id ptr "byte list" | ShutdownOp thread_id ptr | ForceCloseOp thread_id ptr
  | StartReadOp thread_id ptr | StopReadOp thread_id ptr | SendBufferOp thread_id ptr ptr | NoDelayOp ptr bool

text \<open>The channel of a connection is tied to it (\<open>weak_ptr\<close>).\<close>

definition conn_alive :: "('k, 'u, 'z) tcp_state \<Rightarrow> ptr \<Rightarrow> bool" where
  "conn_alive w c \<longleftrightarrow> conns w c \<noteq> None"

fun tcp_exec :: "'k conn_sys \<Rightarrow> ('k, 'u, 'z) user_fun \<Rightarrow> errno \<Rightarrow> (conn_cb, ('k, 'u, 'z) tcp_state) run_fun \<Rightarrow>
    'u tcp_op \<Rightarrow> ('k, 'u, 'z) tcp_state \<Rightarrow> ('k, 'u, 'z) tcp_state res" where
  "tcp_exec s user e other (LoopIter i) w =
     loop_iter (loop_part s) (run_callback s user e other (thread_id w)) conn_alive (exec_functor s user (thread_id w)) i w"
| "tcp_exec s user e other (SendOp t c msg) w = Send s user t c msg w"
| "tcp_exec s user e other (ShutdownOp t c) w = Shutdown s t c w"
| "tcp_exec s user e other (ForceCloseOp t c) w = ForceClose s t c w"
| "tcp_exec s user e other (StartReadOp t c) w = StartRead s t c w"
| "tcp_exec s user e other (StopReadOp t c) w = StopRead s t c w"
| "tcp_exec s user e other (SendBufferOp t c d) w = Send_buffer s user t c (get_input d) (put_input d) w"
| "tcp_exec s user e other (NoDelayOp c on) w = SetTcpNoDelay s c on w"

fun tcp_exec_list :: "'k conn_sys \<Rightarrow> ('k, 'u, 'z) user_fun \<Rightarrow> errno \<Rightarrow> (conn_cb, ('k, 'u, 'z) tcp_state) run_fun \<Rightarrow>
    'u tcp_op list \<Rightarrow> ('k, 'u, 'z) tcp_state \<Rightarrow> ('k, 'u, 'z) tcp_state res" where
  "tcp_exec_list s user e other [] w = Inr w"
| "tcp_exec_list s user e other (op # ops) w = andthen (tcp_exec s user e other op w) (tcp_exec_list s user e other ops)"

text \<open>Messages fit into memory; other threads queue functors of their own.\<close>

fun remote_ok :: "'u conn_fn remote \<Rightarrow> bool" where
  "remote_ok (RemoteQueue t (SendFn c msg)) = (length msg \<le> vector_max)"
| "remote_ok (RemoteQueue t (ShutdownFn c)) = False"
| "remote_ok _ = True"

fun op_ok :: "'u tcp_op \<Rightarrow> bool" where
  "op_ok (LoopIter i) = list_all remote_ok (in_remote i)"
| "op_ok (SendOp t c msg) = (length msg \<le> vector_max)"
| "op_ok _ = True"

definition other_ok :: "('k \<Rightarrow> fd \<rightharpoonup> epoll_event) \<Rightarrow> (conn_cb, ('k, 'u, 'z) tcp_state) run_fun \<Rightarrow> bool" where
  "other_ok interest other \<longleftrightarrow> (\<forall>cb t w w'. tcp_inv interest w \<longrightarrow> other cb t w = Inr w' \<longrightarrow> tcp_step interest w w')"

subsection \<open>One iteration of the loop\<close>

lemma put_same_step:
  assumes inv: "tcp_inv interest w" and ch: "channel_heap w p = Some ch"
    and c: "ch_fd c = ch_fd ch" "ch_loop c = ch_loop ch" "index c = index ch" "events c = events ch"
  shows "tcp_step interest w (put_channel p c w)"
proof -
  let ?w = "put_channel p c w"
  have same: "conns ?w = conns w" "thread_id ?w = thread_id w" "this_loop ?w = this_loop w"
    by (simp_all add: put_channel_def)
  have "\<exists>d. channel_heap ?w (conn_channel x) = Some d \<and> conn_ok d x" if "conns w a = Some x" for a x
    using tcp_invD(2) [OF inv that] ch c by (cases "conn_channel x = p") (auto simp: conn_ok_def IsWriteEvent_def)
  moreover have "loop_inv interest ?w"
    using loop_inv_put [OF tcp_invD(1) [OF inv] ch c] .
  ultimately have "tcp_inv interest ?w"
    using tcp_invD(3) [OF inv] unfolding tcp_inv_def same by blast
  moreover have fwd: "tcp_forward w ?w"
    by (simp add: tcp_forward_def same)
  ultimately show ?thesis
    using pend_ok_forward [OF fwd] by (simp add: tcp_step_def)
qed

lemma loop_inv_members:
  "loop_inv interest (w\<lparr>active_channels := a\<rparr>) = loop_inv interest w"
  "loop_inv interest (w\<lparr>poll_return_time := t\<rparr>) = loop_inv interest w"
  "loop_inv interest (w\<lparr>loop_event_handing := b\<rparr>) = loop_inv interest w"
  "loop_inv interest (w\<lparr>current_active_channel := d\<rparr>) = loop_inv interest w"
  "loop_inv interest (w\<lparr>calling_pendings := b\<rparr>) = loop_inv interest w"
  "loop_inv interest (w\<lparr>quitting := b\<rparr>) = loop_inv interest w"
  "loop_inv interest (w\<lparr>pendings := fs\<rparr>) = loop_inv interest w"
  by (simp_all add: loop_inv_def poller_inv_def index_ok_def)

lemma loop_inv_events_size:
  "loop_inv interest w \<Longrightarrow> kEventsSize \<le> n \<Longrightarrow> loop_inv interest (w\<lparr>events_size := n\<rparr>)"
  by (simp add: loop_inv_def poller_inv_def index_ok_def)

lemma tcp_frame_members:
  "tcp_frame interest w (w\<lparr>active_channels := a\<rparr>)" "tcp_frame interest w (w\<lparr>current_active_channel := d\<rparr>)"
  "tcp_frame interest w (w\<lparr>calling_pendings := b\<rparr>)" "tcp_frame interest w (w\<lparr>quitting := b\<rparr>)"
  "tcp_frame interest w (w\<lparr>active_channels := a, poll_return_time := t, loop_event_handing := b\<rparr>)"
  "tcp_frame interest w (w\<lparr>current_active_channel := d, loop_event_handing := b, calling_pendings := b', pendings := []\<rparr>)"
  by (simp_all add: tcp_frame_def loop_inv_members)

lemma fill_actives_step:
  "tcp_inv interest w \<Longrightarrow> fill_actives evs acts w = Inr (acts', w') \<Longrightarrow>
     tcp_step interest w w' \<and> events_size w' = events_size w"
proof (induction evs acts w rule: fill_actives.induct)
  case (1 acts w)
  then show ?case
    by (simp add: tcp_step_refl)
next
  case (2 ev p evs acts w)
  obtain ch where ch: "channel_heap w p = Some ch"
    "fill_actives evs (acts @ [p]) (put_channel p (ch\<lparr>revents := ev\<rparr>) w) = Inr (acts', w')"
    using "2.prems"(2) by (auto simp: res_simps)
  have step: "tcp_step interest w (put_channel p (ch\<lparr>revents := ev\<rparr>) w)"
    by (rule put_same_step [OF "2.prems"(1) ch(1)]) simp_all
  then show ?case
    using "2.IH" [OF tcp_stepD(1) [OF step] ch(2)] tcp_step_trans [OF step] by (auto simp: put_channel_def)
qed

lemma Poll_step:
  assumes inv: "tcp_inv interest w" and run: "Poll wait now acts w = Inr (t, acts', w')"
  shows "tcp_step interest w w'"
proof -
  consider "w' = w" | evs v where "fill_actives evs acts w = Inr (acts', v)"
    "w' = (if events_size v = length evs then v\<lparr>events_size := length evs + length evs div 2\<rparr> else v)"
    using run by (auto simp: Poll_def res_simps split: sysret.splits if_splits)
  then show ?thesis
  proof cases
    case 1
    then show ?thesis
      using tcp_step_refl [OF inv] by simp
  next
    case 2
    have step: "tcp_step interest w v" and size: "events_size v = events_size w"
      using fill_actives_step [OF inv 2(1)] by simp_all
    have "kEventsSize \<le> events_size v"
      using poller_invD(4) [OF loop_invD(1) [OF tcp_invD(1) [OF inv]]] size by simp
    then have "tcp_frame interest v w'"
      using 2(2) loop_inv_events_size [of interest v "length evs + length evs div 2"] by (simp add: tcp_frame_def)
    then show ?thesis
      using tcp_frame_step [OF tcp_stepD(1) [OF step]] tcp_step_trans [OF step] by blast
  qed
qed

lemma remote_steps:
  assumes sys: "conn_sys_ok s interest"
  shows "tcp_inv interest w \<Longrightarrow> list_all remote_ok rs \<Longrightarrow> tcp_step interest w (fold (remote_step (loop_part s)) rs w)"
proof (induction rs arbitrary: w)
  case Nil
  then show ?case
    by (simp add: tcp_step_refl)
next
  case (Cons r rs)
  have "tcp_frame interest w (remote_step (loop_part s) r w)"
  proof (cases r)
    case (RemoteQueue t fn)
    then have "fn_ok w fn"
      using Cons.prems(2) by (cases fn) simp_all
    then show ?thesis
      using RemoteQueue tcp_frame_queue [OF sys] by simp
  next
    case (RemoteStop t)
    have "tcp_frame interest w (set_wakeup (loop_part s) (w\<lparr>quitting := True\<rparr>))"
      using tcp_frame_set_wakeup(1) [OF sys, of "w\<lparr>quitting := True\<rparr>"] by (simp add: tcp_frame_def loop_inv_members)
    then show ?thesis
      using RemoteStop by (simp add: Stop_def Let_def tcp_frame_members)
  qed
  then have step: "tcp_step interest w (remote_step (loop_part s) r w)"
    by (rule tcp_frame_step [OF Cons.prems(1)])
  show ?case
    using tcp_step_trans [OF step] Cons.IH [OF tcp_stepD(1) [OF step]] Cons.prems(2) by simp
qed

lemma run_callback_step:
  assumes "conn_sys_ok s interest" "user_ok interest user" "other_ok interest other" "tcp_inv interest w"
    "run_callback s user e other me cb t w = Inr w'"
  shows "tcp_step interest w w'"
  using assms(5)
proof (cases cb)
  case WakeupCb
  then show ?thesis
    using assms(5) tcp_frame_step [OF assms(4) tcp_frame_set_wakeup(2) [OF assms(1)]] by simp
next
  case (ErrorCb c)
  then show ?thesis
    using assms(4,5) by (auto simp: handle_error_def res_simps tcp_step_refl)
qed (use assms handle_read_step handle_write_step handle_close_step in \<open>auto simp: other_ok_def\<close>)

lemma handle_actives_step:
  assumes "conn_sys_ok s interest" "user_ok interest user" "other_ok interest other" "tcp_inv interest w"
    "handle_actives (run_callback s user e other me) conn_alive ps w = Inr w'"
  shows "tcp_step interest w w'"
proof (rule handle_actives_keeps [where P = "tcp_step interest w", OF _ _ _ _ assms(5)])
  show "run_keeps (tcp_step interest w) (run_callback s user e other me)"
    using run_callback_step [OF assms(1-3)] tcp_stepD(1) tcp_step_trans unfolding run_keeps_def by metis
  show "tcp_step interest w (put_channel p (ch\<lparr>event_handing := h\<rparr>) v)"
    if "tcp_step interest w v" "channel_heap v p = Some ch" for p ch h v
    by (rule tcp_step_trans [OF that(1) put_same_step [OF tcp_stepD(1) [OF that(1)] that(2)]]) simp_all
  show "tcp_step interest w (v\<lparr>current_active_channel := p\<rparr>)" if "tcp_step interest w v" for p v
    using tcp_step_trans [OF that tcp_frame_step [OF tcp_stepD(1) [OF that] tcp_frame_members(2)]] .
qed (rule tcp_step_refl [OF assms(4)])

lemma exec_functor_step:
  assumes "conn_sys_ok s interest" "user_ok interest user" "tcp_inv interest w" "fn_ok w fn"
    "exec_functor s user me fn w = Inr w'"
  shows "tcp_step interest w w'"
proof (cases fn)
  case (ShutdownFn c)
  have "state x = Disconnecting \<or> state x = Disconnected" if "conns w c = Some x" for x
    using assms(4) ShutdownFn that by (cases "state x") simp_all
  then show ?thesis
    using ShutdownFn assms(5) shutdown_functor_step [OF assms(1,3)] by simp
next
  case (SendFn c msg)
  then show ?thesis
    using assms send_in_loop_step by auto
next
  case (ForceCloseFn c)
  then show ?thesis
    using assms force_close_step by auto
next
  case (StartReadFn c)
  then show ?thesis
    using assms(5) read_switch_step [OF assms(1,3)] by (metis exec_functor.simps(4,5))
next
  case (StopReadFn c)
  then show ?thesis
    using assms(5) read_switch_step [OF assms(1,3)] by (metis exec_functor.simps(4,5))
next
  case (EstablishedFn c)
  then show ?thesis
    using assms ConnectionEstablished_step by auto
next
  case (DestroyedFn c)
  then show ?thesis
    using assms ConnectionDestroyed_step by auto
next
  case (CallFn u arg)
  then show ?thesis
    using assms(2,3,5) unfolding user_ok_def by auto
qed

lemma run_pendings_step:
  assumes "conn_sys_ok s interest" "user_ok interest user"
  shows "tcp_inv interest w \<Longrightarrow> \<forall>fn \<in> set fs. fn_ok w fn \<Longrightarrow> run_pendings (exec_functor s user me) fs w = Inr w' \<Longrightarrow>
    tcp_step interest w w'"
proof (induction fs arbitrary: w)
  case Nil
  then show ?case
    by (simp add: tcp_step_refl)
next
  case (Cons f fs)
  obtain w1 where w1: "exec_functor s user me f w = Inr w1" "run_pendings (exec_functor s user me) fs w1 = Inr w'"
    using Cons.prems(3) by (auto simp: res_simps)
  have step: "tcp_step interest w w1"
    using exec_functor_step [OF assms Cons.prems(1) _ w1(1)] Cons.prems(2) by simp
  have "\<forall>fn \<in> set fs. fn_ok w1 fn"
    using Cons.prems(2) step fn_ok_forward unfolding tcp_step_def by auto
  then show ?case
    using tcp_step_trans [OF step] Cons.IH [OF tcp_stepD(1) [OF step] _ w1(2)] by blast
qed

lemma loop_iter_step:
  assumes sys: "conn_sys_ok s interest" and user: "user_ok interest user" and other: "other_ok interest other"
    and inv: "tcp_inv interest w" and pend: "pend_ok w" and rem: "list_all remote_ok (in_remote i)"
    and run: "loop_iter (loop_part s) (run_callback s user e other me) conn_alive (exec_functor s user me) i w = Inr w'"
  shows "tcp_step interest w w'"
proof -
  define w0 where "w0 = fold (remote_step (loop_part s)) (in_remote i) (w\<lparr>active_channels := []\<rparr>)"
  have s0: "tcp_step interest w (w\<lparr>active_channels := []\<rparr>)"
    using tcp_frame_step [OF inv tcp_frame_members(1)] .
  then have s1: "tcp_step interest w w0"
    unfolding w0_def using remote_steps [OF sys _ rem] tcp_stepD(1) tcp_step_trans by blast
  obtain now acts w1 w2 w3 where
    poll: "Poll (in_wait i) (in_now i) [] w0 = Inr (now, acts, w1)"
    and acts: "handle_actives (run_callback s user e other me) conn_alive acts
      (w1\<lparr>active_channels := acts, poll_return_time := now, loop_event_handing := True\<rparr>) = Inr w2"
    and run': "run_pendings (exec_functor s user me) (pendings w2) (w2\<lparr>current_active_channel := None, loop_event_handing := False,
        calling_pendings := True, pendings := []\<rparr>) = Inr w3"
    and w': "w' = w3\<lparr>calling_pendings := False\<rparr>"
    using run by (auto simp: loop_iter_def res_simps w0_def)
  have s2: "tcp_step interest w w1"
    using tcp_step_trans [OF s1 Poll_step [OF tcp_stepD(1) [OF s1] poll]] .
  note s3 = tcp_step_trans [OF s2 tcp_frame_step [OF tcp_stepD(1) [OF s2] tcp_frame_members(5)]]
  note s4 = tcp_step_trans [OF s3 handle_actives_step [OF sys user other tcp_stepD(1) [OF s3] acts]]
  let ?v = "w2\<lparr>current_active_channel := None, loop_event_handing := False, calling_pendings := True, pendings := []\<rparr>"
  note s5 = tcp_step_trans [OF s4 tcp_frame_step [OF tcp_stepD(1) [OF s4] tcp_frame_members(6)]]
  have "fn_ok ?v fn = fn_ok w2 fn" for fn
    by (intro fn_ok_conns) simp
  then have "\<forall>fn \<in> set (pendings w2). fn_ok ?v fn"
    using s4 pend by (simp add: tcp_step_def pend_ok_def)
  then have s6: "tcp_step interest w w3"
    using tcp_step_trans [OF s5] run_pendings_step [OF sys user tcp_stepD(1) [OF s5] _ run'] by blast
  then show ?thesis
    using tcp_step_trans [OF s6 tcp_frame_step [OF tcp_stepD(1) [OF s6] tcp_frame_members(3)]] by (simp add: w')
qed

subsection \<open>Runs\<close>

lemma tcp_exec_step:
  assumes "conn_sys_ok s interest" "user_ok interest user" "other_ok interest other" "tcp_inv interest w" "pend_ok w"
    "op_ok op" "tcp_exec s user e other op w = Inr w'"
  shows "tcp_step interest w w'"
proof (cases op)
  case (LoopIter i)
  then show ?thesis
    using assms(6,7) loop_iter_step [OF assms(1-5)] by simp
qed (use assms(6,7) Send_step [OF assms(1,2,4)] Shutdown_step [OF assms(1,4)] ForceClose_step [OF assms(1,4)]
    StartRead_step [OF assms(1,4)] Send_buffer_step [OF assms(1,2,4)] SetTcpNoDelay_step [OF assms(1,4)] in \<open>simp_all, blast+\<close>)

lemma tcp_exec_list_step:
  assumes "conn_sys_ok s interest" "user_ok interest user" "other_ok interest other"
  shows "tcp_inv interest w \<Longrightarrow> pend_ok w \<Longrightarrow> list_all op_ok ops \<Longrightarrow> tcp_exec_list s user e other ops w = Inr w' \<Longrightarrow>
    tcp_step interest w w'"
proof (induction ops arbitrary: w)
  case Nil
  then show ?case
    by (simp add: tcp_step_refl)
next
  case (Cons op ops)
  obtain w1 where w1: "tcp_exec s user e other op w = Inr w1" "tcp_exec_list s user e other ops w1 = Inr w'"
    using Cons.prems(4) by (auto simp: res_simps)
  have step: "tcp_step interest w w1"
    using tcp_exec_step [OF assms Cons.prems(1,2) _ w1(1)] Cons.prems(3) by simp
  then have "pend_ok w1"
    using Cons.prems(2) by (simp add: tcp_step_def)
  then show ?case
    using tcp_step_trans [OF step] Cons.IH [OF tcp_stepD(1) [OF step] _ _ w1(2)] Cons.prems(3) by simp
qed

end
