(* ===== verification/Connection_Props.thy ===== *)
theory Connection_Props
  imports Connection_Runs
begin

text \<open>
  The properties of \<open>TcpConnection\<close>: the byte stream and the states over whole runs, the result of
  each operation on every branch, and the orders of calls that lose data or violate an assertion.
\<close>

subsection \<open>An example\<close>

text \<open>A kernel that takes two bytes at a time, a loop with one connection, no callback does
  anything.\<close>

definition ex_csys :: "epoll_table conn_sys" where
  "ex_csys = \<lparr>sys_ctl = epoll_table_ctl, evfd_write = (\<lambda>fd k. (8, k)), evfd_read = (\<lambda>fd k. (8, k)),
     sys_send = (\<lambda>fd msg k. (SysOk (min 2 (length msg)), k)), sys_readv = (\<lambda>fd k iov. (SysErr EAGAIN, k)),
     sys_shutdown = (\<lambda>fd how k. (None, k)), conn_setsockopt = (\<lambda>fd level name v k. (None, k)),
     conn_close = (\<lambda>fd k. (None, k(fd := None)))\<rparr>"

definition ex_user :: "(epoll_table, nat, unit) user_fun" where
  "ex_user u arg w = Inr w"

definition ex_other :: "(conn_cb, (epoll_table, nat) tcp_loop) run_fun" where
  "ex_other cb t w = Inr w"

definition ex_conn_channel :: "events \<Rightarrow> conn_cb channel" where
  "ex_conn_channel ev = \<lparr>ch_loop = 1, ch_fd = 6, events = ev, revents = 0, index = (if ev = 0 then 2 else 1), tied = True, tie = 20,
     event_handing = Some False, added_in_loop = Some True,
     on_read = Some (ReadCb 20), on_write = Some (WriteCb 20), on_close = Some (CloseCb 20), on_error = Some (ErrorCb 20)\<rparr>"

definition ex_conn :: "conn_state \<Rightarrow> buffer \<Rightarrow> nat connection" where
  "ex_conn st b = \<lparr>conn_name = ''c'', sockfd = 6, conn_channel = 12, local_addr = [], peer_addr = [],
     state = st, reading = True, high_water_mark = 4, on_high_water_mark = Some 3, on_connection = Some 1,
     conn_on_close = Some 2, on_message = Some 4, on_write_complete = Some 5,
     input_buffer = fresh_buffer, output_buffer = b, user_context = None, sent = [], accepted = content b, shut_wr = False\<rparr>"

definition ex_tcp :: "conn_state \<Rightarrow> buffer \<Rightarrow> events \<Rightarrow> (epoll_table, nat) tcp_loop" where
  "ex_tcp st b ev = \<lparr>channel_heap = [12 \<mapsto> ex_conn_channel ev],
     channels = [6 \<mapsto> 12], epoll_fd = 3, events_size = 32, epoll = (if ev = 0 then Map.empty else [6 \<mapsto> (ev, 12)]),
     this_loop = 1, running = True, quitting = False, thread_id = 7, loop_event_handing = False,
     poll_return_time = 0, active_channels = [], current_active_channel = None, calling_pendings = False,
     pendings = [], wakeup_fd = 4, wakeup_channel = 10, timer_fd = 5, timer_channel = 11,
     conns = [20 \<mapsto> ex_conn st b]\<rparr>"

lemma ex_csys_ok: "conn_sys_ok ex_csys (\<lambda>k. k)" "epoll_accepts (sys_ctl (loop_part ex_csys)) (\<lambda>k. k)"
  using epoll_table_ok by (simp_all add: conn_sys_ok_def ex_csys_def loop_part_def readv_ok_def)

lemma ex_user_ok: "user_ok interest ex_user" "other_ok interest ex_other"
  by (simp_all add: user_ok_def other_ok_def ex_user_def ex_other_def tcp_step_refl)

lemma ex_tcp_inv:
  assumes "buf_inv b" "st = Connected \<or> st = Disconnecting" "ev = 3 \<and> content b = [] \<or> ev = 7 \<and> content b \<noteq> []"
  shows "tcp_inv (\<lambda>k. k) (ex_tcp st b ev)" "pend_ok (ex_tcp st b ev)"
  using assms fresh_buffer_inv
  by (auto simp: tcp_inv_def loop_inv_def poller_inv_def ex_tcp_def index_ok_def index_values ex_conn_channel_def ex_conn_def
      kEventsSize_def conn_ok_def open_state_def pend_ok_def IsWriteEvent_def has_event_def event_bits split: if_splits)

lemma ex_closed_inv: "tcp_inv (\<lambda>k. k) (ex_tcp Disconnected fresh_buffer 0)" "pend_ok (ex_tcp Disconnected fresh_buffer 0)"
  using fresh_buffer_inv fresh_buffer_content
  by (auto simp: tcp_inv_def loop_inv_def poller_inv_def ex_tcp_def index_ok_def index_values ex_conn_channel_def ex_conn_def
      kEventsSize_def conn_ok_def open_state_def pend_ok_def IsWriteEvent_def IsNoneEvent_def has_event_def event_bits split: if_splits)

lemma ex_tcp_simps [simp]:
  "conns (ex_tcp st b ev) 20 = Some (ex_conn st b)" "IsInLoopThread 7 (ex_tcp st b ev)" "\<not> IsInLoopThread 8 (ex_tcp st b ev)"
  "channel_heap (ex_tcp st b ev) 12 = Some (ex_conn_channel ev)" "conn_channel (ex_conn st b) = 12"
  "state (ex_conn st b) = st" "output_buffer (ex_conn st b) = b" "sent (ex_conn st b) = []" "accepted (ex_conn st b) = content b"
  "sockfd (ex_conn st b) = 6" "thread_id (ex_tcp st b ev) = 7" "pendings (ex_tcp st b ev) = []"
  by (simp_all add: ex_tcp_def ex_conn_def IsInLoopThread_def)

definition tcp_ex_input :: "epoll_event list \<Rightarrow> nat conn_fn loop_input" where
  "tcp_ex_input evs = \<lparr>in_remote = [], in_wait = (\<lambda>n. SysOk evs), in_now = 0\<rparr>"

subsection \<open>The byte stream\<close>

text \<open>C1: over any run of the loop with calls of \<open>Send\<close>, \<open>Shutdown\<close>, \<open>ForceClose\<close>, \<open>StartRead\<close>
  and \<open>StopRead\<close> by any thread, the kernel gets a prefix of the bytes accepted for sending, in order,
  nothing twice; while the connection is open the rest is in the output buffer, the kernel watches
  the socket for writability exactly while something is buffered, and the sending direction is
  shut down only after the last byte.\<close>

theorem connection_stream:
  assumes "conn_sys_ok s interest" "user_ok interest user" "other_ok interest other" "tcp_inv interest w" "pend_ok w"
    "list_all op_ok ops" "tcp_exec_list s user e other ops w = Inr w'" "conns w c = Some x"
  shows "\<exists>y ch. conns w' c = Some y \<and> channel_heap w' (conn_channel y) = Some ch
    \<and> (\<exists>r. sent y = sent x @ r) \<and> (\<exists>r. accepted y = accepted x @ r) \<and> (\<exists>r. accepted y = sent y @ r)
    \<and> (state y = Connected \<or> state y = Disconnecting \<longrightarrow>
         sent y @ content (output_buffer y) = accepted y
       \<and> (content (output_buffer y) \<noteq> [] \<longleftrightarrow> IsWriteEvent ch)
       \<and> (content (output_buffer y) \<noteq> [] \<longrightarrow> interest (epoll w') (sockfd y) = Some (events ch, conn_channel y))
       \<and> (shut_wr y \<longrightarrow> state y = Disconnecting \<and> sent y = accepted y))"
proof -
  have step: "tcp_step interest w w'"
    using tcp_exec_list_step [OF assms(1-7)] .
  obtain y where y: "conns w' c = Some y" "conn_forward x y"
    using tcp_stepD(3) [OF step assms(8)] by blast
  obtain ch where ch: "channel_heap w' (conn_channel y) = Some ch" "conn_ok ch y"
    using tcp_invD(2) [OF tcp_stepD(1) [OF step] y(1)] by blast
  have "interest (epoll w') (sockfd y) = Some (events ch, conn_channel y)" if "IsWriteEvent ch"
    using that channel_watched [OF tcp_invD(1) [OF tcp_stepD(1) [OF step]] ch(1)] conn_okD(1) [OF ch(2)]
    by (cases "events ch = 0") (simp_all add: IsWriteEvent_def has_event_def)
  then show ?thesis
    using y ch by (auto simp: conn_ok_def open_state_def conn_forward_def)
qed

lemmas tcp_eval = Send_def RunInLoop_def send_in_loop_def send_rest_def note_high_water_def with_conn_def AssertInLoopThread_def
  with_channel_def put_conn_def loop_part_def ex_csys_def ex_conn_def ex_conn_channel_def IsInLoopThread_def
  queue_if_bound_def QueueInLoop_def mask_operations update_mask_def update_events_def put_channel_def
  loop_UpdateChannel_def UpdateChannel_def ex_user_def set_wakeup_def reset_wakeup_def

theorem connection_stream_witness:
  "\<exists>w' y. tcp_exec_list ex_csys ex_user EINTR ex_other [SendOp 7 20 [1, 2], ShutdownOp 8 20, LoopIter (tcp_ex_input [])]
      (ex_tcp Connected fresh_buffer 3) = Inr w'
    \<and> conns w' 20 = Some y \<and> sent y = [1, 2] \<and> shut_wr y \<and> accepted y = [1, 2]"
proof -
  let ?ops = "[SendOp 7 20 [1, 2], ShutdownOp 8 20, LoopIter (tcp_ex_input [])]"
  obtain w' y where w': "tcp_exec_list ex_csys ex_user EINTR ex_other ?ops (ex_tcp Connected fresh_buffer 3) = Inr w'"
      "conns w' 20 = Some y" "accepted y = [1, 2]" "state y = Disconnecting" "shut_wr y"
    by (simp add: tcp_eval ex_tcp_def Shutdown_def loop_iter_def Poll_def tcp_ex_input_def shutdown_in_loop_def IsWriteEvent_def
        has_event_def event_bits ShutdownWrite_def Let_def fresh_buffer_def buffer_eval cong: andthen_weak_cong)
  have "list_all op_ok ?ops"
    by (simp add: tcp_ex_input_def vector_max_def)
  from connection_stream [OF ex_csys_ok(1) ex_user_ok ex_tcp_inv this w'(1) ex_tcp_simps(1)] w' show ?thesis
    by (auto simp: fresh_buffer_inv fresh_buffer_content)
qed

subsection \<open>The states\<close>

text \<open>C10: over any such run the state of a connection only moves along \<open>Connecting\<close>,
  \<open>Connected\<close>, \<open>Disconnecting\<close>, \<open>Disconnected\<close>, its name, socket and channel stay the same, and once
  it is disconnected a close, a \<open>Send\<close>, a \<open>Shutdown\<close> and a \<open>ForceClose\<close> do nothing: the
  connection callback and the close callback are not called again.\<close>

theorem connection_states:
  assumes "conn_sys_ok s interest" "user_ok interest user" "other_ok interest other" "tcp_inv interest w" "pend_ok w"
    "list_all op_ok ops" "tcp_exec_list s user e other ops w = Inr w'" "conns w c = Some x"
  shows "\<exists>y. conns w' c = Some y \<and> rank (state x) \<le> rank (state y)
    \<and> conn_name y = conn_name x \<and> sockfd y = sockfd x \<and> conn_channel y = conn_channel x
    \<and> (state x = Disconnected \<longrightarrow> state y = Disconnected
        \<and> handle_close s user (thread_id w') c w' = Inr w' \<and> Send s user t c msg w' = Inr w'
        \<and> Shutdown s t c w' = Inr w' \<and> ForceClose s t c w' = Inr w')"
proof -
  have step: "tcp_step interest w w'"
    using tcp_exec_list_step [OF assms(1-7)] .
  obtain y where y: "conns w' c = Some y" "conn_forward x y"
    using tcp_stepD(3) [OF step assms(8)] by blast
  have "state y = Disconnected" if "state x = Disconnected"
    using y(2) that by (cases "state y") (simp_all add: conn_forward_def)
  then show ?thesis
    using y by (auto simp: conn_forward_def handle_close_def Send_def Shutdown_def ForceClose_def with_conn_def
        AssertInLoopThread_def IsInLoopThread_def)
qed

theorem connection_states_witness:
  "\<exists>w' y. tcp_exec_list ex_csys ex_user EINTR ex_other [ShutdownOp 8 20, StopReadOp 8 20] (ex_tcp Disconnected fresh_buffer 0) = Inr w'
    \<and> conns w' 20 = Some y \<and> sockfd y = 6 \<and> state y = Disconnected \<and> Send ex_csys ex_user 8 20 [1] w' = Inr w'"
proof -
  let ?ops = "[ShutdownOp 8 20, StopReadOp 8 20]"
  obtain w' where w': "tcp_exec_list ex_csys ex_user EINTR ex_other ?ops (ex_tcp Disconnected fresh_buffer 0) = Inr w'"
    by (simp add: Shutdown_def StopRead_def RunInLoop_def with_conn_def)
  have "list_all op_ok ?ops"
    by simp
  from connection_states [OF ex_csys_ok(1) ex_user_ok ex_closed_inv this w' ex_tcp_simps(1), where t = 8 and msg = "[1]"] w'
  show ?thesis
    by auto
qed

subsection \<open>Writing\<close>

definition bound_fn :: "'u option \<Rightarrow> call_arg \<Rightarrow> 'u conn_fn list" where
  "bound_fn cb arg = (case cb of None \<Rightarrow> [] | Some u \<Rightarrow> [CallFn u arg])"

lemma queue_if_bound_simps [simp]:
  "conns (queue_if_bound s me cb arg w) = conns w" "channel_heap (queue_if_bound s me cb arg w) = channel_heap w"
  "pendings (queue_if_bound s me cb arg w) = pendings w @ bound_fn cb arg"
  "IsInLoopThread t (queue_if_bound s me cb arg w) = IsInLoopThread t w"
  by (simp_all add: queue_if_bound_def bound_fn_def QueueInLoop_def Let_def set_wakeup_def IsInLoopThread_def split: option.split)

lemma tcp_update_simps [simp]:
  "conns (channel_changed p d tgt k w) = conns w"
  "conns (put_conn c x w) = (conns w)(c \<mapsto> x)" "channel_heap (put_conn c x w) = channel_heap w"
  "pendings (put_conn c x w) = pendings w" "epoll (put_conn c x w) = epoll w"
  "IsInLoopThread t (put_conn c x w) = IsInLoopThread t w" "IsInLoopThread t (w\<lparr>epoll := k'\<rparr>) = IsInLoopThread t w"
  by (simp_all add: channel_changed_def put_conn_def IsInLoopThread_def)

text \<open>A change of the mask of a connection's channel that the kernel does not refuse.\<close>

lemma conn_mask_ok:
  assumes "conn_sys_ok s interest" "epoll_accepts (sys_ctl (loop_part s)) interest" "tcp_inv interest w"
    "IsInLoopThread me w" "channel_heap w p = Some ch" "mask_only f" "tcp_frame interest w v"
  obtains k where "update_mask (loop_part s) me f p (put_conn c y v) = Inr (channel_changed p (masked f ch) (Some p) k (put_conn c y v))"
    "loop_inv interest (channel_changed p (masked f ch) (Some p) k (put_conn c y v))"
proof -
  have "loop_inv interest (put_conn c y v)" "IsInLoopThread me (put_conn c y v)" "channel_heap (put_conn c y v) p = Some ch"
    using tcp_invD(1) [OF assms(3)] assms(4,5,7) by (auto simp: put_conn_def loop_inv_frame tcp_frame_def IsInLoopThread_def)
  from update_mask_ok [OF conn_sys_okD(1) [OF assms(1)] assms(2) this assms(6)] that show thesis
    by blast
qed

text \<open>One writable event, when the kernel takes \<open>n\<close> bytes.\<close>

lemma handle_write_takes:
  assumes sys: "conn_sys_ok s interest" "epoll_accepts (sys_ctl (loop_part s)) interest" and inv: "tcp_inv interest w"
    and x: "conns w c = Some x" "content (output_buffer x) \<noteq> []" "state x = Connected \<or> state x = Disconnecting"
    and me: "IsInLoopThread me w"
    and send: "sys_send s (sockfd x) (content (output_buffer x)) (epoll w) = (SysOk n, k)" "0 < n"
  shows "\<exists>w' buf b ch. handle_write s user e me c w = Inr w'
    \<and> conns w' c = Some (x\<lparr>output_buffer := buf, sent := sent x @ take n (content (output_buffer x)), shut_wr := b\<rparr>)
    \<and> channel_heap w' (conn_channel x) = Some ch \<and> content buf = drop n (content (output_buffer x))
    \<and> (IsWriteEvent ch \<longleftrightarrow> n < length (content (output_buffer x))) \<and> n \<le> length (content (output_buffer x))
    \<and> pendings w' = pendings w @ (if n < length (content (output_buffer x)) then [] else bound_fn (on_write_complete x) (ConnArg c))
    \<and> (b \<longleftrightarrow> \<not> n < length (content (output_buffer x)) \<and> state x = Disconnecting) \<and> IsInLoopThread me w'"
proof -
  obtain ch where ch: "channel_heap w (conn_channel x) = Some ch" "conn_ok ch x"
    using tcp_invD(2) [OF inv x(1)] by blast
  have op: "open_state (state x)"
    using x(3) by (simp add: open_state_def)
  then have wr: "IsWriteEvent ch" and shut: "\<not> shut_wr x"
    using conn_okD(4,7) [OF ch(2)] x(2,3) by auto
  let ?data = "content (output_buffer x)"
  have n: "n \<le> length ?data"
    using conn_sys_okD(3) [OF sys(1), of "sockfd x" ?data "epoll w" n] send(1) by simp
  obtain buf where buf: "Retrieve (output_buffer x) n = Inr buf" "buf_inv buf" "content buf = drop n ?data"
    using bq.deq_abs [OF conn_okD(3) [OF ch(2)] n] by blast
  let ?y = "x\<lparr>output_buffer := buf, sent := sent x @ take n ?data\<rparr>"
  let ?v = "w\<lparr>epoll := k\<rparr>"
  have same: "?y = x\<lparr>output_buffer := buf, sent := sent x @ take n ?data, shut_wr := shut_wr x\<rparr>"
    by simp
  have v: "tcp_frame interest w ?v"
    using conn_sys_okD(2) [OF sys(1), of "sockfd x" ?data "epoll w"] send by (intro tcp_frame_epoll) simp
  note eval = handle_write_def with_conn_def AssertInLoopThread_def with_channel_def Let_def
  show ?thesis
  proof (cases "n < length ?data")
    case True
    then have "handle_write s user e me c w = Inr (put_conn c ?y ?v)"
      using x me ch wr send load_output [OF conn_okD(3) [OF ch(2)]] buf conn_okD(1) [OF ch(2)] bq.readable_abs [OF buf(2)]
      by (simp add: eval)
    then show ?thesis
      using True ch(1) wr shut buf(3) me n same
      by (intro exI [of _ "put_conn c ?y ?v"] exI [of _ buf] exI [of _ "shut_wr x"] exI [of _ ch] conjI) simp_all
  next
    case False
    obtain k2 where k2: "update_mask (loop_part s) me disable_write (conn_channel x) (put_conn c ?y ?v) =
        Inr (channel_changed (conn_channel x) (masked disable_write ch) (Some (conn_channel x)) k2 (put_conn c ?y ?v))"
      using conn_mask_ok [OF sys inv me ch(1) mask_only_ops(4) v] by metis
    define w4 where "w4 = queue_if_bound s me (on_write_complete x) (ConnArg c)
      (channel_changed (conn_channel x) (masked disable_write ch) (Some (conn_channel x)) k2 (put_conn c ?y ?v))"
    have w4: "conns w4 c = Some ?y" "channel_heap w4 (conn_channel x) = Some (masked disable_write ch)" "IsInLoopThread me w4"
      "pendings w4 = pendings w @ bound_fn (on_write_complete x) (ConnArg c)"
      using me by (simp_all add: w4_def)
    have run: "handle_write s user e me c w = (if state x = Disconnecting then shutdown_in_loop s me c w4 else Inr w4)"
      using False x me ch wr send load_output [OF conn_okD(3) [OF ch(2)]] buf conn_okD(1) [OF ch(2)] bq.readable_abs [OF buf(2)] k2
      unfolding w4_def by (simp add: eval mask_operations)
    let ?w' = "if state x = Disconnecting then ShutdownWrite s c ?y w4 else w4"
    have off: "\<not> IsWriteEvent (masked disable_write ch)"
      by (simp add: mask_only_ops)
    have "handle_write s user e me c w = Inr ?w'"
      using run w4 off by (simp add: shutdown_in_loop_def with_conn_def AssertInLoopThread_def with_channel_def)
    then show ?thesis
      using False w4 off buf(3) shut n same
      by (intro exI [of _ ?w'] exI [of _ buf] exI [of _ "if state x = Disconnecting then True else shut_wr x"]
          exI [of _ "masked disable_write ch"] conjI) (simp_all add: ShutdownWrite_def)
  qed
qed

text \<open>C12: when a socket with buffered output is writable and the kernel takes \<open>n\<close> bytes, exactly
  these leave the output buffer. After the last byte the socket is no longer watched for
  writability, the write-complete callback is queued once, and a connection that is shutting down
  sends its FIN; before, none of this happens.\<close>

theorem handle_write_result:
  assumes sys: "conn_sys_ok s interest" "epoll_accepts (sys_ctl (loop_part s)) interest" and inv: "tcp_inv interest w"
    and x: "conns w c = Some x" "content (output_buffer x) \<noteq> []" "state x = Connected \<or> state x = Disconnecting"
    and me: "IsInLoopThread me w"
    and send: "sys_send s (sockfd x) (content (output_buffer x)) (epoll w) = (SysOk n, k)" "0 < n"
  shows "\<exists>w' y ch. handle_write s user e me c w = Inr w' \<and> conns w' c = Some y \<and> channel_heap w' (conn_channel x) = Some ch
    \<and> sent y = sent x @ take n (content (output_buffer x))
    \<and> content (output_buffer y) = drop n (content (output_buffer x)) \<and> state y = state x
    \<and> (IsWriteEvent ch \<longleftrightarrow> n < length (content (output_buffer x)))
    \<and> pendings w' = pendings w @ (if n < length (content (output_buffer x)) then [] else bound_fn (on_write_complete x) (ConnArg c))
    \<and> (shut_wr y \<longleftrightarrow> \<not> n < length (content (output_buffer x)) \<and> state x = Disconnecting)"
proof -
  obtain w' buf b ch where "handle_write s user e me c w = Inr w'"
      "conns w' c = Some (x\<lparr>output_buffer := buf, sent := sent x @ take n (content (output_buffer x)), shut_wr := b\<rparr>)"
      "channel_heap w' (conn_channel x) = Some ch" "content buf = drop n (content (output_buffer x))"
      "IsWriteEvent ch \<longleftrightarrow> n < length (content (output_buffer x))"
      "pendings w' = pendings w @ (if n < length (content (output_buffer x)) then [] else bound_fn (on_write_complete x) (ConnArg c))"
      "b \<longleftrightarrow> \<not> n < length (content (output_buffer x)) \<and> state x = Disconnecting"
    using handle_write_takes [OF assms, of user e] by metis
  then show ?thesis
    by (intro exI [of _ w'] exI [of _ "x\<lparr>output_buffer := buf, sent := sent x @ take n (content (output_buffer x)), shut_wr := b\<rparr>"]
        exI [of _ ch]) simp
qed

definition ex_two_bytes :: buffer where
  "ex_two_bytes = \<lparr>buffer_vec = replicate 8 0 @ [5, 6, 0], reader_index = 8, writer_index = 10\<rparr>"

lemma ex_two_bytes: "buf_inv ex_two_bytes" "content ex_two_bytes = [5, 6]"
  by (simp_all add: ex_two_bytes_def buffer_eval)

theorem handle_write_result_witness:
  "\<exists>w' y. handle_write ex_csys ex_user EINTR 7 20 (ex_tcp Disconnecting ex_two_bytes 7) = Inr w' \<and> conns w' 20 = Some y
    \<and> sent y = [5, 6] \<and> shut_wr y \<and> pendings w' = [CallFn 5 (ConnArg 20)]"
proof -
  have "sys_send ex_csys (sockfd (ex_conn Disconnecting ex_two_bytes)) (content (output_buffer (ex_conn Disconnecting ex_two_bytes)))
      (epoll (ex_tcp Disconnecting ex_two_bytes 7)) = (SysOk 2, epoll (ex_tcp Disconnecting ex_two_bytes 7))"
    by (simp add: ex_csys_def ex_two_bytes)
  from handle_write_result [OF ex_csys_ok ex_tcp_inv(1) ex_tcp_simps(1) _ _ ex_tcp_simps(2) this, of ex_user EINTR] show ?thesis
    by (auto simp: ex_two_bytes bound_fn_def) (auto simp: ex_conn_def)
qed

subsection \<open>Sending\<close>

text \<open>What appending \<open>r\<close> bytes to \<open>old\<close> buffered ones queues for the high-water mark.\<close>

definition high_water_fns :: "ptr \<Rightarrow> 'u connection \<Rightarrow> nat \<Rightarrow> nat \<Rightarrow> 'u conn_fn list" where
  "high_water_fns c x old r =
     (if old < high_water_mark x \<and> high_water_mark x \<le> old + r then bound_fn (on_high_water_mark x) (SizeArg c (old + r)) else [])"

lemma high_water_fns_cong:
  "high_water_mark y = high_water_mark x \<Longrightarrow> on_high_water_mark y = on_high_water_mark x \<Longrightarrow>
     high_water_fns c y old r = high_water_fns c x old r"
  by (simp add: high_water_fns_def)

lemma note_high_water_simps:
  assumes "buf_inv (output_buffer x)" "length (content (output_buffer x)) + r < size_modulus"
  shows "conns (note_high_water s me c x r w) = conns w" "channel_heap (note_high_water s me c x r w) = channel_heap w"
    "IsInLoopThread t (note_high_water s me c x r w) = IsInLoopThread t w"
    "pendings (note_high_water s me c x r w) = pendings w @ high_water_fns c x (length (content (output_buffer x))) r"
  using bq.readable_abs [OF assms(1)] size_add_exact [OF assms(2)]
  by (simp_all add: note_high_water_def Let_def high_water_fns_def)

lemma send_rest_result:
  assumes sys: "conn_sys_ok s interest" "epoll_accepts (sys_ctl (loop_part s)) interest" and inv: "loop_inv interest w"
    and y: "conns w c = Some y" "buf_inv (output_buffer y)" "channel_heap w (conn_channel y) = Some ch" and me: "IsInLoopThread me w"
    and r: "0 < r" "n + r = length msg" "writer_index (output_buffer y) + length msg \<le> vector_max"
  shows "\<exists>w' buf ch'. send_rest s me c msg n r w = Inr w' \<and> conns w' = (conns w)(c \<mapsto> y\<lparr>output_buffer := buf\<rparr>)
    \<and> content buf = content (output_buffer y) @ drop n msg
    \<and> channel_heap w' (conn_channel y) = Some ch' \<and> IsWriteEvent ch'
    \<and> pendings w' = pendings w @ high_water_fns c y (length (content (output_buffer y))) r"
proof -
  let ?p = "conn_channel y"
  have load: "mem_load msg n r = Inr (drop n msg)"
    using r(2) by (simp add: mem_load_def)
  have fits: "length (drop n msg) \<le> vector_max" "\<not> vector_max < writer_index (output_buffer y) + length (drop n msg)"
    using r(3) by simp_all
  obtain buf where buf: "Append (output_buffer y) (drop n msg) = Inr buf" "content buf = content (output_buffer y) @ drop n msg"
    using Append_cases [OF y(2) fits(1)] fits(2) by metis
  have "length (content (output_buffer y)) \<le> writer_index (output_buffer y)"
    by (simp add: content_def)
  then have small: "length (content (output_buffer y)) + r < size_modulus"
    using r(2,3) by (simp add: vector_max_def size_modulus_def)
  define w1 where "w1 = note_high_water s me c y r w"
  let ?z = "y\<lparr>output_buffer := buf\<rparr>"
  note w1 = note_high_water_simps [OF y(2) small, where s = s and me = me and c = c and w = w, folded w1_def]
  have "tcp_frame interest w w1"
    by (simp add: w1_def note_high_water_def Let_def tcp_frame_queue_if_bound [OF sys(1)])
  then have inv1: "loop_inv interest (put_conn c ?z w1)"
    using inv by (simp add: tcp_frame_def put_conn_def loop_inv_frame)
  have w2: "channel_heap (put_conn c ?z w1) ?p = Some ch" "IsInLoopThread me (put_conn c ?z w1)"
    using w1 y(3) me by simp_all
  have run: "send_rest s me c msg n r w =
      (if IsWriteEvent ch then Inr (put_conn c ?z w1) else update_mask (loop_part s) me enable_write ?p (put_conn c ?z w1))"
    using y load buf w2(1) unfolding w1_def by (simp add: send_rest_def with_conn_def Let_def with_channel_def mask_operations)
  obtain k where k: "update_mask (loop_part s) me enable_write ?p (put_conn c ?z w1) =
      Inr (channel_changed ?p (masked enable_write ch) (Some ?p) k (put_conn c ?z w1))"
    using update_mask_ok [OF conn_sys_okD(1) [OF sys(1)] sys(2) inv1 w2(2,1) mask_only_ops(3)] by metis
  let ?w' = "if IsWriteEvent ch then put_conn c ?z w1 else channel_changed ?p (masked enable_write ch) (Some ?p) k (put_conn c ?z w1)"
  have "send_rest s me c msg n r w = Inr ?w'"
    using run k by simp
  then show ?thesis
    using w1 w2(1) buf(2) by (intro exI [of _ ?w'] exI [of _ buf] exI [of _ "if IsWriteEvent ch then ch else masked enable_write ch"])
      (simp add: mask_only_ops)
qed

text \<open>What the kernel takes when the message can be sent directly.\<close>

definition sent_directly :: "'k conn_sys \<Rightarrow> 'u connection \<Rightarrow> byte list \<Rightarrow> 'k \<Rightarrow> nat sysret" where
  "sent_directly s x msg k = (if content (output_buffer x) = [] then fst (sys_send s (sockfd x) msg k) else SysErr EAGAIN)"

definition taken_of :: "nat sysret \<Rightarrow> nat" where
  "taken_of ret = (case ret of SysOk n \<Rightarrow> n | SysErr e \<Rightarrow> 0)"

lemma send_in_loop_split:
  assumes sys: "conn_sys_ok s interest" and x: "conns w c = Some x" "state x = Connected"
    and me: "IsInLoopThread me w" and ch: "channel_heap w (conn_channel x) = Some ch" "conn_ok ch x"
    and msg: "length msg \<le> vector_max" and ret: "sent_directly s x msg (epoll w) \<notin> {SysErr EPIPE, SysErr ECONNRESET}"
  defines "taken \<equiv> taken_of (sent_directly s x msg (epoll w))"
  shows "\<exists>v. tcp_frame interest w v \<and> pendings v = pendings w \<and> send_in_loop s user me c msg w =
    (let w1 = put_conn c (x\<lparr>sent := sent x @ take taken msg, accepted := accepted x @ msg\<rparr>) v
     in if taken = length msg
        then Inr (if sent_directly s x msg (epoll w) = SysOk taken then queue_if_bound s me (on_write_complete x) (ConnArg c) w1 else w1)
        else send_rest s me c msg taken (length msg - taken) w1)"
proof -
  have wr: "IsWriteEvent ch \<longleftrightarrow> content (output_buffer x) \<noteq> []" and fd: "ch_fd ch = sockfd x"
    using conn_okD(1,4) [OF ch(2)] x(2) by (auto simp: open_state_def)
  have rb: "ReadableBytes (output_buffer x) = length (content (output_buffer x))"
    using bq.readable_abs [OF conn_okD(3) [OF ch(2)]] .
  have small: "length msg < size_modulus"
    using msg by (simp add: vector_max_def size_modulus_def)
  show ?thesis
  proof (cases "content (output_buffer x) = []")
    case False
    then show ?thesis
      using x me ch(1) wr rb by (intro exI [of _ w]) (simp add: send_eval Let_def taken_def taken_of_def sent_directly_def)
  next
    case True
    obtain r k where send: "sys_send s (sockfd x) msg (epoll w) = (r, k)"
      by fastforce
    have "tcp_frame interest w (w\<lparr>epoll := k\<rparr>)"
      using conn_sys_okD(2) [OF sys, of "sockfd x" msg "epoll w"] send by (intro tcp_frame_epoll) simp
    moreover have "n \<le> length msg" if "r = SysOk n" for n
      using conn_sys_okD(3) [OF sys, of "sockfd x" msg "epoll w" n] send that by simp
    ultimately show ?thesis
      using True x me ch(1) wr rb fd send ret small
      by (intro exI [of _ "w\<lparr>epoll := k\<rparr>"])
        (cases r; auto simp: send_eval Let_def taken_def taken_of_def sent_directly_def size_sub_exact)
  qed
qed

lemma send_in_loop_ok:
  assumes sys: "conn_sys_ok s interest" "epoll_accepts (sys_ctl (loop_part s)) interest" and inv: "tcp_inv interest w"
    and x: "conns w c = Some x" "state x = Connected" and me: "IsInLoopThread me w"
    and msg: "writer_index (output_buffer x) + length msg \<le> vector_max"
    and ret: "sent_directly s x msg (epoll w) \<notin> {SysErr EPIPE, SysErr ECONNRESET}"
  defines "taken \<equiv> taken_of (sent_directly s x msg (epoll w))"
  shows "\<exists>w' buf ch. send_in_loop s user me c msg w = Inr w'
    \<and> conns w' = (conns w)(c \<mapsto> x\<lparr>sent := sent x @ take taken msg, accepted := accepted x @ msg, output_buffer := buf\<rparr>)
    \<and> channel_heap w' (conn_channel x) = Some ch \<and> content buf = content (output_buffer x) @ drop taken msg
    \<and> (IsWriteEvent ch \<longleftrightarrow> content buf \<noteq> [])
    \<and> pendings w' = pendings w
        @ (if sent_directly s x msg (epoll w) = SysOk (length msg) then bound_fn (on_write_complete x) (ConnArg c) else [])
        @ (if taken < length msg then high_water_fns c x (length (content (output_buffer x))) (length msg - taken) else [])"
proof -
  obtain ch where ch: "channel_heap w (conn_channel x) = Some ch" "conn_ok ch x"
    using tcp_invD(2) [OF inv x(1)] by blast
  have wr: "IsWriteEvent ch \<longleftrightarrow> content (output_buffer x) \<noteq> []"
    using conn_okD(4) [OF ch(2)] x(2) by (simp add: open_state_def)
  have taken: "taken \<le> length msg"
    using conn_sys_okD(3) [OF sys(1), of "sockfd x" msg "epoll w"]
    by (auto simp: taken_def taken_of_def sent_directly_def split: sysret.split)
  let ?y = "x\<lparr>sent := sent x @ take taken msg, accepted := accepted x @ msg\<rparr>"
  obtain v where v: "tcp_frame interest w v" "pendings v = pendings w"
    and run: "send_in_loop s user me c msg w = (let w1 = put_conn c ?y v in if taken = length msg
        then Inr (if sent_directly s x msg (epoll w) = SysOk taken then queue_if_bound s me (on_write_complete x) (ConnArg c) w1 else w1)
        else send_rest s me c msg taken (length msg - taken) w1)"
    using send_in_loop_split [OF sys(1) x me ch _ ret, of user] msg unfolding taken_def by auto
  have vs: "conns v = conns w" "channel_heap v = channel_heap w" "IsInLoopThread me v" "loop_inv interest (put_conn c ?y v)"
    using v(1) me tcp_invD(1) [OF inv] by (auto simp: tcp_frame_def IsInLoopThread_def put_conn_def loop_inv_frame)
  show ?thesis
  proof (cases "taken = length msg")
    case True
    let ?w1 = "put_conn c ?y v"
    let ?w' = "if sent_directly s x msg (epoll w) = SysOk taken then queue_if_bound s me (on_write_complete x) (ConnArg c) ?w1 else ?w1"
    show ?thesis
      using True run vs(1,2) v(2) x ch(1) wr by (intro exI [of _ ?w'] exI [of _ "output_buffer x"] exI [of _ ch]) (simp add: Let_def)
  next
    case False
    then have less: "taken < length msg" and part: "sent_directly s x msg (epoll w) \<noteq> SysOk (length msg)"
      using taken by (auto simp: taken_def taken_of_def)
    have y: "conns (put_conn c ?y v) c = Some ?y" "buf_inv (output_buffer ?y)" "channel_heap (put_conn c ?y v) (conn_channel ?y) = Some ch"
      "IsInLoopThread me (put_conn c ?y v)" "writer_index (output_buffer ?y) + length msg \<le> vector_max"
      using vs ch conn_okD(3) [OF ch(2)] msg by simp_all
    have "0 < length msg - taken" "taken + (length msg - taken) = length msg"
      using less by simp_all
    from send_rest_result [OF sys vs(4) y(1-4) this y(5)] obtain w' buf ch' where
      w': "send_rest s me c msg taken (length msg - taken) (put_conn c ?y v) = Inr w'"
      "conns w' = (conns w)(c \<mapsto> ?y\<lparr>output_buffer := buf\<rparr>)" "content buf = content (output_buffer x) @ drop taken msg"
      "channel_heap w' (conn_channel x) = Some ch'" "IsWriteEvent ch'"
      "pendings w' = pendings w @ high_water_fns c ?y (length (content (output_buffer x))) (length msg - taken)"
      using v(2) vs(1) by auto
    have "drop taken msg \<noteq> []"
      using less by simp
    then show ?thesis
      using False less part run w' x(2) high_water_fns_cong [of ?y x]
      by (intro exI [of _ w'] exI [of _ buf] exI [of _ ch']) (simp add: Let_def)
  qed
qed

text \<open>C11: a message sent in the loop thread on a connected connection is split without loss: the
  kernel gets what it takes at once (nothing when older output is still buffered), the rest is
  appended to the output buffer and the socket is then watched for writability. The write-complete
  callback is queued when the kernel took all of it at once, the high-water callback exactly when
  this message lifts the buffered amount from below the mark to the mark or above, with that
  amount.\<close>

theorem send_in_loop_result:
  assumes sys: "conn_sys_ok s interest" "epoll_accepts (sys_ctl (loop_part s)) interest" and inv: "tcp_inv interest w"
    and x: "conns w c = Some x" "state x = Connected" and me: "IsInLoopThread me w"
    and msg: "writer_index (output_buffer x) + length msg \<le> vector_max"
    and ret: "sent_directly s x msg (epoll w) \<notin> {SysErr EPIPE, SysErr ECONNRESET}"
  defines "taken \<equiv> taken_of (sent_directly s x msg (epoll w))"
  shows "\<exists>w' y ch. send_in_loop s user me c msg w = Inr w' \<and> conns w' c = Some y \<and> channel_heap w' (conn_channel x) = Some ch
    \<and> state y = Connected \<and> accepted y = accepted x @ msg \<and> sent y = sent x @ take taken msg
    \<and> content (output_buffer y) = content (output_buffer x) @ drop taken msg
    \<and> (IsWriteEvent ch \<longleftrightarrow> content (output_buffer y) \<noteq> [])
    \<and> pendings w' = pendings w
        @ (if sent_directly s x msg (epoll w) = SysOk (length msg) then bound_fn (on_write_complete x) (ConnArg c) else [])
        @ (if taken < length msg then high_water_fns c x (length (content (output_buffer x))) (length msg - taken) else [])"
  using send_in_loop_ok [OF sys inv x me msg ret, of user] x(2) unfolding taken_def [symmetric]
  by (elim exE conjE) (intro exI conjI, assumption, simp, assumption, simp_all)

theorem send_in_loop_result_witness:
  "\<exists>w' y. send_in_loop ex_csys ex_user 7 20 [1, 2, 3, 4, 5, 6] (ex_tcp Connected fresh_buffer 3) = Inr w' \<and> conns w' 20 = Some y
    \<and> sent y = [1, 2] \<and> content (output_buffer y) = [3, 4, 5, 6] \<and> pendings w' = [CallFn 3 (SizeArg 20 4)]"
proof -
  let ?w = "ex_tcp Connected fresh_buffer 3" and ?x = "ex_conn Connected fresh_buffer" and ?m = "[1, 2, 3, 4, 5, 6] :: byte list"
  have direct: "sent_directly ex_csys ?x ?m (epoll ?w) = SysOk 2"
    by (simp add: sent_directly_def fresh_buffer_content ex_csys_def)
  have inv: "tcp_inv (\<lambda>k. k) ?w"
    using ex_tcp_inv(1) fresh_buffer_inv fresh_buffer_content by simp
  have room: "writer_index (output_buffer ?x) + length ?m \<le> vector_max"
    by (simp add: fresh_buffer_def vector_max_def)
  have st: "state ?x = Connected"
    by simp
  have "sent_directly ex_csys ?x ?m (epoll ?w) \<notin> {SysErr EPIPE, SysErr ECONNRESET}"
    by (simp add: direct)
  from send_in_loop_result [OF ex_csys_ok inv ex_tcp_simps(1) st ex_tcp_simps(2) room this, of ex_user] show ?thesis
    by (auto simp: direct taken_of_def fresh_buffer_content high_water_fns_def bound_fn_def) (auto simp: ex_conn_def)
qed

subsection \<open>Closing\<close>

text \<open>C25: a close of an open connection first marks it disconnected and disables all events, and then
  calls the connection callback and the close callback, in this order, once each. When the socket
  was watched it leaves the kernel's interest list; when it was not, because reading was stopped
  before, disabling all events puts it back into the list with an empty mask.\<close>

theorem handle_close_result:
  assumes sys: "conn_sys_ok s interest" "epoll_accepts (sys_ctl (loop_part s)) interest" and inv: "tcp_inv interest w"
    and x: "conns w c = Some x" "state x = Connected \<or> state x = Disconnecting" "channel_heap w (conn_channel x) = Some ch"
    and me: "IsInLoopThread me w"
  shows "\<exists>w1. conns w1 = (conns w)(c \<mapsto> x\<lparr>state := Disconnected\<rparr>)
    \<and> interest (epoll w1) (sockfd x) = (if index ch = kAddedChannel then None else Some (kNoneEvent, conn_channel x))
    \<and> tcp_inv interest w1 \<and> pendings w1 = pendings w
    \<and> handle_close s user me c w = andthen (call_cb user (on_connection x) (ConnArg c) w1) (\<lambda>w2.
         with_conn c w2 (\<lambda>x2. call_cb user (conn_on_close x2) (ConnArg c) w2))"
proof -
  have ch: "channel_heap w (conn_channel x) = Some ch" "conn_ok ch x"
    using tcp_invD(2) [OF inv x(1)] x(3) by simp_all
  let ?p = "conn_channel x" and ?y = "x\<lparr>state := Disconnected\<rparr>"
  obtain k where k: "update_mask (loop_part s) me disable_all ?p (put_conn c ?y w) =
      Inr (channel_changed ?p (masked disable_all ch) (Some ?p) k (put_conn c ?y w))"
    using conn_mask_ok [OF sys inv me ch(1) mask_only_ops(5) tcp_frame_refl] by metis
  define w1 where "w1 = channel_changed ?p (masked disable_all ch) (Some ?p) k (put_conn c ?y w)"
  have run: "DisableAllEvent (loop_part s) me ?p (put_conn c ?y w) = Inr w1"
    using k by (simp add: mask_operations w1_def)
  have w1: "conns w1 = (conns w)(c \<mapsto> ?y)" "pendings w1 = pendings w" "channel_heap w1 ?p = Some (masked disable_all ch)"
    by (simp_all add: w1_def)
  have inv1: "tcp_inv interest w1"
    using tcp_stepD(1) [OF close_channel_step(1) [OF sys(1) inv x(1) me run]] .
  have m: "ch_fd (masked disable_all ch) = sockfd x" "events (masked disable_all ch) = kNoneEvent"
      "index (masked disable_all ch) = (if index ch = kAddedChannel then kDeletedChannel else kAddedChannel)"
    using conn_okD(1) [OF ch(2)] by (simp_all add: mask_only_ops mask_onlyD(4))
      (simp_all add: masked_def after_update_def disable_all_def IsNoneEvent_def)
  have "index_ok interest w1 ?p (masked disable_all ch)"
    using poller_invD(1) [OF loop_invD(1) [OF tcp_invD(1) [OF inv1]] w1(3)] .
  then have "interest (epoll w1) (sockfd x) = (if index ch = kAddedChannel then None else Some (kNoneEvent, ?p))"
    using m by (auto simp: index_ok_def index_values split: if_splits)
  moreover have "handle_close s user me c w = andthen (call_cb user (on_connection x) (ConnArg c) w1) (\<lambda>w2.
         with_conn c w2 (\<lambda>x2. call_cb user (conn_on_close x2) (ConnArg c) w2))"
    using x me run w1(1) by (auto simp: handle_close_def with_conn_def AssertInLoopThread_def)
  ultimately show ?thesis
    using inv1 w1 by blast
qed

theorem handle_close_result_witness:
  "\<exists>w1 w'. handle_close ex_csys ex_user 7 20 (ex_tcp Connected fresh_buffer 3) = Inr w' \<and> w' = w1 \<and> epoll w1 6 = None"
proof -
  have inv: "tcp_inv (\<lambda>k. k) (ex_tcp Connected fresh_buffer 3)"
    using ex_tcp_inv(1) fresh_buffer_inv fresh_buffer_content by simp
  have st: "state (ex_conn Connected fresh_buffer) = Connected \<or> state (ex_conn Connected fresh_buffer) = Disconnecting"
    by simp
  have heap: "channel_heap (ex_tcp Connected fresh_buffer 3) (conn_channel (ex_conn Connected fresh_buffer)) = Some (ex_conn_channel 3)"
    by simp
  have "index (ex_conn_channel 3) = kAddedChannel"
    by (simp add: ex_conn_channel_def kAddedChannel_def)
  with handle_close_result [OF ex_csys_ok inv ex_tcp_simps(1) st heap ex_tcp_simps(2), of ex_user] show ?thesis
    by (auto simp: call_cb_def ex_user_def ex_conn_def with_conn_def)
qed

text \<open>C35: \<open>ConnectionDestroyed\<close> on a connection that is not in the state \<open>Connected\<close> unregisters the
  channel when it has no events left; otherwise an assertion fails. A connection in the state
  \<open>Disconnecting\<close> that still reads is such a case.\<close>

theorem ConnectionDestroyed_result:
  assumes sys: "conn_sys_ok s interest" and inv: "tcp_inv interest w"
    and x: "conns w c = Some x" "state x \<noteq> Connected" "channel_heap w (conn_channel x) = Some ch" and me: "IsInLoopThread me w"
  shows "if IsNoneEvent ch \<and> (loop_event_handing w \<longrightarrow> current_active_channel w = Some (conn_channel x) \<or> conn_channel x \<notin> set (active_channels w))
    then \<exists>w' ch'. ConnectionDestroyed s user me c w = Inr w' \<and> interest (epoll w') (sockfd x) = None \<and> channels w' (sockfd x) = None
      \<and> conns w' = conns w \<and> channel_heap w' = (channel_heap w)(conn_channel x \<mapsto> ch') \<and> added_in_loop ch' = Some False
      \<and> event_handing ch' = event_handing ch \<and> ch_fd ch' = sockfd x \<and> tcp_inv interest w'
    else ConnectionDestroyed s user me c w = Inl AssertFail"
proof -
  let ?p = "conn_channel x" and ?d = "ch\<lparr>added_in_loop := Some False, index := kNewChannel\<rparr>"
  have fd: "ch_fd ch = sockfd x"
    using tcp_invD(2) [OF inv x(1)] x(3) by (auto simp: conn_ok_def)
  have run: "ConnectionDestroyed s user me c w = RemoveFromLoop (loop_part s) me ?p w"
    using x me by (simp add: ConnectionDestroyed_def with_conn_def AssertInLoopThread_def)
  note sync = RemoveFromLoop_sync [OF conn_sys_okD(1) [OF sys] tcp_invD(1) [OF inv] me x(3)]
  show ?thesis
  proof (cases "IsNoneEvent ch \<and> (loop_event_handing w \<longrightarrow> current_active_channel w = Some ?p \<or> ?p \<notin> set (active_channels w))")
    case True
    then obtain k where k: "RemoveFromLoop (loop_part s) me ?p w = Inr (channel_changed ?p ?d None k w)" "interest k (sockfd x) = None"
      using sync fd by (simp only: if_True) metis
    have "tcp_inv interest (channel_changed ?p ?d None k w)"
      using tcp_stepD(1) [OF RemoveFromLoop_step [OF sys inv x(1) me k(1)]] .
    then show ?thesis
      using True k fd run by (simp, intro exI [of _ "channel_changed ?p ?d None k w"] exI [of _ ?d]) simp
  next
    case False
    then show ?thesis
      using sync run by (simp only: if_False)
  qed
qed

theorem ConnectionDestroyed_result_witness:
  "ConnectionDestroyed ex_csys ex_user 7 20 (ex_tcp Disconnecting fresh_buffer 3) = Inl AssertFail
   \<and> (\<exists>w'. ConnectionDestroyed ex_csys ex_user 7 20 (ex_tcp Disconnected fresh_buffer 0) = Inr w' \<and> channels w' 6 = None)"
proof -
  have inv: "tcp_inv (\<lambda>k. k) (ex_tcp Disconnecting fresh_buffer 3)"
    using ex_tcp_inv(1) fresh_buffer_inv fresh_buffer_content by simp
  have heap: "channel_heap (ex_tcp st b ev) (conn_channel (ex_conn st b)) = Some (ex_conn_channel ev)" for st b ev
    by simp
  have none: "IsNoneEvent (ex_conn_channel 0)" "\<not> IsNoneEvent (ex_conn_channel 3)" and idle: "\<not> loop_event_handing (ex_tcp st b ev)" for st b ev
    by (simp_all add: IsNoneEvent_def ex_conn_channel_def kNoneEvent_def ex_tcp_def)
  show ?thesis
    using ConnectionDestroyed_result [OF ex_csys_ok(1) inv ex_tcp_simps(1) _ heap ex_tcp_simps(2), of ex_user]
      ConnectionDestroyed_result [OF ex_csys_ok(1) ex_closed_inv(1) ex_tcp_simps(1) _ heap ex_tcp_simps(2), of ex_user] none idle
    by auto
qed

subsection \<open>Construction and destruction\<close>

lemma initial_buffer:
  obtains b where "Buffer_ctor kInitialSize = Inr b" "buf_inv b" "content b = []"
  by (auto simp: Buffer_ctor_def vector_resize_def kInitialSize_def kCheapPrepend_def size_add_def size_modulus_def vector_max_def
      buf_inv_def buf_wf_def content_def)

lemma TcpConnection_ctor_ok:
  assumes sys: "conn_sys_ok s interest" and inv: "tcp_inv interest w" "pend_ok w" and fresh: "conns w c = None" "channel_heap w p = None"
    and fd: "\<forall>q d. channel_heap w q = Some d \<longrightarrow> ch_fd d \<noteq> fd"
  shows "\<exists>w' x. TcpConnection_ctor s c p fd laddr paddr name w = Inr w' \<and> tcp_inv interest w' \<and> pend_ok w' \<and> tcp_forward w w'
    \<and> conns w' = (conns w)(c \<mapsto> x) \<and> state x = Connecting \<and> conn_channel x = p \<and> sockfd x = fd \<and> conn_name x = name
    \<and> local_addr x = laddr \<and> peer_addr x = paddr
    \<and> accepted x = [] \<and> sent x = [] \<and> content (output_buffer x) = [] \<and> content (input_buffer x) = []
    \<and> interest (epoll w') fd = None"
proof -
  obtain b where b: "Buffer_ctor kInitialSize = Inr b" "buf_inv b" "content b = []"
    by (rule initial_buffer)
  define v where "v = w\<lparr>epoll := SetKeepAlive (conn_setsockopt s) fd True (epoll w)\<rparr>"
  have "tcp_frame interest w v"
    unfolding v_def by (rule tcp_frame_epoll) (rule conn_sys_okD(9) [OF sys])
  from tcp_frame_step [OF inv(1) this] have v: "tcp_inv interest v" "pend_ok v"
    using inv(2) by (simp_all add: tcp_step_def)
  have same: "conns v = conns w" "channel_heap v = channel_heap w" "this_loop v = this_loop w" "thread_id v = thread_id w"
    by (simp_all add: v_def)
  obtain w' x ch where run: "TcpConnection_ctor s c p fd laddr paddr name w = Inr w'"
    and w': "w' = v\<lparr>channel_heap := (channel_heap v)(p \<mapsto> ch), conns := (conns v)(c \<mapsto> x)\<rparr>"
    and x: "state x = Connecting" "conn_channel x = p" "sockfd x = fd" "conn_name x = name" "local_addr x = laddr" "peer_addr x = paddr"
      "accepted x = []" "sent x = []" "input_buffer x = b" "output_buffer x = b" "\<not> shut_wr x"
    and ch: "ch_fd ch = fd" "ch_loop ch = this_loop w" "index ch = kNewChannel" "IsNoneEvent ch" "\<not> IsWriteEvent ch"
    using b(1) by (simp add: v_def TcpConnection_ctor_def Channel_ctor_def BindErrorCallback_def BindCloseCallback_def BindWriteCallback_def
        BindReadCallback_def IsNoneEvent_def IsWriteEvent_def has_event_def kNoneEvent_def index_values)
  have ok: "conn_ok ch x"
    using x ch(1,5) b(2,3) by (simp add: conn_ok_def open_state_def)
  have loop: "loop_inv interest w'"
    unfolding w' loop_inv_frame using loop_inv_new_channel [OF tcp_invD(1) [OF v(1)] fresh(2) [folded same(2)]] fd ch same by auto
  have old: "conn_channel z \<noteq> p \<and> channel_heap w' (conn_channel z) = channel_heap v (conn_channel z)" if "conns v d = Some z" for d z
    using tcp_invD(2) [OF v(1) that] fresh(2) same by (auto simp: w')
  have tcp: "tcp_inv interest w'"
    unfolding tcp_inv_def
  proof (intro conjI allI impI)
    fix d z assume "conns w' d = Some z"
    then show "\<exists>ch. channel_heap w' (conn_channel z) = Some ch \<and> conn_ok ch z"
      using old [of d z] tcp_invD(2) [OF v(1)] x(2) ok by (cases "d = c") (auto simp: w')
  next
    fix d e z v assume "conns w' d = Some z" "conns w' e = Some v" "conn_channel z = conn_channel v"
    then show "d = e"
      using old tcp_invD(3) [OF v(1)] x(2) by (cases "d = c"; cases "e = c") (auto simp: w')
  qed (rule loop)
  have fwd: "tcp_forward v w'"
    using fresh(1) same by (auto simp: tcp_forward_def w')
  have pend: "pend_ok w'"
    using pend_ok_forward [OF fwd _ v(2)] by (simp add: w')
  have "channels v fd = None"
    using poller_invD(2) [OF loop_invD(1) [OF tcp_invD(1) [OF v(1)]]] fd same by (cases "channels v fd") fastforce+
  then have "interest (epoll w') fd = None"
    using poller_invD(3) [OF loop_invD(1) [OF tcp_invD(1) [OF v(1)]]] by (simp add: w')
  then show ?thesis
    using run tcp pend fwd x b(3) same by (intro exI [of _ w'] exI [of _ x]) (simp add: w' tcp_forward_def)
qed

text \<open>A new connection on a descriptor that no channel uses keeps the invariant of the loop; it
  is \<open>Connecting\<close>, nothing is accepted, sent or buffered, and the kernel does not watch it yet.\<close>

theorem TcpConnection_ctor_result:
  assumes sys: "conn_sys_ok s interest" and inv: "tcp_inv interest w" "pend_ok w" and fresh: "conns w c = None" "channel_heap w p = None"
    and fd: "\<forall>q d. channel_heap w q = Some d \<longrightarrow> ch_fd d \<noteq> fd"
  shows "\<exists>w' x. TcpConnection_ctor s c p fd laddr paddr name w = Inr w' \<and> tcp_inv interest w' \<and> pend_ok w'
    \<and> conns w' = (conns w)(c \<mapsto> x) \<and> state x = Connecting \<and> conn_channel x = p \<and> sockfd x = fd \<and> conn_name x = name
    \<and> local_addr x = laddr \<and> peer_addr x = paddr
    \<and> accepted x = [] \<and> sent x = [] \<and> content (output_buffer x) = [] \<and> content (input_buffer x) = []
    \<and> interest (epoll w') fd = None"
  using TcpConnection_ctor_ok [OF assms] by blast

theorem TcpConnection_ctor_result_witness:
  "\<exists>w' x. TcpConnection_ctor ex_csys 21 13 9 [] [] ''d'' (ex_tcp Connected fresh_buffer 3) = Inr w' \<and> conns w' 21 = Some x
    \<and> state x = Connecting \<and> conn_name x = ''d''"
proof -
  let ?w = "ex_tcp Connected fresh_buffer 3"
  have inv: "tcp_inv (\<lambda>k. k) ?w" "pend_ok ?w"
    using ex_tcp_inv fresh_buffer_inv fresh_buffer_content by simp_all
  have fresh: "conns ?w 21 = None" "channel_heap ?w 13 = None"
    by (simp_all add: ex_tcp_def)
  have "\<forall>q d. channel_heap ?w q = Some d \<longrightarrow> ch_fd d \<noteq> 9"
    by (simp add: ex_tcp_def ex_conn_channel_def)
  from TcpConnection_ctor_result [OF ex_csys_ok(1) inv fresh this, of "[]" "[]" "''d''"] show ?thesis
    by auto
qed

text \<open>An unregistered connection can go, with its channel, and the other connections stay as they are.\<close>

lemma tcp_inv_delete_conn:
  assumes inv: "tcp_inv interest w" and x: "conns w c = Some x" "channels w (sockfd x) = None" and k: "interest k = interest (epoll w)"
  shows "tcp_inv interest (w\<lparr>channel_heap := (channel_heap w)(conn_channel x := None), epoll := k, conns := (conns w)(c := None)\<rparr>)"
proof -
  let ?v = "w\<lparr>channel_heap := (channel_heap w)(conn_channel x := None)\<rparr>"
  let ?w = "w\<lparr>channel_heap := (channel_heap w)(conn_channel x := None), epoll := k, conns := (conns w)(c := None)\<rparr>"
  obtain ch where ch: "channel_heap w (conn_channel x) = Some ch" "ch_fd ch = sockfd x"
    using tcp_invD(2) [OF inv x(1)] by (auto simp: conn_ok_def)
  have "loop_inv interest ?v"
    by (rule loop_inv_delete_channel [OF tcp_invD(1) [OF inv] ch(1)]) (use x ch in simp)
  then have "loop_inv interest ?w"
    using k by (simp add: loop_inv_frame loop_inv_epoll)
  moreover have "\<exists>d. channel_heap ?w (conn_channel z) = Some d \<and> conn_ok d z" if "conns ?w e = Some z" for e z
  proof -
    have z: "conns w e = Some z" "e \<noteq> c"
      using that by (auto split: if_splits)
    then have "conn_channel z \<noteq> conn_channel x"
      using tcp_invD(3) [OF inv z(1) x(1)] by blast
    then show ?thesis
      using tcp_invD(2) [OF inv z(1)] by simp
  qed
  moreover have "e = f" if "conns ?w e = Some y" "conns ?w f = Some z" "conn_channel y = conn_channel z" for e f y z
    using that tcp_invD(3) [OF inv] by (auto split: if_splits)
  ultimately show ?thesis
    unfolding tcp_inv_def by blast
qed



subsection \<open>Orders of calls that go wrong\<close>

text \<open>C36: a thread other than the loop's that calls \<open>Send\<close> and then \<open>Shutdown\<close> loses the message:
  \<open>Shutdown\<close> changes the state at once, so the queued \<open>send_in_loop\<close> rejects the message, and the
  next functor closes the sending direction. None of its bytes is accepted or sent.\<close>

theorem remote_send_then_shutdown_drops:
  assumes inv: "tcp_inv interest w" and x: "conns w c = Some x" "state x = Connected" "content (output_buffer x) = []"
    and t: "thread_id w = me" "t \<noteq> me" "pendings w = []"
  shows "\<exists>w1 w2 w3 y. Send s user t c msg w = Inr w1 \<and> Shutdown s t c w1 = Inr w2
    \<and> run_pendings (exec_functor s user me) (pendings w2) (w2\<lparr>pendings := []\<rparr>) = Inr w3
    \<and> conns w3 c = Some y \<and> sent y = sent x \<and> accepted y = accepted x \<and> content (output_buffer y) = [] \<and> shut_wr y"
proof -
  obtain ch where ch: "channel_heap w (conn_channel x) = Some ch" "\<not> IsWriteEvent ch"
    using tcp_invD(2) [OF inv x(1)] x(2,3) by (auto simp: conn_ok_def open_state_def)
  show ?thesis
    using x t ch by (simp add: Send_def Shutdown_def with_conn_def RunInLoop_def IsInLoopThread_def QueueInLoop_def Let_def set_wakeup_def
        put_conn_def send_in_loop_def shutdown_in_loop_def AssertInLoopThread_def with_channel_def ShutdownWrite_def)
qed

theorem remote_send_then_shutdown_drops_witness:
  "\<exists>w1 w2 w3 y. Send ex_csys ex_user 8 20 [1, 2] (ex_tcp Connected fresh_buffer 3) = Inr w1 \<and> Shutdown ex_csys 8 20 w1 = Inr w2
    \<and> run_pendings (exec_functor ex_csys ex_user 7) (pendings w2) (w2\<lparr>pendings := []\<rparr>) = Inr w3
    \<and> conns w3 20 = Some y \<and> sent y = [] \<and> shut_wr y"
proof -
  have inv: "tcp_inv (\<lambda>k. k) (ex_tcp Connected fresh_buffer 3)"
    using ex_tcp_inv(1) fresh_buffer_inv fresh_buffer_content by simp
  have t: "(8::nat) \<noteq> 7" and x: "state (ex_conn Connected fresh_buffer) = Connected" "content (output_buffer (ex_conn Connected fresh_buffer)) = []"
    by (simp_all add: fresh_buffer_content)
  from remote_send_then_shutdown_drops [OF inv ex_tcp_simps(1) x ex_tcp_simps(11) t ex_tcp_simps(12), of ex_csys ex_user "[1, 2]"]
  show ?thesis
    by (elim exE conjE) (intro exI conjI, assumption+, simp, assumption)
qed

text \<open>C37: \<open>StartRead\<close> on a closed connection has no guard on the state: it registers the socket for
  reading again, and the following \<open>ConnectionDestroyed\<close> fails its assertion.\<close>

theorem StartRead_after_close:
  assumes sys: "conn_sys_ok s interest" "epoll_accepts (sys_ctl (loop_part s)) interest" and inv: "tcp_inv interest w"
    and x: "conns w c = Some x" "state x = Disconnected" "channel_heap w (conn_channel x) = Some ch" "IsNoneEvent ch"
    and me: "IsInLoopThread me w"
  shows "\<exists>w1. StartRead s me c w = Inr w1 \<and> interest (epoll w1) (sockfd x) = Some (kReadEvent, conn_channel x)
    \<and> ConnectionDestroyed s user me c w1 = Inl AssertFail"
proof -
  let ?p = "conn_channel x" and ?m = "masked enable_read ch"
  have fd: "ch_fd ch = sockfd x"
    using tcp_invD(2) [OF inv x(1)] x(3) by (auto simp: conn_ok_def)
  obtain k where k: "update_mask (loop_part s) me enable_read ?p w = Inr (channel_changed ?p ?m (Some ?p) k w)"
    "loop_inv interest (channel_changed ?p ?m (Some ?p) k w)"
    using update_mask_ok [OF conn_sys_okD(1) [OF sys(1)] sys(2) tcp_invD(1) [OF inv] me x(3) mask_only_ops(1)] by metis
  let ?v = "channel_changed ?p ?m (Some ?p) k w"
  let ?w1 = "put_conn c (x\<lparr>reading := True\<rparr>) ?v"
  have off: "\<not> IsReadEvent ch"
    using IsNoneEvent_no_interest [OF x(4)] by simp
  have run: "StartRead s me c w = Inr ?w1"
    using x me off k(1) by (simp add: StartRead_def RunInLoop_def start_read_in_loop_def with_conn_def AssertInLoopThread_def
        with_channel_def mask_operations)
  have m: "events ?m = kReadEvent" "ch_fd ?m = sockfd x" "\<not> IsNoneEvent ?m"
    using x(4) fd by (simp_all add: mask_only_ops mask_onlyD(4,6))
      (simp add: mask_only_ops mask_onlyD(6) enable_read_def IsNoneEvent_def kNoneEvent_def)
  have "interest (epoll ?v) (sockfd x) = Some (kReadEvent, ?p)"
    using channel_watched [OF k(2), of ?p ?m] m by (simp add: event_bits)
  moreover have w1: "tcp_inv interest ?w1"
    using tcp_stepD(1) [OF StartRead_step [OF sys(1) inv]] run by blast
  have "RemoveFromLoop (loop_part s) me ?p ?w1 = Inl AssertFail"
    using RemoveFromLoop_sync [OF conn_sys_okD(1) [OF sys(1)] tcp_invD(1) [OF w1], of me ?p ?m] m(3) me by simp
  then have "ConnectionDestroyed s user me c ?w1 = Inl AssertFail"
    using x me by (simp add: ConnectionDestroyed_def with_conn_def AssertInLoopThread_def)
  ultimately show ?thesis
    using run by (intro exI [of _ ?w1]) simp
qed

theorem StartRead_after_close_witness:
  "\<exists>w1. StartRead ex_csys 7 20 (ex_tcp Disconnected fresh_buffer 0) = Inr w1 \<and> epoll w1 6 = Some (kReadEvent, 12)
    \<and> ConnectionDestroyed ex_csys ex_user 7 20 w1 = Inl AssertFail"
proof -
  let ?w = "ex_tcp Disconnected fresh_buffer 0" and ?x = "ex_conn Disconnected fresh_buffer"
  have x: "state ?x = Disconnected" "channel_heap ?w (conn_channel ?x) = Some (ex_conn_channel 0)" "IsNoneEvent (ex_conn_channel 0)"
    by (simp_all add: IsNoneEvent_def ex_conn_channel_def kNoneEvent_def)
  from StartRead_after_close [OF ex_csys_ok ex_closed_inv(1) ex_tcp_simps(1) x ex_tcp_simps(2), of ex_user]
  show ?thesis
    by simp
qed

end
