(* ===== verification/DelayedClose.thy ===== *)
theory DelayedClose
  imports LoopTimers Connection_Props
begin

text \<open>
  \<open>TcpConnection::ForceCloseDelay\<close> (\<open>src/tcp_connection.cpp\<close>): a timer of the loop that closes the
  connection, where the timer queue and the connections meet. It is called in the loop thread, in
  which \<open>RunAfter\<close> schedules at once.
\<close>

text \<open>The timer callback captures a weak pointer to the connection.\<close>

datatype conn_timer = ForceCloseTimer ptr

definition ForceCloseDelay :: "conn_timer alloc_fun \<Rightarrow> settime_fun \<Rightarrow> time_point \<Rightarrow> time_point \<Rightarrow> dbl \<Rightarrow> ptr \<Rightarrow>
    conn_timer timer_queue \<Rightarrow> (ptr \<times> conn_timer timer_queue) res" where
  "ForceCloseDelay alloc settime now clock sec c q = RunAfter alloc settime now clock sec (ForceCloseTimer c) q"

primrec run_conn_timer :: "'k conn_sys \<Rightarrow> thread_id \<Rightarrow> conn_timer \<Rightarrow> ('k, 'u, 'z) tcp_state \<Rightarrow> ('k, 'u, 'z) tcp_state res" where
  "run_conn_timer s me (ForceCloseTimer c) w = ForceCloseDelay_fire s me c w"

text \<open>The delay schedules one timer, which fires once, \<open>sec\<close> seconds later. When it fires, a
  connection that is gone or already closed is left alone; an open one starts to disconnect and
  its closing is queued in the loop, with everything else unchanged.\<close>

theorem ForceCloseDelay_result:
  assumes wf: "tq_wf q" "alloc_ok alloc" "settime_ok settime"
    and sec: "0 < sec" "sec * 10 ^ 9 < 2 ^ 53" "in_rep (now + sec * 10 ^ 9)"
  shows "scheduled (now + sec * 10 ^ 9) (Timer_ctor (ForceCloseTimer c) (now + sec * 10 ^ 9) (0, 0)) q
      (ForceCloseDelay alloc settime now clock (sec, 0) c q)
    \<and> \<not> IsRepeat (Timer_ctor (ForceCloseTimer c) (now + sec * 10 ^ 9) (0, 0))
    \<and> (case conns w c of
         None \<Rightarrow> run_conn_timer s me (ForceCloseTimer c) w = Inr w
       | Some x \<Rightarrow>
           if open_state (state x)
           then \<exists>w'. run_conn_timer s me (ForceCloseTimer c) w = Inr w' \<and> conns w' = (conns w)(c \<mapsto> x\<lparr>state := Disconnecting\<rparr>)
             \<and> pendings w' = pendings w @ [ForceCloseFn c] \<and> channel_heap w' = channel_heap w
           else run_conn_timer s me (ForceCloseTimer c) w = Inr w)"
proof -
  have "seconds_to_rep (sec, 0) = Inr (sec * 10 ^ 9)"
    using sec by (intro seconds_to_rep_whole) simp_all
  moreover have "time_add now (sec * 10 ^ 9) = Inr (now + sec * 10 ^ 9)"
    using sec(3) by (simp add: time_add_def)
  ultimately have "scheduled (now + sec * 10 ^ 9) (Timer_ctor (ForceCloseTimer c) (now + sec * 10 ^ 9) (0, 0)) q
      (ForceCloseDelay alloc settime now clock (sec, 0) c q)"
    using AddTimer_in_loop_schedules [OF wf] by (simp add: ForceCloseDelay_def RunAfter_def)
  moreover have "\<not> IsRepeat (Timer_ctor (ForceCloseTimer c) (now + sec * 10 ^ 9) (0, 0))"
    by (simp add: IsRepeat_def Timer_ctor_def dbl_pos_def)
  ultimately show ?thesis
    by (auto simp: ForceCloseDelay_fire_def ForceClose_def with_conn_def open_state_def QueueInLoop_def set_wakeup_def Let_def
        put_conn_def split: option.split)
qed

end
