(* ===== verification/ThreadPool.thy ===== *)
theory ThreadPool
  imports Benet_Prelude "HOL-Library.Multiset"
begin

text \<open>
  \<open>EventLoopThreadPool\<close> of \<open>src/eventloop_threadpool.cpp\<close>. The pointers that \<open>EventLoopThread::Start\<close>
  returns are the parameter \<open>spawn\<close>; whether the caller is in the thread of the base loop is the
  argument \<open>in_loop\<close>. The counter of \<open>GetNextLoop\<close> is a static variable of the function and not
  a member: it is an argument and a result, shared by all pools of the program.
\<close>

record pool =
  base_loop :: ptr
  pool_name :: string
  pool_started :: bool
  num_threads :: int
  threads :: "string list"
  pool_loops :: "ptr list"

definition EventLoopThreadPool_ctor :: "ptr \<Rightarrow> string \<Rightarrow> pool" where
  "EventLoopThreadPool_ctor base name =
     \<lparr>base_loop = base, pool_name = name, pool_started = False, num_threads = 0, threads = [], pool_loops = []\<rparr>"

definition InitThreadsNumber :: "int \<Rightarrow> pool \<Rightarrow> pool res" where
  "InitThreadsNumber n p = assert_then (\<not> pool_started p) (Inr (p\<lparr>num_threads := n\<rparr>))"

text \<open>The loop of \<open>Start\<close>, from thread \<open>i\<close> on.\<close>

function start_threads :: "(string \<Rightarrow> nat \<Rightarrow> ptr) \<Rightarrow> nat \<Rightarrow> pool \<Rightarrow> pool" where
  "start_threads spawn i p =
     (if int i < num_threads p
      then let thread_name = pool_name p @ ''/'' @ dec_string i
           in start_threads spawn (Suc i)
                (p\<lparr>threads := threads p @ [thread_name], pool_loops := pool_loops p @ [spawn thread_name i]\<rparr>)
      else p)"
  by pat_completeness auto

termination
  by (relation "measure (\<lambda>(spawn, i, p). nat (num_threads p - int i))") auto

declare start_threads.simps [simp del]

text \<open>The second result lists the loops for which this thread calls the init callback.\<close>

definition pool_Start :: "(string \<Rightarrow> nat \<Rightarrow> ptr) \<Rightarrow> bool \<Rightarrow> bool \<Rightarrow> pool \<Rightarrow> (pool \<times> ptr list) res" where
  "pool_Start spawn in_loop has_init_cb p =
     assert_then (\<not> pool_started p)
       (if \<not> in_loop then Inl Critical
        else Inr (start_threads spawn 0 (p\<lparr>pool_started := True\<rparr>),
                  if num_threads p = 0 \<and> has_init_cb then [base_loop p] else []))"

definition GetNextLoop :: "bool \<Rightarrow> nat \<Rightarrow> pool \<Rightarrow> (ptr \<times> nat) res" where
  "GetNextLoop in_loop next_index p =
     (if \<not> in_loop then Inl Critical
      else assert_then (pool_started p)
        (if pool_loops p \<noteq> []
         then Inr (pool_loops p ! (next_index mod length (pool_loops p)), size_add next_index 1)
         else Inr (base_loop p, next_index)))"

definition GetAllLoops :: "bool \<Rightarrow> pool \<Rightarrow> ptr list res" where
  "GetAllLoops in_loop p =
     (if \<not> in_loop then Inl Critical
      else assert_then (pool_started p) (if pool_loops p = [] then Inr [base_loop p] else Inr (pool_loops p)))"

subsection \<open>Starting\<close>

lemma start_threads_frame:
  "base_loop (start_threads spawn i p) = base_loop p" "pool_name (start_threads spawn i p) = pool_name p"
  "pool_started (start_threads spawn i p) = pool_started p" "num_threads (start_threads spawn i p) = num_threads p"
  by (induction spawn i p rule: start_threads.induct) (simp_all add: start_threads.simps Let_def)

lemma start_threads_lists:
  "threads (start_threads spawn i p) = threads p @ map (\<lambda>j. pool_name p @ ''/'' @ dec_string j) [i..<nat (num_threads p)]
   \<and> pool_loops (start_threads spawn i p) =
       pool_loops p @ map (\<lambda>j. spawn (pool_name p @ ''/'' @ dec_string j) j) [i..<nat (num_threads p)]"
proof (induction spawn i p rule: start_threads.induct)
  case (1 spawn i p)
  show ?case
  proof (cases "int i < num_threads p")
    case True
    then have "[i..<nat (num_threads p)] = i # [Suc i..<nat (num_threads p)]"
      by (simp add: upt_conv_Cons)
    then show ?thesis
      using 1 [OF True refl] True by (simp add: start_threads.simps [of spawn i p] Let_def)
  next
    case False
    then show ?thesis
      by (simp add: start_threads.simps [of spawn i p])
  qed
qed

subsection \<open>Choosing a loop\<close>

text \<open>What a server relies on: a loop that it gets is one of the loops of the pool, and it gets one
  whenever it may ask.\<close>

locale loop_chooser =
  fixes next_loop :: "bool \<Rightarrow> nat \<Rightarrow> 'p \<Rightarrow> (ptr \<times> nat) res" and all_loops :: "bool \<Rightarrow> 'p \<Rightarrow> ptr list res"
  assumes next_member: "next_loop b i p = Inr (l, i') \<Longrightarrow> \<exists>ls. all_loops b p = Inr ls \<and> l \<in> set ls"
    and next_fails: "next_loop b i p = Inl e \<longleftrightarrow> all_loops b p = Inl e"
begin

lemma next_total:
  assumes "all_loops b p = Inr all"
  obtains l i' where "next_loop b i p = Inr (l, i')" "l \<in> set all"
proof (cases "next_loop b i p")
  case (Inl e)
  then show thesis
    using next_fails [of b i p e] assms by simp
next
  case (Inr r)
  then show thesis
    using that [of "fst r" "snd r"] next_member [of b i p "fst r" "snd r"] assms by simp
qed

lemma next_forall: "all_loops b p = Inr all \<Longrightarrow> \<forall>l \<in> set all. Q l \<Longrightarrow> next_loop b i p = Inr (l, i') \<Longrightarrow> Q l"
  using next_member by fastforce

end

interpretation rr: loop_chooser GetNextLoop GetAllLoops
  by unfold_locales (auto simp: GetNextLoop_def GetAllLoops_def assert_then_def split: if_splits)

text \<open>Consecutive calls.\<close>

primrec next_loops :: "nat \<Rightarrow> nat \<Rightarrow> pool \<Rightarrow> (ptr list \<times> nat) res" where
  "next_loops 0 i p = Inr ([], i)"
| "next_loops (Suc k) i p =
     andthen (GetNextLoop True i p) (\<lambda>(l, i1). andthen (next_loops k i1 p) (\<lambda>(ls, i2). Inr (l # ls, i2)))"

lemma next_loops_eq:
  assumes "pool_started p" "pool_loops p \<noteq> []" "idx + k < size_modulus"
  shows "next_loops k idx p =
    Inr (map (\<lambda>j. pool_loops p ! ((idx + j) mod length (pool_loops p))) [0..<k], idx + k)"
  using assms(3)
proof (induction k arbitrary: idx)
  case (Suc k)
  have "size_add idx 1 = idx + 1"
    using Suc.prems by (intro size_add_exact) simp
  moreover have "map (\<lambda>j. pool_loops p ! ((idx + j) mod length (pool_loops p))) [0..<Suc k] =
      pool_loops p ! (idx mod length (pool_loops p)) # map (\<lambda>j. pool_loops p ! ((idx + 1 + j) mod length (pool_loops p))) [0..<k]"
    by (simp add: map_upt_Suc del: upt_Suc)
  ultimately show ?case
    using Suc.IH [of "idx + 1"] Suc.prems assms(1,2) by (simp add: GetNextLoop_def assert_then_def)
qed simp

text \<open>A block of as many calls as there are loops is a permutation of the loops.\<close>

lemma mod_block:
  assumes "0 < n"
  shows "mset (map (\<lambda>j. (i + j) mod n) [0..<n]) = mset [0..<n]"
proof -
  have le: "a = b" if ab: "a \<le> b" "b < n" "(i + a) mod n = (i + b) mod n" for a b
  proof -
    have "n dvd i + b - (i + a)"
      using mod_eq_dvd_iff_nat [of "i + a" "i + b" n] ab(1,3) by simp
    then show ?thesis
      using ab(1,2) nat_dvd_not_less [of "b - a" n] by fastforce
  qed
  have inj: "inj_on (\<lambda>j. (i + j) mod n) {0..<n}"
    by (rule inj_onI) (metis le atLeastLessThan_iff nat_le_linear)
  have "(\<lambda>j. (i + j) mod n) ` {0..<n} \<subseteq> {0..<n}"
    using assms by auto
  then have "(\<lambda>j. (i + j) mod n) ` {0..<n} = {0..<n}"
    using inj by (intro card_subset_eq) (simp_all add: card_image)
  then have "mset (map (\<lambda>j. (i + j) mod n) [0..<n]) = mset_set {0..<n}"
    using image_mset_mset_set [OF inj] by simp
  then show ?thesis
    by simp
qed

text \<open>C29: a pool started with \<open>n > 0\<close> threads has \<open>n\<close> loops, and any \<open>n\<close> consecutive calls of
  \<open>GetNextLoop\<close> return each of them once, in their order from the counter on, as long as no other
  pool moves the counter and it does not wrap around. Without threads it is always the base loop.\<close>

theorem pool_round_robin:
  assumes "InitThreadsNumber n (EventLoopThreadPool_ctor base name) = Inr p0" "pool_Start spawn True has_init p0 = Inr (p, inits)"
    "idx + nat n < size_modulus"
  shows "length (pool_loops p) = nat n
    \<and> (0 < n \<longrightarrow> (\<exists>ls. next_loops (nat n) idx p = Inr (ls, idx + nat n) \<and> mset ls = mset (pool_loops p)
         \<and> (\<forall>j < nat n. ls ! j = pool_loops p ! ((idx + j) mod nat n))))
    \<and> (n \<le> 0 \<longrightarrow> GetNextLoop True idx p = Inr (base, idx))"
proof -
  let ?q = "EventLoopThreadPool_ctor base name\<lparr>num_threads := n, pool_started := True\<rparr>"
  have p: "p = start_threads spawn 0 ?q"
    using assms(1,2) by (auto simp: InitThreadsNumber_def pool_Start_def EventLoopThreadPool_ctor_def)
  have started: "pool_started p" "base_loop p = base" "length (pool_loops p) = nat n"
    using start_threads_lists [of spawn 0 ?q] by (simp_all add: p start_threads_frame EventLoopThreadPool_ctor_def)
  have "\<exists>ls. next_loops (nat n) idx p = Inr (ls, idx + nat n) \<and> mset ls = mset (pool_loops p)
         \<and> (\<forall>j < nat n. ls ! j = pool_loops p ! ((idx + j) mod nat n))" if "0 < n"
  proof -
    let ?ls = "map (\<lambda>j. pool_loops p ! ((idx + j) mod nat n)) [0..<nat n]"
    have "next_loops (nat n) idx p = Inr (?ls, idx + nat n)"
      using next_loops_eq [OF started(1) _ assms(3)] that started(3) by fastforce
    moreover have "mset ?ls = image_mset (nth (pool_loops p)) (mset (map (\<lambda>j. (idx + j) mod nat n) [0..<nat n]))"
      by (simp add: multiset.map_comp comp_def)
    moreover have "\<dots> = mset (map (nth (pool_loops p)) [0..<nat n])"
      using mod_block [of "nat n" idx] that by simp
    moreover have "map (nth (pool_loops p)) [0..<nat n] = pool_loops p"
      using map_nth [of "pool_loops p"] started(3) by simp
    ultimately show ?thesis
      by (intro exI [of _ ?ls]) simp
  qed
  moreover have "GetNextLoop True idx p = Inr (base, idx)" if "n \<le> 0"
    using that started by (simp add: GetNextLoop_def)
  ultimately show ?thesis
    using started(3) by blast
qed

theorem pool_round_robin_witness:
  "\<exists>p inits ls. InitThreadsNumber 3 (EventLoopThreadPool_ctor 1 ''io'') = Inr (EventLoopThreadPool_ctor 1 ''io''\<lparr>num_threads := 3\<rparr>)
    \<and> pool_Start (\<lambda>nm i. 100 + i) True False (EventLoopThreadPool_ctor 1 ''io''\<lparr>num_threads := 3\<rparr>) = Inr (p, inits)
    \<and> next_loops 3 7 p = Inr (ls, 10) \<and> mset ls = mset (pool_loops p)"
proof -
  let ?p0 = "EventLoopThreadPool_ctor 1 ''io''\<lparr>num_threads := 3\<rparr>"
  have init: "InitThreadsNumber 3 (EventLoopThreadPool_ctor 1 ''io'') = Inr ?p0"
    by (simp add: InitThreadsNumber_def EventLoopThreadPool_ctor_def)
  obtain p inits where start: "pool_Start (\<lambda>nm i. 100 + i) True False ?p0 = Inr (p, inits)"
    by (simp add: pool_Start_def EventLoopThreadPool_ctor_def)
  have "7 + nat 3 < size_modulus"
    by (simp add: size_modulus_def)
  from pool_round_robin [OF init start this] init start show ?thesis
    by auto
qed

text \<open>Two pools called in turn; the loops that the first one hands out.\<close>

primrec alternate :: "nat \<Rightarrow> nat \<Rightarrow> pool \<Rightarrow> pool \<Rightarrow> (ptr list \<times> nat) res" where
  "alternate 0 i p q = Inr ([], i)"
| "alternate (Suc k) i p q =
     andthen (GetNextLoop True i p) (\<lambda>(l, i1).
     andthen (GetNextLoop True i1 q) (\<lambda>(l', i2).
     andthen (alternate k i2 p q) (\<lambda>(ls, i3). Inr (l # ls, i3))))"

text \<open>The counter is shared by all pools: when two servers in one program get connections in
  turn, the pool of the first one with two loops hands out the same loop every time.\<close>

theorem shared_counter_starves:
  assumes "pool_started p" "pool_loops p = [a, b]" "pool_started q" "pool_loops q \<noteq> []" "idx + 2 * k < size_modulus" "even idx"
  shows "alternate k idx p q = Inr (replicate k a, idx + 2 * k)"
  using assms(5,6)
proof (induction k arbitrary: idx)
  case (Suc k)
  have "size_add idx 1 = idx + 1" "size_add (idx + 1) 1 = idx + 2"
    using Suc.prems size_add_exact [of idx 1] size_add_exact [of "idx + 1" 1] by simp_all
  moreover have "alternate k (idx + 2) p q = Inr (replicate k a, idx + 2 + 2 * k)"
    using Suc.IH [of "idx + 2"] Suc.prems by simp
  moreover have "idx mod Suc (Suc 0) = 0"
    using Suc.prems(2) by (simp add: numeral_2_eq_2 [symmetric])
  ultimately show ?case
    using assms(1-4) by (simp add: GetNextLoop_def assert_then_def)
qed simp

theorem shared_counter_starves_witness:
  "alternate 3 0 (EventLoopThreadPool_ctor 1 ''a''\<lparr>pool_started := True, pool_loops := [10, 11]\<rparr>)
      (EventLoopThreadPool_ctor 2 ''b''\<lparr>pool_started := True, pool_loops := [20, 21]\<rparr>) = Inr ([10, 10, 10], 6)"
proof -
  let ?p = "EventLoopThreadPool_ctor 1 ''a''\<lparr>pool_started := True, pool_loops := [10, 11]\<rparr>"
  let ?q = "EventLoopThreadPool_ctor 2 ''b''\<lparr>pool_started := True, pool_loops := [20, 21]\<rparr>"
  have "pool_started ?p" "pool_loops ?p = [10, 11]" "pool_started ?q" "pool_loops ?q \<noteq> []" "0 + 2 * 3 < size_modulus" "even (0::nat)"
    by (simp_all add: EventLoopThreadPool_ctor_def size_modulus_def)
  from shared_counter_starves [OF this] show ?thesis
    by (simp add: eval_nat_numeral)
qed

end
