(* ===== verification/LoopLifetime.thy ===== *)
theory LoopLifetime
  imports EventLoop
begin

text \<open>
  Construction and destruction of an \<open>EventLoop\<close> (\<open>src/eventloop.cpp\<close>) with the parts it owns: the
  poller (\<open>src/poller.cpp\<close>), the wake-up channel and the channel of the timer queue
  (\<open>src/timer_queue.cpp\<close>), each on a descriptor of its own, and the thread-local pointer
  \<open>tThreadEventLoop\<close> by which a thread refuses a second loop.
\<close>

subsection \<open>Operations\<close>

text \<open>The calls that open and close descriptors; the result of \<open>close\<close> is ignored.\<close>

record 'k life_sys =
  sys_epoll_create1 :: "'k \<Rightarrow> fd sysret \<times> 'k"
  sys_eventfd :: "'k \<Rightarrow> fd sysret \<times> 'k"
  sys_timerfd_create :: "'k \<Rightarrow> fd sysret \<times> 'k"
  life_close :: "fd \<Rightarrow> 'k \<Rightarrow> 'k"

definition create_eventfd :: "'k life_sys \<Rightarrow> 'k \<Rightarrow> (fd \<times> 'k) res" where
  "create_eventfd c k = (case sys_eventfd c k of (SysErr e, k') \<Rightarrow> Inl Critical | (SysOk eventfd, k') \<Rightarrow> Inr (eventfd, k'))"

definition close_eventfd :: "'k life_sys \<Rightarrow> fd \<Rightarrow> 'k \<Rightarrow> 'k" where
  "close_eventfd c fd k = life_close c fd k"

definition create_timerfd :: "'k life_sys \<Rightarrow> 'k \<Rightarrow> (fd \<times> 'k) res" where
  "create_timerfd c k = (case sys_timerfd_create c k of (SysErr e, k') \<Rightarrow> Inl Critical | (SysOk timerfd, k') \<Rightarrow> Inr (timerfd, k'))"

text \<open>
  The constructor: the members, among them the poller with its descriptor and the timer queue,
  which enables its channel; then the check of \<open>tThreadEventLoop\<close> (argument \<open>current\<close>, whose new
  value is the second result) and the wake-up channel. \<open>wp\<close> and \<open>tp\<close> are the addresses of the two
  channels.
\<close>

definition loop_members :: "'k \<Rightarrow> ptr \<Rightarrow> thread_id \<Rightarrow> fd \<Rightarrow> fd \<Rightarrow> fd \<Rightarrow> ptr \<Rightarrow> ptr \<Rightarrow> ('cb, 'k, 'fn) evloop" where
  "loop_members k self me epfd efd tfd wp tp =
     poller.extend (EPoller_ctor epfd k\<lparr>channel_heap := [wp \<mapsto> Channel_ctor self efd, tp \<mapsto> Channel_ctor self tfd]\<rparr>)
       (evloop.fields self False False me False 0 [] None False [] efd wp tfd tp)"

definition TimerQueue_start :: "'k loop_sys \<Rightarrow> 'cb \<Rightarrow> thread_id \<Rightarrow> ('cb, 'k, 'fn, 'z) loop_state \<Rightarrow>
    ('cb, 'k, 'fn, 'z) loop_state res" where
  "TimerQueue_start s timer_cb me w =
     with_channel channel_heap (timer_channel w) w (\<lambda>ch.
       EnableReadEvent s me (timer_channel w) (put_channel (timer_channel w) (BindReadCallback timer_cb ch) w))"

definition EventLoop_body :: "'k loop_sys \<Rightarrow> 'cb \<Rightarrow> thread_id \<Rightarrow> ptr option \<Rightarrow> ('cb, 'k, 'fn, 'z) loop_state \<Rightarrow>
    (('cb, 'k, 'fn, 'z) loop_state \<times> ptr option) res" where
  "EventLoop_body s wakeup_cb me current w =
     (if current \<noteq> None then Inl Critical
      else with_channel channel_heap (wakeup_channel w) w (\<lambda>ch.
        andthen (EnableReadEvent s me (wakeup_channel w) (put_channel (wakeup_channel w) (BindReadCallback wakeup_cb ch) w)) (\<lambda>w1.
          Inr (w1, Some (this_loop w)))))"

definition EventLoop_ctor :: "'k life_sys \<Rightarrow> 'k loop_sys \<Rightarrow> 'cb \<Rightarrow> 'cb \<Rightarrow> 'k \<Rightarrow> ptr \<Rightarrow> thread_id \<Rightarrow> ptr option \<Rightarrow> ptr \<Rightarrow> ptr \<Rightarrow>
    (('cb, 'k, 'fn) evloop \<times> ptr option) res" where
  "EventLoop_ctor c s wakeup_cb timer_cb k self me current wp tp =
     andthen (create_epollfd (sys_epoll_create1 c) k) (\<lambda>(epfd, k1).
     andthen (create_eventfd c k1) (\<lambda>(efd, k2).
     andthen (create_timerfd c k2) (\<lambda>(tfd, k3).
     andthen (TimerQueue_start s timer_cb me (loop_members k3 self me epfd efd tfd wp tp)) (\<lambda>w.
       EventLoop_body s wakeup_cb me current w))))"

definition CurrentThreadEventLoop :: "(thread_id \<rightharpoonup> ptr) \<Rightarrow> thread_id \<Rightarrow> ptr option" where
  "CurrentThreadEventLoop tThreadEventLoop me = tThreadEventLoop me"

text \<open>The destructors, which destroy the members in the reverse order: the timer queue with its
  channel, the wake-up channel, the poller.\<close>

definition TimerQueue_dtor :: "'k life_sys \<Rightarrow> 'k loop_sys \<Rightarrow> thread_id \<Rightarrow> ('cb, 'k, 'fn, 'z) loop_state \<Rightarrow>
    ('cb, 'k, 'fn, 'z) loop_state res" where
  "TimerQueue_dtor c s me w =
     andthen (DisableAllEvent s me (timer_channel w) w) (\<lambda>w1.
     andthen (RemoveFromLoop s me (timer_channel w1) w1) (\<lambda>w2.
       Channel_dtor me (timer_channel w2) (w2\<lparr>epoll := life_close c (timer_fd w2) (epoll w2)\<rparr>)))"

definition EventLoop_dtor :: "'k life_sys \<Rightarrow> 'k loop_sys \<Rightarrow> thread_id \<Rightarrow> ('cb, 'k, 'fn, 'z) loop_state \<Rightarrow>
    (('cb, 'k, 'fn, 'z) loop_state \<times> ptr option) res" where
  "EventLoop_dtor c s me w =
     assert_then (\<not> running w)
      (andthen (DisableAllEvent s me (wakeup_channel w) w) (\<lambda>w1.
       andthen (RemoveFromLoop s me (wakeup_channel w1) w1) (\<lambda>w2.
       andthen (TimerQueue_dtor c s me (w2\<lparr>epoll := close_eventfd c (wakeup_fd w2) (epoll w2)\<rparr>)) (\<lambda>w3.
       andthen (Channel_dtor me (wakeup_channel w3) w3) (\<lambda>w4.
         Inr (EPoller_dtor (life_close c) w4, None))))))"

subsection \<open>What the kernel documents\<close>

text \<open>
  A successful call gives a descriptor that was not open, and a new epoll instance watches
  nothing; a failing call opens nothing. \<open>close\<close> frees a descriptor, \<open>epoll_ctl\<close> neither opens nor
  closes one.
\<close>

definition opens_new :: "('k \<Rightarrow> fd sysret \<times> 'k) \<Rightarrow> ('k \<Rightarrow> fd set) \<Rightarrow> bool" where
  "opens_new call opens \<longleftrightarrow> (\<forall>k. case call k of
       (SysOk fd, k') \<Rightarrow> fd \<notin> opens k \<and> opens k' = insert fd (opens k)
     | (SysErr e, k') \<Rightarrow> opens k' = opens k)"

definition life_ok :: "'k life_sys \<Rightarrow> 'k loop_sys \<Rightarrow> ('k \<Rightarrow> fd set) \<Rightarrow> ('k \<Rightarrow> fd \<rightharpoonup> epoll_event) \<Rightarrow> bool" where
  "life_ok c s opens interest \<longleftrightarrow>
     opens_new (sys_epoll_create1 c) opens \<and> opens_new (sys_eventfd c) opens \<and> opens_new (sys_timerfd_create c) opens
     \<and> (\<forall>k fd k'. sys_epoll_create1 c k = (SysOk fd, k') \<longrightarrow> interest k' = Map.empty)
     \<and> (\<forall>k. interest (snd (sys_eventfd c k)) = interest k \<and> interest (snd (sys_timerfd_create c k)) = interest k)
     \<and> (\<forall>fd k. opens (life_close c fd k) = opens k - {fd})
     \<and> (\<forall>k op fd ev. opens (snd (sys_ctl s k op fd ev)) = opens k)"

text \<open>Closing a descriptor takes it out of the interest list of the epoll instance \<open>epfd\<close>.\<close>

definition close_ok :: "'k life_sys \<Rightarrow> fd \<Rightarrow> ('k \<Rightarrow> fd \<rightharpoonup> epoll_event) \<Rightarrow> bool" where
  "close_ok c epfd interest \<longleftrightarrow> (\<forall>fd k. fd \<noteq> epfd \<longrightarrow> interest (life_close c fd k) = (interest k)(fd := None))"

lemma life_okD:
  assumes "life_ok c s opens interest"
  shows "opens_new (sys_epoll_create1 c) opens" "opens_new (sys_eventfd c) opens" "opens_new (sys_timerfd_create c) opens"
    "opens (life_close c fd k) = opens k - {fd}" "opens (snd (sys_ctl s k op fd ev)) = opens k"
  using assms unfolding life_ok_def by blast+

lemma opens_newD:
  assumes "opens_new call opens" "call k = (SysOk fd, k')"
  shows "fd \<notin> opens k" "opens k' = insert fd (opens k)"
  using assms by (auto simp: opens_new_def split: prod.splits sysret.splits)

text \<open>The channel operations change the kernel through \<open>epoll_ctl\<close> only.\<close>

lemma poller_keeps_opens:
  assumes "\<And>k op fd ev. opens (snd (ctl k op fd ev)) = opens k"
  shows "UpdateChannel ctl p w = Inr w' \<Longrightarrow> opens (epoll w') = opens (epoll w)"
    "RemoveChannel ctl p w = Inr w' \<Longrightarrow> opens (epoll w') = opens (epoll w)"
proof -
  have op: "opens (epoll v') = opens (epoll v)" if "update_epoll_operation ctl op p ch v = Inr v'" for op ch v v'
    using that assms [of "epoll v" op "ch_fd ch" "(events ch, p)"]
    by (auto simp: update_epoll_operation_def split: prod.splits if_splits)
  show "UpdateChannel ctl p w = Inr w' \<Longrightarrow> opens (epoll w') = opens (epoll w)"
    by (auto simp: UpdateChannel_def with_channel_def andthen_eq_Inr put_channel_def dest!: op split: option.splits if_splits)
  show "RemoveChannel ctl p w = Inr w' \<Longrightarrow> opens (epoll w') = opens (epoll w)"
    by (auto simp: RemoveChannel_def with_channel_def andthen_eq_Inr put_channel_def Let_def dest!: op split: option.splits if_splits)
qed

lemma loop_keeps_opens:
  assumes "\<And>k op fd ev. opens (snd (sys_ctl s k op fd ev)) = opens k"
  shows "EnableReadEvent s me p w = Inr w' \<Longrightarrow> opens (epoll w') = opens (epoll w)"
    "DisableAllEvent s me p w = Inr w' \<Longrightarrow> opens (epoll w') = opens (epoll w)"
    "RemoveFromLoop s me p w = Inr w' \<Longrightarrow> opens (epoll w') = opens (epoll w)"
  by (auto simp: EnableReadEvent_def DisableAllEvent_def RemoveFromLoop_def update_events_def loop_UpdateChannel_def
      loop_RemoveChannel_def AssertInLoopThread_def assert_then_def with_channel_def put_channel_def
      dest!: poller_keeps_opens [where opens = opens and ctl = "sys_ctl s", OF assms] split: option.splits if_splits)

subsection \<open>Construction\<close>

lemma loop_members_inv:
  assumes "interest k = Map.empty" "efd \<noteq> tfd"
  shows "loop_inv interest (loop_members k self me epfd efd tfd wp tp)"
  using assms by (auto simp: loop_inv_def poller_inv_def loop_members_def evloop.defs poller.defs EPoller_ctor_def
      Channel_ctor_def index_ok_def IsNoneEvent_def kNoneEvent_def index_values split: if_splits)

lemma loop_members_simps [simp]:
  "channel_heap (loop_members k self me epfd efd tfd wp tp) = [wp \<mapsto> Channel_ctor self efd, tp \<mapsto> Channel_ctor self tfd]"
  "IsInLoopThread t (loop_members k self me epfd efd tfd wp tp) \<longleftrightarrow> t = me"
  "\<not> running (loop_members k self me epfd efd tfd wp tp)" "\<not> quitting (loop_members k self me epfd efd tfd wp tp)"
  "pendings (loop_members k self me epfd efd tfd wp tp) = []" "this_loop (loop_members k self me epfd efd tfd wp tp) = self"
  "wakeup_channel (loop_members k self me epfd efd tfd wp tp) = wp" "timer_channel (loop_members k self me epfd efd tfd wp tp) = tp"
  "wakeup_fd (loop_members k self me epfd efd tfd wp tp) = efd" "timer_fd (loop_members k self me epfd efd tfd wp tp) = tfd"
  "epoll_fd (loop_members k self me epfd efd tfd wp tp) = epfd" "epoll (loop_members k self me epfd efd tfd wp tp) = k"
  by (auto simp: loop_members_def evloop.defs poller.defs IsInLoopThread_def EPoller_ctor_def)

text \<open>The constructor once the descriptors exist.\<close>

lemma EventLoop_body_ok:
  fixes s :: "'k loop_sys" and wcb :: 'cb and current :: "ptr option"
  assumes ok: "epoll_ok (sys_ctl s) interest" "epoll_accepts (sys_ctl s) interest" "interest k = Map.empty"
    and distinct: "wp \<noteq> tp" "efd \<noteq> tfd" and ctl: "\<And>k op fd ev. opens (snd (sys_ctl s k op fd ev)) = opens k"
  obtains w1 w2 :: "('cb, 'k, 'fn) evloop" where "TimerQueue_start s tcb me (loop_members k self me epfd efd tfd wp tp) = Inr w1"
    "EventLoop_body s wcb me current w1 = (if current \<noteq> None then Inl Critical else Inr (w2, Some self))"
    "loop_inv interest w2" "\<not> running w2" "\<not> quitting w2" "pendings w2 = []" "IsInLoopThread me w2"
    "this_loop w2 = self" "wakeup_channel w2 = wp" "timer_channel w2 = tp" "epoll_fd w2 = epfd" "wakeup_fd w2 = efd" "timer_fd w2 = tfd"
    "interest (epoll w2) efd = Some (kReadEvent, wp)" "interest (epoll w2) tfd = Some (kReadEvent, tp)" "opens (epoll w2) = opens k"
    "dom (channel_heap w2) = {wp, tp}" "\<And>q d. channel_heap w2 q = Some d \<Longrightarrow> ch_fd d = efd \<or> ch_fd d = tfd"
proof -
  define w0 :: "('cb, 'k, 'fn) evloop" where "w0 = loop_members k self me epfd efd tfd wp tp"
  let ?tc = "BindReadCallback tcb (Channel_ctor self tfd)" and ?wc = "BindReadCallback wcb (Channel_ctor self efd)"
  let ?t = "masked enable_read ?tc" and ?c = "masked enable_read ?wc"
  have fds: "ch_fd ?t = tfd" "events ?t = kReadEvent" "ch_fd ?c = efd" "events ?c = kReadEvent"
    by (simp_all add: mask_onlyD [OF mask_only_ops(1)]) (simp_all add: enable_read_def BindReadCallback_def Channel_ctor_def)
  have inv0: "loop_inv interest w0"
    unfolding w0_def using ok(3) distinct(2) by (rule loop_members_inv)
  have w0: "IsInLoopThread me w0" "channel_heap w0 tp = Some (Channel_ctor self tfd)"
    by (simp_all add: w0_def)
  obtain k1 where timer: "EnableReadEvent s me tp (put_channel tp ?tc w0) = Inr (channel_changed tp ?t (Some tp) k1 (put_channel tp ?tc w0))"
      "loop_inv interest (channel_changed tp ?t (Some tp) k1 (put_channel tp ?tc w0))"
    using bind_and_enable [OF ok(1,2) inv0 w0] by metis
  define w1 where "w1 = channel_changed tp ?t (Some tp) k1 (put_channel tp ?tc w0)"
  have w1: "channel_heap w1 wp = Some (Channel_ctor self efd)" "channel_heap w1 tp = Some ?t" "IsInLoopThread me w1"
      "this_loop w1 = self" "wakeup_channel w1 = wp"
    using distinct(1) by (simp_all add: w1_def w0_def)
  obtain k2 where wake: "EnableReadEvent s me wp (put_channel wp ?wc w1) = Inr (channel_changed wp ?c (Some wp) k2 (put_channel wp ?wc w1))"
      "loop_inv interest (channel_changed wp ?c (Some wp) k2 (put_channel wp ?wc w1))"
    using bind_and_enable [OF ok(1,2) timer(2) [folded w1_def] w1(3,1)] by metis
  define w2 where "w2 = channel_changed wp ?c (Some wp) k2 (put_channel wp ?wc w1)"
  have start: "TimerQueue_start s tcb me (loop_members k self me epfd efd tfd wp tp) = Inr w1"
    using timer(1) by (simp add: TimerQueue_start_def with_channel_def w1_def w0_def)
  have body: "EventLoop_body s wcb me current w1 = (if current \<noteq> None then Inl Critical else Inr (w2, Some self))"
    using wake(1) w1 by (simp add: EventLoop_body_def with_channel_def w2_def)
  have watched: "interest (epoll w2) efd = Some (kReadEvent, wp)" "interest (epoll w2) tfd = Some (kReadEvent, tp)"
    using channel_watched [OF wake(2) [folded w2_def], of wp ?c] channel_watched [OF wake(2) [folded w2_def], of tp ?t]
      w1(2) distinct(1) fds by (simp_all add: w2_def event_bits)
  have opens: "opens (epoll w2) = opens k"
    using loop_keeps_opens(1) [where opens = opens, OF ctl timer(1)] loop_keeps_opens(1) [where opens = opens, OF ctl wake(1)]
    by (simp add: w2_def w1_def w0_def put_channel_def)
  have heap: "channel_heap w2 = [tp \<mapsto> ?t, wp \<mapsto> ?c]"
    using distinct(1) by (auto simp: w2_def w1_def w0_def fun_eq_iff)
  have "ch_fd d = efd \<or> ch_fd d = tfd" if "channel_heap w2 q = Some d" for q d
    using that fds by (auto simp: heap split: if_splits)
  moreover have "dom (channel_heap w2) = {wp, tp}"
    by (auto simp: heap)
  ultimately show thesis
    by (intro that [OF start body wake(2) [folded w2_def]]) (use watched opens in \<open>simp_all add: w2_def w1_def w0_def\<close>)
qed

text \<open>The three descriptors of a loop, and what a new loop looks like.\<close>

definition loop_fds :: "('cb, 'k, 'fn, 'z) loop_state \<Rightarrow> fd set" where
  "loop_fds w = {epoll_fd w, wakeup_fd w, timer_fd w}"

definition new_loop :: "('k \<Rightarrow> fd \<rightharpoonup> epoll_event) \<Rightarrow> ptr \<Rightarrow> thread_id \<Rightarrow> ('cb, 'k, 'fn, 'z) loop_state \<Rightarrow> bool" where
  "new_loop interest self me w \<longleftrightarrow> loop_inv interest w \<and> \<not> running w \<and> \<not> quitting w \<and> pendings w = [] \<and> this_loop w = self
     \<and> thread_id w = me \<and> distinct [epoll_fd w, wakeup_fd w, timer_fd w]
     \<and> interest (epoll w) (wakeup_fd w) = Some (kReadEvent, wakeup_channel w)
     \<and> interest (epoll w) (timer_fd w) = Some (kReadEvent, timer_channel w)
     \<and> dom (channel_heap w) = {wakeup_channel w, timer_channel w}
     \<and> (\<forall>q d. channel_heap w q = Some d \<longrightarrow> ch_fd d = wakeup_fd w \<or> ch_fd d = timer_fd w)"

lemma EventLoop_ctor_cases:
  fixes s :: "'k loop_sys" and wcb :: 'cb
  assumes ok: "epoll_ok (sys_ctl s) interest" "epoll_accepts (sys_ctl s) interest" and life: "life_ok c s opens interest" and "wp \<noteq> tp"
  obtains (refused) e k' where "EventLoop_ctor c s wcb tcb k self me current wp tp = (Inl Critical :: (('cb, 'k, 'fn) evloop \<times> ptr option) res)"
      "fst (sys_epoll_create1 c k') = SysErr e \<or> fst (sys_eventfd c k') = SysErr e \<or> fst (sys_timerfd_create c k') = SysErr e"
    | (opened) w :: "('cb, 'k, 'fn) evloop"
      where "EventLoop_ctor c s wcb tcb k self me current wp tp = (if current \<noteq> None then Inl Critical else Inr (w, Some self))"
      "new_loop interest self me w" "wakeup_channel w = wp" "timer_channel w = tp"
      "loop_fds w \<inter> opens k = {}" "opens (epoll w) = opens k \<union> loop_fds w"
proof -
  obtain r1 k1 where c1: "sys_epoll_create1 c k = (r1, k1)" by fastforce
  obtain r2 k2 where c2: "sys_eventfd c k1 = (r2, k2)" by fastforce
  obtain r3 k3 where c3: "sys_timerfd_create c k2 = (r3, k3)" by fastforce
  show thesis
  proof (cases "\<exists>epfd efd tfd. r1 = SysOk epfd \<and> r2 = SysOk efd \<and> r3 = SysOk tfd")
    case False
    have "EventLoop_ctor c s wcb tcb k self me current wp tp = (Inl Critical :: (('cb, 'k, 'fn) evloop \<times> ptr option) res)
      \<and> ((\<exists>e. r1 = SysErr e) \<or> (\<exists>e. r2 = SysErr e) \<or> (\<exists>e. r3 = SysErr e))"
      using False c1 c2 c3 by (cases r1; cases r2; cases r3)
        (simp_all add: EventLoop_ctor_def create_epollfd_def create_eventfd_def create_timerfd_def)
    then show thesis
      using refused c1 c2 c3 by (metis fst_conv)
  next
    case True
    then obtain epfd efd tfd where r: "r1 = SysOk epfd" "r2 = SysOk efd" "r3 = SysOk tfd" by blast
    note new = opens_newD [OF life_okD(1) [OF life] c1 [unfolded r]] opens_newD [OF life_okD(2) [OF life] c2 [unfolded r]]
      opens_newD [OF life_okD(3) [OF life] c3 [unfolded r]]
    have fds: "distinct [epfd, efd, tfd]" "{epfd, efd, tfd} \<inter> opens k = {}" "opens k3 = opens k \<union> {epfd, efd, tfd}"
      using new by auto
    have k3: "interest k3 = Map.empty"
      using life c1 c2 c3 r unfolding life_ok_def by (metis snd_conv)
    from fds(1) have "efd \<noteq> tfd" by simp
    from EventLoop_body_ok [where opens = opens, OF ok k3 \<open>wp \<noteq> tp\<close> this life_okD(5) [OF life], of tcb me self epfd wcb current] obtain w1 w2 :: "('cb, 'k, 'fn) evloop"
      where w1: "TimerQueue_start s tcb me (loop_members k3 self me epfd efd tfd wp tp) = Inr w1"
        "EventLoop_body s wcb me current w1 = (if current \<noteq> None then Inl Critical else Inr (w2, Some self))"
        and w2: "loop_inv interest w2" "\<not> running w2" "\<not> quitting w2" "pendings w2 = []" "IsInLoopThread me w2" "this_loop w2 = self"
          "wakeup_channel w2 = wp" "timer_channel w2 = tp" "epoll_fd w2 = epfd" "wakeup_fd w2 = efd" "timer_fd w2 = tfd"
          "interest (epoll w2) efd = Some (kReadEvent, wp)" "interest (epoll w2) tfd = Some (kReadEvent, tp)" "opens (epoll w2) = opens k3"
          "dom (channel_heap w2) = {wp, tp}" "\<forall>q d. channel_heap w2 q = Some d \<longrightarrow> ch_fd d = efd \<or> ch_fd d = tfd"
      by metis
    have "loop_fds w2 \<inter> opens k = {}" "opens (epoll w2) = opens k \<union> loop_fds w2"
      using fds w2 by (simp_all add: loop_fds_def)
    moreover have "EventLoop_ctor c s wcb tcb k self me current wp tp = (if current \<noteq> None then Inl Critical else Inr (w2, Some self))"
      using c1 c2 c3 r w1 by (simp add: EventLoop_ctor_def create_epollfd_def create_eventfd_def create_timerfd_def)
    moreover have "new_loop interest self me w2"
      using w2 fds(1) by (simp add: new_loop_def IsInLoopThread_def)
    ultimately show thesis
      using opened w2 by blast
  qed
qed

text \<open>A new loop opens three descriptors that were not open, watches its wake-up descriptor and its
  timer descriptor for reading, has no functor pending, and becomes the loop of its thread. A second
  loop in the same thread is refused, and so is a loop whose descriptors the kernel refuses.\<close>

theorem EventLoop_ctor_watches:
  fixes s :: "'k loop_sys" and wcb :: 'cb and current :: "ptr option"
  assumes "epoll_ok (sys_ctl s) interest" "epoll_accepts (sys_ctl s) interest" "life_ok c s opens interest" "wp \<noteq> tp"
  shows "case (EventLoop_ctor c s wcb tcb k self me current wp tp :: (('cb, 'k, 'fn) evloop \<times> ptr option) res) of
      Inr (w, current') \<Rightarrow> current = None \<and> current' = Some self \<and> new_loop interest self me w
        \<and> wakeup_channel w = wp \<and> timer_channel w = tp \<and> loop_fds w \<inter> opens k = {} \<and> opens (epoll w) = opens k \<union> loop_fds w
    | Inl e \<Rightarrow> e = Critical \<and> (current \<noteq> None \<or> (\<exists>k' e. fst (sys_epoll_create1 c k') = SysErr e
        \<or> fst (sys_eventfd c k') = SysErr e \<or> fst (sys_timerfd_create c k') = SysErr e))"
  by (rule EventLoop_ctor_cases [OF assms, of wcb tcb k self me current, where 'fn = 'fn]) (auto split: prod.splits)

subsection \<open>Destruction\<close>

text \<open>Taking a channel out of the loop and closing its descriptor.\<close>

lemma unregister:
  assumes ok: "epoll_ok (sys_ctl s) interest" "epoll_accepts (sys_ctl s) interest" and inv: "loop_inv interest w"
    and me: "IsInLoopThread me w" and p: "channel_heap w p = Some ch" and idle: "\<not> loop_event_handing w"
    and close: "close_ok c (epoll_fd w) interest" "ch_fd ch \<noteq> epoll_fd w"
    and ctl: "\<And>k op fd ev. opens (snd (sys_ctl s k op fd ev)) = opens k"
  obtains k1 k d where "DisableAllEvent s me p w = Inr (channel_changed p (masked disable_all ch) (Some p) k1 w)"
    "RemoveFromLoop s me p (channel_changed p (masked disable_all ch) (Some p) k1 w) = Inr (channel_changed p d None k w)"
    "loop_inv interest (channel_changed p d None (life_close c (ch_fd ch) k) w)" "opens k = opens (epoll w)"
    "ch_fd d = ch_fd ch" "event_handing d = event_handing ch" "added_in_loop d = Some False"
proof -
  obtain k1 k2 d where w1: "DisableAllEvent s me p w = Inr (channel_changed p (masked disable_all ch) (Some p) k1 w)"
      and w2: "RemoveFromLoop s me p (channel_changed p (masked disable_all ch) (Some p) k1 w) = Inr (channel_changed p d None k2 w)"
      "loop_inv interest (channel_changed p d None k2 w)" "interest k2 (ch_fd ch) = None"
      and d: "ch_fd d = ch_fd ch" "event_handing d = event_handing ch" "added_in_loop d = Some False"
    using disable_and_remove [OF ok inv me p idle] by metis
  have "interest (life_close c (ch_fd ch) k2) = interest k2"
    using close w2(3) by (simp add: close_ok_def fun_upd_idem)
  then have "loop_inv interest ((channel_changed p d None k2 w)\<lparr>epoll := life_close c (ch_fd ch) k2\<rparr>)"
    using w2(2) by (simp add: loop_inv_epoll)
  then have "loop_inv interest (channel_changed p d None (life_close c (ch_fd ch) k2) w)"
    by (simp add: channel_changed_def)
  moreover have "opens k2 = opens (epoll w)"
    using loop_keeps_opens(2) [where opens = opens, OF ctl w1] loop_keeps_opens(3) [where opens = opens, OF ctl w2(1)] by simp
  ultimately show thesis
    using that w1 w2(1) d by blast
qed

lemma TimerQueue_dtor_cases:
  assumes ok: "epoll_ok (sys_ctl s) interest" "epoll_accepts (sys_ctl s) interest" and inv: "loop_inv interest w"
    and me: "IsInLoopThread me w" "\<not> loop_event_handing w" and p: "channel_heap w (timer_channel w) = Some tc"
    and close: "close_ok c (epoll_fd w) interest" "ch_fd tc = timer_fd w" "timer_fd w \<noteq> epoll_fd w" and life: "life_ok c s opens interest"
  obtains d k where "TimerQueue_dtor c s me w = (case event_handing tc of
      None \<Rightarrow> Inl Indeterminate | Some True \<Rightarrow> Inl AssertFail
    | Some False \<Rightarrow> Inr ((channel_changed (timer_channel w) d None k w)\<lparr>channel_heap := (channel_heap w)(timer_channel w := None)\<rparr>))"
    "loop_inv interest (channel_changed (timer_channel w) d None k w)" "opens k = opens (epoll w) - {timer_fd w}" "ch_fd d = timer_fd w"
proof -
  let ?p = "timer_channel w"
  from unregister [where opens = opens, OF ok inv me(1) p me(2) close(1) _ life_okD(5) [OF life]] close(2,3)
  obtain k1 k d where run: "DisableAllEvent s me ?p w = Inr (channel_changed ?p (masked disable_all tc) (Some ?p) k1 w)"
      "RemoveFromLoop s me ?p (channel_changed ?p (masked disable_all tc) (Some ?p) k1 w) = Inr (channel_changed ?p d None k w)"
    and inv': "loop_inv interest (channel_changed ?p d None (life_close c (timer_fd w) k) w)" and opens: "opens k = opens (epoll w)"
    and d: "ch_fd d = timer_fd w" "event_handing d = event_handing tc" "added_in_loop d = Some False"
    by metis
  let ?k = "life_close c (timer_fd w) k"
  let ?v = "channel_changed ?p d None ?k w"
  have close_v: "(channel_changed ?p d None k w)\<lparr>epoll := ?k\<rparr> = ?v"
    by (simp add: channel_changed_def)
  have "Channel_dtor me ?p ?v = (case event_handing tc of
      None \<Rightarrow> Inl Indeterminate | Some True \<Rightarrow> Inl AssertFail | Some False \<Rightarrow> Inr (?v\<lparr>channel_heap := (channel_heap w)(?p := None)\<rparr>))"
    using Channel_dtor_removed [of ?v ?p d me] d by (simp split: option.splits bool.splits)
  then have "TimerQueue_dtor c s me w = (case event_handing tc of
      None \<Rightarrow> Inl Indeterminate | Some True \<Rightarrow> Inl AssertFail | Some False \<Rightarrow> Inr (?v\<lparr>channel_heap := (channel_heap w)(?p := None)\<rparr>))"
    using run by (simp add: TimerQueue_dtor_def close_v)
  moreover have "opens ?k = opens (epoll w) - {timer_fd w}"
    using life_okD(4) [OF life] opens by simp
  ultimately show thesis
    using that inv' d(1) by blast
qed

lemma EventLoop_dtor_cases:
  assumes ok: "epoll_ok (sys_ctl s) interest" "epoll_accepts (sys_ctl s) interest" and life: "life_ok c s opens interest"
    and close: "close_ok c (epoll_fd w) interest" and inv: "loop_inv interest w"
    and me: "IsInLoopThread me w" "\<not> running w" "\<not> loop_event_handing w"
    and p: "channel_heap w (wakeup_channel w) = Some wc" "channel_heap w (timer_channel w) = Some tc"
      "wakeup_channel w \<noteq> timer_channel w"
    and fds: "ch_fd wc = wakeup_fd w" "ch_fd tc = timer_fd w" "distinct [epoll_fd w, wakeup_fd w, timer_fd w]"
  shows "event_handing tc = None \<Longrightarrow> EventLoop_dtor c s me w = Inl Indeterminate"
    and "event_handing tc = Some False \<Longrightarrow> event_handing wc = Some False \<Longrightarrow>
      \<exists>w'. EventLoop_dtor c s me w = Inr (w', None) \<and> opens (epoll w') = opens (epoll w) - loop_fds w
        \<and> channel_heap w' = (channel_heap w)(wakeup_channel w := None, timer_channel w := None)"
proof -
  let ?wp = "wakeup_channel w" and ?tp = "timer_channel w"
  from unregister [where opens = opens, OF ok inv me(1) p(1) me(3) close _ life_okD(5) [OF life]] fds
  obtain k1 k d where run: "DisableAllEvent s me ?wp w = Inr (channel_changed ?wp (masked disable_all wc) (Some ?wp) k1 w)"
      "RemoveFromLoop s me ?wp (channel_changed ?wp (masked disable_all wc) (Some ?wp) k1 w) = Inr (channel_changed ?wp d None k w)"
    and inv': "loop_inv interest (channel_changed ?wp d None (life_close c (wakeup_fd w) k) w)" and opens: "opens k = opens (epoll w)"
    and d: "ch_fd d = wakeup_fd w" "event_handing d = event_handing wc" "added_in_loop d = Some False"
    by (metis distinct_length_2_or_more)
  define v where "v = channel_changed ?wp d None (life_close c (wakeup_fd w) k) w"
  have v: "IsInLoopThread me v" "\<not> loop_event_handing v" "channel_heap v (timer_channel v) = Some tc" "close_ok c (epoll_fd v) interest"
      "ch_fd tc = timer_fd v" "timer_fd v \<noteq> epoll_fd v" "loop_inv interest v"
    using me p fds close inv' by (simp_all add: v_def)
  have close_v: "(channel_changed ?wp d None k w)\<lparr>epoll := close_eventfd c (wakeup_fd w) k\<rparr> = v"
    by (simp add: v_def channel_changed_def close_eventfd_def)
  obtain e k2 where timer: "TimerQueue_dtor c s me v = (case event_handing tc of
      None \<Rightarrow> Inl Indeterminate | Some True \<Rightarrow> Inl AssertFail
    | Some False \<Rightarrow> Inr ((channel_changed (timer_channel v) e None k2 v)\<lparr>channel_heap := (channel_heap v)(timer_channel v := None)\<rparr>))"
    and k2: "opens k2 = opens (epoll v) - {timer_fd v}" "ch_fd e = timer_fd v"
    using TimerQueue_dtor_cases [OF ok v(7,1-6) life] by metis
  define u where "u = (channel_changed ?tp e None k2 v)\<lparr>channel_heap := (channel_heap v)(?tp := None)\<rparr>"
  have eval: "EventLoop_dtor c s me w = andthen (TimerQueue_dtor c s me v) (\<lambda>w3.
      andthen (Channel_dtor me (wakeup_channel w3) w3) (\<lambda>w4. Inr (EPoller_dtor (life_close c) w4, None)))"
    using me(2) run by (simp add: EventLoop_dtor_def close_v)
  show "event_handing tc = None \<Longrightarrow> EventLoop_dtor c s me w = Inl Indeterminate"
    by (simp add: eval timer)
  assume clear: "event_handing tc = Some False" "event_handing wc = Some False"
  have u: "channel_heap u ?wp = Some d" "channels u (ch_fd d) = None" "wakeup_channel u = ?wp" "epoll_fd u = epoll_fd w" "epoll u = k2"
      "channel_heap u = (channel_heap v)(?tp := None)"
    using p(3) d(1) k2(2) by (simp_all add: u_def v_def)
  have "TimerQueue_dtor c s me v = Inr u"
    using timer clear(1) by (simp add: u_def v_def)
  moreover have "Channel_dtor me ?wp u = Inr (u\<lparr>channel_heap := (channel_heap u)(?wp := None)\<rparr>)"
    using Channel_dtor_removed [OF u(1) d(3)] u(2) d(2) clear(2) by simp
  ultimately have "EventLoop_dtor c s me w = Inr (EPoller_dtor (life_close c) (u\<lparr>channel_heap := (channel_heap u)(?wp := None)\<rparr>), None)"
    by (simp add: eval u(3))
  moreover have "opens (life_close c (epoll_fd w) k2) = opens (epoll w) - loop_fds w"
    using life_okD(4) [OF life] k2(1) opens by (auto simp: v_def loop_fds_def)
  ultimately show "\<exists>w'. EventLoop_dtor c s me w = Inr (w', None) \<and> opens (epoll w') = opens (epoll w) - loop_fds w
        \<and> channel_heap w' = (channel_heap w)(?wp := None, ?tp := None)"
    using u p(3) by (auto simp: EPoller_dtor_def close_epollfd_def v_def fun_upd_twist)
qed


subsection \<open>The loops of a process\<close>

text \<open>
  The thread-local pointers and the live loops. A loop is created and destroyed by any thread; in
  between, its members change in any way, but no function of the library writes \<open>thread_id_\<close>.
\<close>

record ('cb, 'k, 'fn) process =
  tThreadEventLoop :: "thread_id \<rightharpoonup> ptr"
  live_loops :: "ptr \<rightharpoonup> ('cb, 'k, 'fn) evloop"

inductive proc_step :: "'k life_sys \<Rightarrow> 'k loop_sys \<Rightarrow> 'cb \<Rightarrow> 'cb \<Rightarrow> ('cb, 'k, 'fn) process \<Rightarrow> ('cb, 'k, 'fn) process \<Rightarrow> bool"
  for c s wcb tcb where
  create: "live_loops P self = None \<Longrightarrow>
    EventLoop_ctor c s wcb tcb k self me (CurrentThreadEventLoop (tThreadEventLoop P) me) wp tp = Inr (w, current) \<Longrightarrow>
    proc_step c s wcb tcb P (P\<lparr>tThreadEventLoop := (tThreadEventLoop P)(me := current), live_loops := (live_loops P)(self \<mapsto> w)\<rparr>)"
| work: "live_loops P l = Some w \<Longrightarrow> thread_id w' = thread_id w \<Longrightarrow> proc_step c s wcb tcb P (P\<lparr>live_loops := (live_loops P)(l \<mapsto> w')\<rparr>)"
| destroy: "live_loops P l = Some w \<Longrightarrow> EventLoop_dtor c s me w = Inr (w', current) \<Longrightarrow>
    proc_step c s wcb tcb P (P\<lparr>tThreadEventLoop := (tThreadEventLoop P)(me := current), live_loops := (live_loops P)(l := None)\<rparr>)"

inductive proc_reach :: "'k life_sys \<Rightarrow> 'k loop_sys \<Rightarrow> 'cb \<Rightarrow> 'cb \<Rightarrow> ('cb, 'k, 'fn) process \<Rightarrow> bool" for c s wcb tcb where
  proc_init: "proc_reach c s wcb tcb \<lparr>tThreadEventLoop = Map.empty, live_loops = Map.empty\<rparr>"
| proc_next: "proc_reach c s wcb tcb P \<Longrightarrow> proc_step c s wcb tcb P P' \<Longrightarrow> proc_reach c s wcb tcb P'"

definition one_loop :: "('cb, 'k, 'fn) process \<Rightarrow> bool" where
  "one_loop P \<longleftrightarrow> (\<forall>t l. tThreadEventLoop P t = Some l \<longleftrightarrow> (\<exists>w. live_loops P l = Some w \<and> thread_id w = t))"

lemma loop_op_frame:
  "update_events s me p w = Inr w' \<Longrightarrow> IsInLoopThread me w \<and> thread_id w' = thread_id w \<and> this_loop w' = this_loop w"
  by (auto simp: update_events_def loop_UpdateChannel_def UpdateChannel_def update_epoll_operation_def AssertInLoopThread_def
      with_channel_def assert_then_def put_channel_def andthen_eq_Inr IsInLoopThread_def split: option.splits if_splits prod.splits)

lemma EventLoop_ctor_thread:
  assumes "EventLoop_ctor c s wcb tcb k self me current wp tp = Inr (w, current')"
  shows "thread_id w = me" "current = None" "current' = Some self"
proof -
  obtain k3 epfd efd tfd w1 where t: "TimerQueue_start s tcb me (loop_members k3 self me epfd efd tfd wp tp) = Inr w1"
    and b: "EventLoop_body s wcb me current w1 = Inr (w, current')"
    using assms unfolding EventLoop_ctor_def by (auto simp: andthen_eq_Inr)
  have w1: "thread_id w1 = me" "this_loop w1 = self"
    using t by (auto simp: TimerQueue_start_def EnableReadEvent_def with_channel_def put_channel_def IsInLoopThread_def
        dest!: loop_op_frame split: option.splits if_splits)
  show "thread_id w = me" "current = None" "current' = Some self"
    using b w1 by (auto simp: EventLoop_body_def EnableReadEvent_def with_channel_def put_channel_def andthen_eq_Inr
        dest!: loop_op_frame split: option.splits if_splits)
qed

lemma EventLoop_dtor_thread:
  assumes "EventLoop_dtor c s me w = Inr (w', current)"
  shows "thread_id w = me" "current = None"
proof -
  obtain w1 where w1: "DisableAllEvent s me (wakeup_channel w) w = Inr w1" and "current = None"
    using assms unfolding EventLoop_dtor_def by (auto simp: andthen_eq_Inr assert_then_def split: if_splits)
  then show "current = None" by simp
  show "thread_id w = me"
    using w1 by (auto simp: DisableAllEvent_def with_channel_def put_channel_def IsInLoopThread_def
        dest!: loop_op_frame split: option.splits)
qed

lemma proc_step_one_loop:
  assumes "one_loop P" "proc_step c s wcb tcb P P'"
  shows "one_loop P'"
proof -
  have own: "tThreadEventLoop P t = Some l \<longleftrightarrow> (\<exists>w. live_loops P l = Some w \<and> thread_id w = t)" for t l
    using assms(1) by (simp add: one_loop_def)
  show ?thesis
    using assms(2)
  proof cases
    case (create self k me wp tp w current)
    note new = EventLoop_ctor_thread [OF create(3)]
    have "tThreadEventLoop P' t = Some l \<longleftrightarrow> (\<exists>v. live_loops P' l = Some v \<and> thread_id v = t)" for t l
      using own [of t l] own [of me l] new create(1,2) by (cases "l = self"; cases "t = me") (auto simp: CurrentThreadEventLoop_def)
    then show ?thesis
      by (simp add: one_loop_def)
  next
    case (work l w w')
    have "tThreadEventLoop P' t = Some l' \<longleftrightarrow> (\<exists>v. live_loops P' l' = Some v \<and> thread_id v = t)" for t l'
      using own [of t l'] work by (cases "l' = l") auto
    then show ?thesis
      by (simp add: one_loop_def)
  next
    case (destroy l w me w' current)
    note gone = EventLoop_dtor_thread [OF destroy(3)]
    have "tThreadEventLoop P' t = Some l' \<longleftrightarrow> (\<exists>v. live_loops P' l' = Some v \<and> thread_id v = t)" for t l'
      using own [of t l'] own [of me l] own [of me l'] gone destroy(1,2) by (cases "l' = l"; cases "t = me") auto
    then show ?thesis
      by (simp add: one_loop_def)
  qed
qed

lemma proc_reach_one_loop: "proc_reach c s wcb tcb P \<Longrightarrow> one_loop P"
  by (induction rule: proc_reach.induct) (simp add: one_loop_def, rule proc_step_one_loop)

text \<open>C24: whatever loops the threads of a program create, use and destroy, every thread has at most one
  live loop, \<open>CurrentThreadEventLoop\<close> returns it, and a thread that has one cannot construct another.
  In particular a loop is only ever destroyed by its own thread.\<close>

theorem one_loop_per_thread:
  assumes "proc_reach c s wcb tcb P"
  shows "(CurrentThreadEventLoop (tThreadEventLoop P) t = Some l \<longleftrightarrow> (\<exists>w. live_loops P l = Some w \<and> thread_id w = t))
    \<and> (live_loops P l = Some w \<longrightarrow> live_loops P l' = Some w' \<longrightarrow> thread_id w = thread_id w' \<longrightarrow> l = l')
    \<and> (live_loops P l = Some w \<longrightarrow> EventLoop_ctor c s wcb tcb k self (thread_id w) (CurrentThreadEventLoop (tThreadEventLoop P) (thread_id w)) wp tp \<noteq> Inr r)
    \<and> (live_loops P l = Some w \<longrightarrow> t \<noteq> thread_id w \<longrightarrow> EventLoop_dtor c s t w \<noteq> Inr r')"
proof -
  have own: "tThreadEventLoop P t = Some l \<longleftrightarrow> (\<exists>w. live_loops P l = Some w \<and> thread_id w = t)" for t l
    using proc_reach_one_loop [OF assms] by (simp add: one_loop_def)
  have "l = l'" if "live_loops P l = Some w" "live_loops P l' = Some w'" "thread_id w = thread_id w'" for l l' w w'
    using own [of "thread_id w" l] own [of "thread_id w" l'] that by auto
  moreover have "EventLoop_ctor c s wcb tcb k self (thread_id w) (tThreadEventLoop P (thread_id w)) wp tp \<noteq> Inr r" if "live_loops P l = Some w" for l w
    using EventLoop_ctor_thread(2) [of c s wcb tcb k self "thread_id w" "tThreadEventLoop P (thread_id w)" wp tp "fst r" "snd r"]
      own [of "thread_id w" l] that by auto
  moreover have "EventLoop_dtor c s t w \<noteq> Inr r'" if "t \<noteq> thread_id w" for w
    using EventLoop_dtor_thread(1) [of c s t w "fst r'" "snd r'"] that by auto
  ultimately show ?thesis
    unfolding CurrentThreadEventLoop_def using own by blast
qed

subsection \<open>Examples\<close>

text \<open>A kernel whose state is the list of open descriptors and the interest list.\<close>

type_synonym fd_table = "fd list \<times> epoll_table"

definition ex_open :: "fd_table \<Rightarrow> fd sysret \<times> fd_table" where
  "ex_open k = (let fd = 1 + fold max (fst k) 0 in (SysOk fd, (fd # fst k, snd k)))"

definition ex_life :: "fd_table life_sys" where
  "ex_life = \<lparr>sys_epoll_create1 = (\<lambda>k. ex_open (fst k, Map.empty)), sys_eventfd = ex_open, sys_timerfd_create = ex_open,
     life_close = (\<lambda>fd k. (filter (\<lambda>x. x \<noteq> fd) (fst k), (snd k)(fd := None)))\<rparr>"

definition ex_loop_sys :: "fd_table loop_sys" where
  "ex_loop_sys = \<lparr>sys_ctl = (\<lambda>k op fd ev. case epoll_table_ctl (snd k) op fd ev of (r, t) \<Rightarrow> (r, (fst k, t))),
     evfd_write = (\<lambda>fd k. (8, k)), evfd_read = (\<lambda>fd k. (8, k))\<rparr>"

lemma fold_max_ge: "x \<in> set xs \<or> x \<le> m \<Longrightarrow> (x :: int) \<le> fold max xs m"
  by (induction xs arbitrary: m) (auto simp: le_max_iff_disj)

lemma ex_opens_new: "opens_new (\<lambda>k. ex_open (fst k, f k)) (\<lambda>k. set (fst k))" "opens_new ex_open (\<lambda>k. set (fst k))"
proof -
  have "1 + fold max xs 0 \<notin> set xs" for xs :: "fd list"
    using fold_max_ge [of "1 + fold max xs 0" xs 0] by auto
  then show "opens_new (\<lambda>k. ex_open (fst k, f k)) (\<lambda>k. set (fst k))" "opens_new ex_open (\<lambda>k. set (fst k))"
    by (simp_all add: opens_new_def ex_open_def Let_def)
qed

lemma ex_life_ok:
  "epoll_ok (sys_ctl ex_loop_sys) snd" "epoll_accepts (sys_ctl ex_loop_sys) snd"
  "life_ok ex_life ex_loop_sys (\<lambda>k. set (fst k)) snd" "close_ok ex_life fd snd"
proof -
  show "epoll_ok (sys_ctl ex_loop_sys) snd" "epoll_accepts (sys_ctl ex_loop_sys) snd"
    by (auto simp: epoll_ok_def epoll_accepts_def ex_loop_sys_def epoll_table_ctl_def)
  show "life_ok ex_life ex_loop_sys (\<lambda>k. set (fst k)) snd"
    using ex_opens_new by (auto simp: life_ok_def ex_life_def ex_loop_sys_def ex_open_def Let_def split: prod.splits)
  show "close_ok ex_life fd snd"
    by (simp add: close_ok_def ex_life_def)
qed

lemma ex_open_ok [simp]: "fst (ex_open k) \<noteq> SysErr e"
  by (simp add: ex_open_def Let_def)

theorem EventLoop_ctor_watches_witness:
  "\<exists>w. (EventLoop_ctor ex_life ex_loop_sys ''wake'' ''timer'' ([0, 1, 2], Map.empty) 1 7 None 10 11
      :: ((string, fd_table, nat) evloop \<times> ptr option) res) = Inr (w, Some 1)
    \<and> thread_id w = 7 \<and> loop_fds w \<inter> {0, 1, 2} = {} \<and> set (fst (epoll w)) = {0, 1, 2} \<union> loop_fds w"
proof -
  let ?r = "EventLoop_ctor ex_life ex_loop_sys ''wake'' ''timer'' ([0, 1, 2], Map.empty) 1 7 None 10 11
    :: ((string, fd_table, nat) evloop \<times> ptr option) res"
  have "fst (sys_epoll_create1 ex_life k) \<noteq> SysErr e" "fst (sys_eventfd ex_life k) \<noteq> SysErr e"
      "fst (sys_timerfd_create ex_life k) \<noteq> SysErr e" for k e
    by (simp_all add: ex_life_def)
  then show ?thesis
    using EventLoop_ctor_watches [OF ex_life_ok(1-3), where k = "([0, 1, 2], Map.empty)" and wp = 10 and tp = 11
        and wcb = "''wake''" and tcb = "''timer''" and self = 1 and me = 7 and current = None and 'fn = nat]
    by (cases ?r) (auto simp: new_loop_def)
qed

theorem one_loop_per_thread_witness:
  "\<exists>(P :: (string, fd_table, nat) process) w. proc_reach ex_life ex_loop_sys ''wake'' ''timer'' P \<and> live_loops P 1 = Some w
    \<and> CurrentThreadEventLoop (tThreadEventLoop P) 7 = Some 1
    \<and> (\<forall>r. EventLoop_ctor ex_life ex_loop_sys ''wake'' ''timer'' (epoll w) 2 7 (CurrentThreadEventLoop (tThreadEventLoop P) 7) 12 13 \<noteq> Inr r)"
proof -
  let ?P0 = "\<lparr>tThreadEventLoop = Map.empty, live_loops = Map.empty\<rparr> :: (string, fd_table, nat) process"
  have "(10 :: ptr) \<noteq> 11" by simp
  then obtain w :: "(string, fd_table, nat) evloop" where
      w: "EventLoop_ctor ex_life ex_loop_sys ''wake'' ''timer'' ([], Map.empty) 1 7 (CurrentThreadEventLoop (tThreadEventLoop ?P0) 7) 10 11 = Inr (w, Some 1)"
      "new_loop snd 1 7 w"
    by (rule EventLoop_ctor_cases [OF ex_life_ok(1-3), where k = "([], Map.empty)" and wcb = "''wake''" and tcb = "''timer''"
        and self = 1 and me = 7 and current = None and 'fn = nat]) (simp_all add: ex_life_def CurrentThreadEventLoop_def)
  let ?P = "?P0\<lparr>tThreadEventLoop := (tThreadEventLoop ?P0)(7 := Some 1), live_loops := (live_loops ?P0)(1 \<mapsto> w)\<rparr>"
  have reach: "proc_reach ex_life ex_loop_sys ''wake'' ''timer'' ?P"
    by (rule proc_next [OF proc_init create [OF _ w(1)]]) simp
  have P: "live_loops ?P 1 = Some w" "thread_id w = 7"
    using w(2) by (simp_all add: new_loop_def)
  note one = one_loop_per_thread [OF reach]
  have "CurrentThreadEventLoop (tThreadEventLoop ?P) 7 = Some 1"
    using one [of 7 1] P by blast
  moreover have "EventLoop_ctor ex_life ex_loop_sys ''wake'' ''timer'' (epoll w) 2 7 (CurrentThreadEventLoop (tThreadEventLoop ?P) 7) 12 13 \<noteq> Inr r" for r
    using one [of _ 1 w _ _ "epoll w" 2 12 13 r] P by metis
  ultimately show ?thesis
    using reach P(1) by blast
qed

definition ex_old_loop :: "bool option \<Rightarrow> (string, fd_table, nat) evloop" where
  "ex_old_loop h = \<lparr>channel_heap = [10 \<mapsto> ex_read_channel 4 (Some False), 11 \<mapsto> ex_read_channel 5 h],
     channels = [4 \<mapsto> 10, 5 \<mapsto> 11], epoll_fd = 3, events_size = 32, epoll = ([0, 3, 4, 5], [4 \<mapsto> (3, 10), 5 \<mapsto> (3, 11)]),
     this_loop = 1, running = False, quitting = True, thread_id = 7, loop_event_handing = False,
     poll_return_time = 0, active_channels = [], current_active_channel = None, calling_pendings = False,
     pendings = [], wakeup_fd = 4, wakeup_channel = 10, timer_fd = 5, timer_channel = 11\<rparr>"

lemma ex_old_loop_inv: "loop_inv snd (ex_old_loop h)"
  by (auto simp: ex_old_loop_def loop_inv_def poller_inv_def index_ok_def ex_read_channel_def index_values kEventsSize_def
      IsNoneEvent_def kNoneEvent_def split: if_splits)


end
