(* ===== verification/Acceptor.thy ===== *)
theory Acceptor
  imports LoopLifetime Sockets
begin

text \<open>
  \<open>Acceptor\<close> of \<open>include/benet/acceptor.h\<close> and \<open>src/acceptor.cpp\<close>: the listening socket, its
  channel and the spare descriptor that is given up to reject a connection when the process has
  no descriptor left. The kernel behind the descriptors is the state \<open>epoll\<close> of the poller; its
  calls are the record \<open>acc_sys\<close>.
\<close>

subsection \<open>Operations\<close>

record 'k acc_sys = "'k loop_sys" +
  sys_socket :: "16 word \<Rightarrow> 'k \<Rightarrow> fd sysret \<times> 'k"
  sys_bind :: "fd \<Rightarrow> byte list \<Rightarrow> 'k \<Rightarrow> errno option \<times> 'k"
  sys_listen :: "fd \<Rightarrow> 'k \<Rightarrow> errno option \<times> 'k"
  sys_accept4 :: "fd \<Rightarrow> nat \<Rightarrow> 'k \<Rightarrow> (fd \<times> byte list) sysret \<times> 'k"
  sys_accept :: "fd \<Rightarrow> 'k \<Rightarrow> fd sysret \<times> 'k"
  sys_close :: "fd \<Rightarrow> 'k \<Rightarrow> 'k"
  sys_open_null :: "'k \<Rightarrow> fd sysret \<times> 'k"
  sys_setsockopt :: "'k option_call"

definition acc_loop_part :: "'k acc_sys \<Rightarrow> 'k loop_sys" where
  "acc_loop_part s = \<lparr>sys_ctl = sys_ctl s, evfd_write = evfd_write s, evfd_read = evfd_read s\<rparr>"

text \<open>The new-connection callback is executed by \<open>new_conn\<close>; \<open>on_new_connection\<close> tells whether it
  is bound.\<close>

record acceptor =
  listening :: bool
  accept_fd :: fd
  accept_channel :: ptr
  on_new_connection :: bool
  idle_fd :: fd

definition create_socketfd :: "'k acc_sys \<Rightarrow> 16 word \<Rightarrow> 'k \<Rightarrow> (fd \<times> 'k) res" where
  "create_socketfd s f k = (case sys_socket s f k of (SysErr e, k') \<Rightarrow> Inl Critical | (SysOk sockfd, k') \<Rightarrow> Inr (sockfd, k'))"

definition create_idlefd :: "'k acc_sys \<Rightarrow> 'k \<Rightarrow> (fd \<times> 'k) res" where
  "create_idlefd s k = (case sys_open_null s k of (SysErr e, k') \<Rightarrow> Inl Critical | (SysOk i, k') \<Rightarrow> Inr (i, k'))"

definition Acceptor_ctor :: "'k acc_sys \<Rightarrow> 'cb \<Rightarrow> ptr \<Rightarrow> sockaddr \<Rightarrow> bool \<Rightarrow> ('cb, 'k, 'fn, 'z) loop_state \<Rightarrow>
    (acceptor \<times> ('cb, 'k, 'fn, 'z) loop_state) res" where
  "Acceptor_ctor s accept_cb p addr reuseport w =
     andthen (create_socketfd s (family addr) (epoll w)) (\<lambda>(sockfd, k1).
      andthen (create_idlefd s k1) (\<lambda>(idle, k2).
      (case sys_bind s sockfd (take sizeof_sockaddr addr)
              (SetReusePort (sys_setsockopt s) sockfd reuseport (SetReuseAddr (sys_setsockopt s) sockfd True k2)) of (r, k3) \<Rightarrow>
       andthen (Socket_Bind (\<lambda>fd bs. r) sockfd addr) (\<lambda>u.
         Inr (\<lparr>listening = False, accept_fd = sockfd, accept_channel = p, on_new_connection = False, idle_fd = idle\<rparr>,
              w\<lparr>epoll := k3,
                channel_heap := (channel_heap w)(p \<mapsto> BindReadCallback accept_cb (Channel_ctor (this_loop w) sockfd))\<rparr>)))))"

definition BindNewConnCallback :: "bool \<Rightarrow> acceptor \<Rightarrow> acceptor" where
  "BindNewConnCallback bound a = a\<lparr>on_new_connection := bound\<rparr>"

text \<open>The spare descriptor is closed, the connection accepted in its place and closed, and the
  spare descriptor opened again. \<open>close(-1)\<close> has no effect.\<close>

definition close_excessfd_with_idlefd :: "'k acc_sys \<Rightarrow> fd \<Rightarrow> acceptor \<Rightarrow> ('cb, 'k, 'fn, 'z) loop_state \<Rightarrow>
    (acceptor \<times> ('cb, 'k, 'fn, 'z) loop_state) res" where
  "close_excessfd_with_idlefd s excessfd a w =
     (case sys_accept s excessfd (sys_close s (idle_fd a) (epoll w)) of (r, k2) \<Rightarrow>
      let k3 = (case r of SysOk x \<Rightarrow> sys_close s x k2 | SysErr e \<Rightarrow> k2)
      in andthen (create_idlefd s k3) (\<lambda>(i, k4). Inr (a\<lparr>idle_fd := i\<rparr>, w\<lparr>epoll := k4\<rparr>)))"

text \<open>The read callback of the channel; \<open>garbage\<close> is the uninitialised \<open>InetAddress\<close>.\<close>

definition handle_accept :: "'k acc_sys \<Rightarrow> (fd \<Rightarrow> sockaddr \<Rightarrow> ('cb, 'k, 'fn, 'z) loop_state \<Rightarrow> ('cb, 'k, 'fn, 'z) loop_state res) \<Rightarrow>
    sockaddr \<Rightarrow> thread_id \<Rightarrow> acceptor \<Rightarrow> ('cb, 'k, 'fn, 'z) loop_state \<Rightarrow> (acceptor \<times> ('cb, 'k, 'fn, 'z) loop_state) res" where
  "handle_accept s new_conn garbage me a w =
     AssertInLoopThread me w
       (case sys_accept4 s (accept_fd a) sizeof_ptr (epoll w) of (r, k) \<Rightarrow>
        andthen (Socket_Accept (\<lambda>fd n. r) (accept_fd a) garbage) (\<lambda>(connfd, peer_addr).
        let w1 = w\<lparr>epoll := k\<rparr> in
        case connfd of
          SysErr e \<Rightarrow> if e = EMFILE then close_excessfd_with_idlefd s (accept_fd a) a w1 else Inr (a, w1)
        | SysOk fd \<Rightarrow>
            if on_new_connection a then andthen (new_conn fd peer_addr w1) (\<lambda>w2. Inr (a, w2))
            else Inr (a, w1\<lparr>epoll := sys_close s fd (epoll w1)\<rparr>)))"

definition Acceptor_Listen :: "'k acc_sys \<Rightarrow> thread_id \<Rightarrow> acceptor \<Rightarrow> ('cb, 'k, 'fn, 'z) loop_state \<Rightarrow>
    (acceptor \<times> ('cb, 'k, 'fn, 'z) loop_state) res" where
  "Acceptor_Listen s me a w =
     AssertInLoopThread me w
       (case sys_listen s (accept_fd a) (epoll w) of (r, k) \<Rightarrow>
        andthen (Socket_Listen (\<lambda>fd. r) (accept_fd a)) (\<lambda>u.
        andthen (EnableReadEvent (acc_loop_part s) me (accept_channel a) (w\<lparr>epoll := k\<rparr>)) (\<lambda>w1.
          Inr (a\<lparr>listening := True\<rparr>, w1))))"

text \<open>The destructor: its body, then the channel and the socket.\<close>

definition Acceptor_dtor :: "'k acc_sys \<Rightarrow> thread_id \<Rightarrow> acceptor \<Rightarrow> ('cb, 'k, 'fn, 'z) loop_state \<Rightarrow>
    ('cb, 'k, 'fn, 'z) loop_state res" where
  "Acceptor_dtor s me a w =
     andthen (DisableAllEvent (acc_loop_part s) me (accept_channel a) w) (\<lambda>w1.
     andthen (RemoveFromLoop (acc_loop_part s) me (accept_channel a) w1) (\<lambda>w2.
     andthen (Channel_dtor me (accept_channel a) (w2\<lparr>epoll := sys_close s (idle_fd a) (epoll w2)\<rparr>)) (\<lambda>w3.
       Inr (w3\<lparr>epoll := sys_close s (accept_fd a) (epoll w3)\<rparr>))))"

subsection \<open>Descriptors\<close>

text \<open>
  What \<open>close(2)\<close>, \<open>accept(2)\<close> and \<open>open(2)\<close> document about the descriptor table, which holds at
  most \<open>limit\<close> open descriptors, and the queue of connections of the listening socket: closing
  frees a descriptor; with room in the table, accepting takes the first connection of a non-empty
  queue to a new descriptor and opening gives a new descriptor; a failing call changes nothing.
\<close>

definition fds_ok :: "'k acc_sys \<Rightarrow> fd \<Rightarrow> ('k \<Rightarrow> fd set) \<Rightarrow> ('k \<Rightarrow> 'c list) \<Rightarrow> nat \<Rightarrow> bool" where
  "fds_ok s lfd opens backlog limit \<longleftrightarrow>
     (\<forall>fd k. opens (sys_close s fd k) = opens k - {fd} \<and> backlog (sys_close s fd k) = backlog k)
     \<and> (\<forall>k. case sys_accept s lfd k of
          (SysOk x, k') \<Rightarrow> card (opens k) < limit \<and> backlog k \<noteq> [] \<and> x \<notin> opens k \<and> opens k' = insert x (opens k) \<and> backlog k' = tl (backlog k)
        | (SysErr e, k') \<Rightarrow> (limit \<le> card (opens k) \<or> backlog k = []) \<and> opens k' = opens k \<and> backlog k' = backlog k)
     \<and> (\<forall>k. case sys_open_null s k of
          (SysOk x, k') \<Rightarrow> x \<notin> opens k \<and> opens k' = insert x (opens k) \<and> backlog k' = backlog k
        | (SysErr e, k') \<Rightarrow> limit \<le> card (opens k) \<and> opens k' = opens k \<and> backlog k' = backlog k)"

lemma fds_ok_close:
  assumes "fds_ok s lfd opens backlog limit"
  shows "opens (sys_close s fd k) = opens k - {fd}" "backlog (sys_close s fd k) = backlog k"
  using assms by (simp_all add: fds_ok_def)

lemma fds_ok_accept:
  assumes "fds_ok s lfd opens backlog limit" "card (opens k) < limit" "sys_accept s lfd k = (r, k')"
  shows "backlog k' = tl (backlog k)" "case r of SysOk x \<Rightarrow> x \<notin> opens k \<and> opens k' = insert x (opens k) | SysErr e \<Rightarrow> opens k' = opens k"
proof -
  have "case sys_accept s lfd k of
      (SysOk x, k') \<Rightarrow> card (opens k) < limit \<and> backlog k \<noteq> [] \<and> x \<notin> opens k \<and> opens k' = insert x (opens k) \<and> backlog k' = tl (backlog k)
    | (SysErr e, k') \<Rightarrow> (limit \<le> card (opens k) \<or> backlog k = []) \<and> opens k' = opens k \<and> backlog k' = backlog k"
    using assms(1) unfolding fds_ok_def by (elim conjE) (erule allE, assumption)
  then show "backlog k' = tl (backlog k)" "case r of SysOk x \<Rightarrow> x \<notin> opens k \<and> opens k' = insert x (opens k) | SysErr e \<Rightarrow> opens k' = opens k"
    using assms(2,3) by (cases r; simp)+
qed

lemma create_idlefd_ok:
  assumes "fds_ok s lfd opens backlog limit" "card (opens k) < limit"
  obtains i k' where "create_idlefd s k = Inr (i, k')" "i \<notin> opens k" "opens k' = insert i (opens k)" "backlog k' = backlog k"
proof -
  obtain r k' where r: "sys_open_null s k = (r, k')"
    by fastforce
  have "case sys_open_null s k of
      (SysOk x, k') \<Rightarrow> x \<notin> opens k \<and> opens k' = insert x (opens k) \<and> backlog k' = backlog k
    | (SysErr e, k') \<Rightarrow> limit \<le> card (opens k) \<and> opens k' = opens k \<and> backlog k' = backlog k"
    using assms(1) unfolding fds_ok_def by (elim conjE) (erule allE, assumption)
  then show thesis
    using that r assms(2) by (cases r) (simp_all add: create_idlefd_def)
qed

lemma close_excess_result:
  assumes ok: "fds_ok s lfd opens backlog limit" and k: "finite (opens (epoll w))" "card (opens (epoll w)) \<le> limit"
    and a: "idle_fd a \<in> opens (epoll w)" "lfd \<in> opens (epoll w)" "idle_fd a \<noteq> lfd"
  shows "\<exists>i w'. close_excessfd_with_idlefd s lfd a w = Inr (a\<lparr>idle_fd := i\<rparr>, w') \<and> backlog (epoll w') = tl (backlog (epoll w))
    \<and> i \<in> opens (epoll w') \<and> i \<noteq> lfd \<and> opens (epoll w') - {i} = opens (epoll w) - {idle_fd a}"
proof -
  define k1 where "k1 = sys_close s (idle_fd a) (epoll w)"
  note close = fds_ok_close [OF ok]
  have k1: "opens k1 = opens (epoll w) - {idle_fd a}" "backlog k1 = backlog (epoll w)"
    by (simp_all add: k1_def close)
  have room: "card (opens k1) < limit"
    using card_Diff1_less [OF k(1) a(1)] k(2) k1(1) by simp
  obtain r k2 where acc: "sys_accept s lfd k1 = (r, k2)"
    by fastforce
  note acc_ok = fds_ok_accept [OF ok room acc]
  define k3 where "k3 = (case r of SysOk x \<Rightarrow> sys_close s x k2 | SysErr e \<Rightarrow> k2)"
  have k3: "opens k3 = opens k1" "backlog k3 = tl (backlog k1)"
    using acc_ok by (cases r; simp add: k3_def close)+
  then obtain i k4 where i: "create_idlefd s k3 = Inr (i, k4)" "i \<notin> opens k1" "opens k4 = insert i (opens k1)" "backlog k4 = tl (backlog k1)"
    using create_idlefd_ok [OF ok, of k3] room by metis
  have "close_excessfd_with_idlefd s lfd a w = Inr (a\<lparr>idle_fd := i\<rparr>, w\<lparr>epoll := k4\<rparr>)"
    using acc i(1) by (simp add: close_excessfd_with_idlefd_def k1_def [symmetric] k3_def [symmetric] Let_def)
  then show ?thesis
    using i k1 a by (intro exI [of _ i] exI [of _ "w\<lparr>epoll := k4\<rparr>"]) auto
qed

text \<open>C26: the read callback of the acceptor. A connection that the kernel hands out goes to the
  new-connection callback with its peer address, or is closed when no callback is bound. When
  the process is out of descriptors the first waiting connection is taken from the queue and
  closed, and the acceptor has a spare descriptor again; no other descriptor is touched. Other
  recoverable errors change nothing.\<close>

theorem handle_accept_result:
  assumes me: "IsInLoopThread me w" and ok: "fds_ok s (accept_fd a) opens backlog limit"
    and k: "finite (opens k)" "card (opens k) \<le> limit" "idle_fd a \<in> opens k" "accept_fd a \<in> opens k" "idle_fd a \<noteq> accept_fd a"
    and acc: "sys_accept4 s (accept_fd a) sizeof_ptr (epoll w) = (r, k)"
  shows "case r of
      SysOk (fd, bs) \<Rightarrow> handle_accept s new_conn garbage me a w =
        (if on_new_connection a then andthen (new_conn fd (set_addr (sa_put 0 bs sockaddr_zero) garbage) (w\<lparr>epoll := k\<rparr>)) (\<lambda>w2. Inr (a, w2))
         else Inr (a, w\<lparr>epoll := sys_close s fd k\<rparr>))
    | SysErr e \<Rightarrow>
        if e = EMFILE then \<exists>i w'. handle_accept s new_conn garbage me a w = Inr (a\<lparr>idle_fd := i\<rparr>, w')
          \<and> backlog (epoll w') = tl (backlog k) \<and> i \<in> opens (epoll w') \<and> opens (epoll w') - {i} = opens k - {idle_fd a}
        else if accept_recoverable e then handle_accept s new_conn garbage me a w = Inr (a, w\<lparr>epoll := k\<rparr>)
        else handle_accept s new_conn garbage me a w = Inl Critical"
proof (cases r)
  case (SysOk x)
  obtain fd bs where x: "x = (fd, bs)"
    by fastforce
  then show ?thesis
    using SysOk me acc by (simp add: handle_accept_def AssertInLoopThread_def Socket_Accept_def accept_def Let_def)
next
  case (SysErr e)
  let ?w = "w\<lparr>epoll := k\<rparr>"
  have run: "handle_accept s new_conn garbage me a w =
      (if accept_recoverable e then if e = EMFILE then close_excessfd_with_idlefd s (accept_fd a) a ?w else Inr (a, ?w) else Inl Critical)"
    using SysErr me acc by (simp add: handle_accept_def AssertInLoopThread_def Socket_Accept_def accept_def Let_def)
  show ?thesis
    using close_excess_result [OF ok, of ?w a] k SysErr run by auto
qed

text \<open>A process with room for three descriptors, all in use, and two waiting connections.\<close>

type_synonym ex_fds = "fd list \<times> nat list"

definition ex_fresh :: "fd list \<Rightarrow> fd" where
  "ex_fresh l = (if 3 \<notin> set l then 3 else if 4 \<notin> set l then 4 else 5)"

definition ex_acc_sys :: "ex_fds acc_sys" where
  "ex_acc_sys = \<lparr>sys_ctl = (\<lambda>k op fd ev. (None, k)), evfd_write = (\<lambda>fd k. (8, k)), evfd_read = (\<lambda>fd k. (8, k)),
     sys_socket = (\<lambda>f k. (SysErr EMFILE, k)), sys_bind = (\<lambda>fd bs k. (None, k)), sys_listen = (\<lambda>fd k. (None, k)),
     sys_accept4 = (\<lambda>fd n k. (SysErr EMFILE, k)),
     sys_accept = (\<lambda>fd (l, b). if card (set l) < 3 \<and> b \<noteq> [] then (SysOk (ex_fresh l), (ex_fresh l # l, tl b)) else (SysErr EMFILE, (l, b))),
     sys_close = (\<lambda>fd (l, b). (filter (\<lambda>x. x \<noteq> fd) l, b)),
     sys_open_null = (\<lambda>(l, b). if card (set l) < 3 then (SysOk (ex_fresh l), (ex_fresh l # l, b)) else (SysErr EMFILE, (l, b))), sys_setsockopt = (\<lambda>fd level name v k. (None, k))\<rparr>"

lemma ex_fresh: "card (set l) < 3 \<Longrightarrow> ex_fresh l \<notin> set l"
proof (rule ccontr)
  assume "card (set l) < 3" "\<not> ex_fresh l \<notin> set l"
  then have "{3, 4, 5} \<subseteq> set l"
    by (auto simp: ex_fresh_def split: if_splits)
  then have "card {3, 4, 5 :: fd} \<le> card (set l)"
    by (intro card_mono) simp_all
  then show False
    using \<open>card (set l) < 3\<close> by simp
qed

lemma ex_fds_ok: "fds_ok ex_acc_sys 3 (\<lambda>k. set (fst k)) snd 3"
  using ex_fresh by (auto simp: fds_ok_def ex_acc_sys_def)

definition ex_acceptor :: acceptor where
  "ex_acceptor = \<lparr>listening = True, accept_fd = 3, accept_channel = 12, on_new_connection = True, idle_fd = 4\<rparr>"

definition ex_acc_loop :: "(nat, ex_fds, nat) evloop" where
  "ex_acc_loop = loop_members ([3, 4, 5], [70, 71]) 1 7 6 8 9 10 11"

theorem handle_accept_result_witness:
  "\<exists>i w'. handle_accept ex_acc_sys (\<lambda>fd addr w. Inr w) [] 7 ex_acceptor ex_acc_loop = Inr (ex_acceptor\<lparr>idle_fd := i\<rparr>, w')
    \<and> snd (epoll w') = [71] \<and> i \<in> set (fst (epoll w'))"
proof -
  let ?k = "([3, 4, 5], [70, 71]) :: ex_fds"
  have me: "IsInLoopThread 7 ex_acc_loop" and k: "epoll ex_acc_loop = ?k"
    by (simp_all add: ex_acc_loop_def)
  have ok: "fds_ok ex_acc_sys (accept_fd ex_acceptor) (\<lambda>k. set (fst k)) snd 3"
    using ex_fds_ok by (simp add: ex_acceptor_def)
  have a: "finite (set (fst ?k))" "card (set (fst ?k)) \<le> 3" "idle_fd ex_acceptor \<in> set (fst ?k)"
    "accept_fd ex_acceptor \<in> set (fst ?k)" "idle_fd ex_acceptor \<noteq> accept_fd ex_acceptor"
    by (simp_all add: ex_acceptor_def)
  have acc: "sys_accept4 ex_acc_sys (accept_fd ex_acceptor) sizeof_ptr (epoll ex_acc_loop) = (SysErr EMFILE, ?k)"
    by (simp add: ex_acc_sys_def k)
  show ?thesis
    using handle_accept_result [OF me ok a acc, of "\<lambda>fd addr w. Inr w" "[]"] by auto
qed

subsection \<open>Listening and destruction\<close>

text \<open>\<open>Listen\<close> makes the kernel watch the listening socket for reading. Destroying the acceptor
  takes the socket out of the interest list and frees the channel when it has handled an event;
  when no connection ever came, the assertion of \<open>~Channel\<close> reads \<open>event_handing_\<close> before it was
  ever written.\<close>

theorem Acceptor_Listen_dtor:
  fixes w :: "('cb, 'k, 'fn, 'z) loop_state"
  assumes sys: "epoll_ok (sys_ctl s) interest" "epoll_accepts (sys_ctl s) interest"
    "\<And>fd k. interest (snd (sys_listen s fd k)) = interest k" "\<And>fd k. interest (sys_close s fd k) = (interest k)(fd := None)"
    and inv: "loop_inv interest w" "IsInLoopThread me w" "\<not> loop_event_handing w"
    and ch: "channel_heap w (accept_channel a) = Some ch" "ch_fd ch = accept_fd a"
    and listen: "fst (sys_listen s (accept_fd a) (epoll w)) = None"
  shows "\<exists>w1 ch1. Acceptor_Listen s me a w = Inr (a\<lparr>listening := True\<rparr>, w1) \<and> channel_heap w1 (accept_channel a) = Some ch1
    \<and> interest (epoll w1) (accept_fd a) = Some (events ch1, accept_channel a) \<and> IsReadEvent ch1
    \<and> (event_handing ch = None \<longrightarrow> Acceptor_dtor s me a w1 = Inl Indeterminate)
    \<and> (event_handing ch = Some False \<longrightarrow> (\<exists>w2. Acceptor_dtor s me a w1 = Inr w2 \<and> interest (epoll w2) (accept_fd a) = None
         \<and> channel_heap w2 = (channel_heap w)(accept_channel a := None)))"
proof -
  let ?s = "acc_loop_part s" and ?p = "accept_channel a" and ?m = "masked enable_read ch"
  have ok: "epoll_ok (sys_ctl ?s) interest" "epoll_accepts (sys_ctl ?s) interest"
    using sys(1,2) by (simp_all add: acc_loop_part_def)
  obtain k where k: "sys_listen s (accept_fd a) (epoll w) = (None, k)"
    using listen by (metis prod.collapse)
  let ?w = "w\<lparr>epoll := k\<rparr>"
  have w: "loop_inv interest ?w" "IsInLoopThread me ?w" "channel_heap ?w ?p = Some ch"
    using loop_inv_epoll [OF inv(1), of k] sys(3) [of "accept_fd a" "epoll w"] k inv(2) ch(1) by (simp_all add: IsInLoopThread_def)
  obtain k1 where k1: "update_mask ?s me enable_read ?p ?w = Inr (channel_changed ?p ?m (Some ?p) k1 ?w)"
    "loop_inv interest (channel_changed ?p ?m (Some ?p) k1 ?w)"
    using update_mask_ok [OF ok w mask_only_ops(1)] by metis
  define w1 where "w1 = channel_changed ?p ?m (Some ?p) k1 ?w"
  have run: "Acceptor_Listen s me a w = Inr (a\<lparr>listening := True\<rparr>, w1)"
    using inv(2) k k1(1) by (simp add: Acceptor_Listen_def AssertInLoopThread_def Socket_Listen_def listen_or_die_def mask_operations w1_def)
  have m: "IsReadEvent ?m" "ch_fd ?m = accept_fd a" "event_handing ?m = event_handing ch"
    by (simp_all add: ch(2) mask_only_ops mask_onlyD(4)) (simp add: masked_def after_update_def enable_read_def)
  have "events ?m \<noteq> 0"
    using m(1) by (auto simp: IsReadEvent_def has_event_def)
  note m = m this
  have w1: "channel_heap w1 ?p = Some ?m" "IsInLoopThread me w1" "\<not> loop_event_handing w1" "loop_inv interest w1"
    using inv k1(2) w(2) by (simp_all add: w1_def)
  have watched: "interest (epoll w1) (accept_fd a) = Some (events ?m, ?p)"
    using channel_watched [OF w1(4,1) m(4)] m(2) by simp
  obtain k2 k3 c where off: "DisableAllEvent ?s me ?p w1 = Inr (channel_changed ?p (masked disable_all ?m) (Some ?p) k2 w1)"
    "RemoveFromLoop ?s me ?p (channel_changed ?p (masked disable_all ?m) (Some ?p) k2 w1) = Inr (channel_changed ?p c None k3 w1)"
    "interest k3 (ch_fd ?m) = None" "ch_fd c = ch_fd ?m" "event_handing c = event_handing ?m" "added_in_loop c = Some False"
    using disable_and_remove [OF ok w1(4,2,1,3)] by metis
  define v where "v = (channel_changed ?p c None k3 w1)\<lparr>epoll := sys_close s (idle_fd a) k3\<rparr>"
  have v: "channel_heap v ?p = Some c" "channels v (ch_fd c) = None" "channel_heap v = (channel_heap w)(?p \<mapsto> c)"
    by (simp_all add: v_def w1_def)
  have dtor: "Acceptor_dtor s me a w1 = andthen (Channel_dtor me ?p v) (\<lambda>w3. Inr (w3\<lparr>epoll := sys_close s (accept_fd a) (epoll w3)\<rparr>))"
    using off(1,2) by (simp add: Acceptor_dtor_def v_def)
  have chan: "Channel_dtor me ?p v = (case event_handing ch of None \<Rightarrow> Inl Indeterminate | Some True \<Rightarrow> Inl AssertFail
      | Some False \<Rightarrow> Inr (v\<lparr>channel_heap := (channel_heap v)(?p := None)\<rparr>))"
    using Channel_dtor_removed [OF v(1) off(6)] v(2) off(5) m(3) by simp
  show ?thesis
    using run w1(1) watched m(1) dtor chan v(3) sys(4)
    by - (rule exI [of _ w1], rule exI [of _ ?m], simp)
qed

definition ex_listen_sys :: "epoll_table acc_sys" where
  "ex_listen_sys = \<lparr>sys_ctl = epoll_table_ctl, evfd_write = (\<lambda>fd k. (8, k)), evfd_read = (\<lambda>fd k. (8, k)),
     sys_socket = (\<lambda>f k. (SysErr EMFILE, k)), sys_bind = (\<lambda>fd bs k. (None, k)), sys_listen = (\<lambda>fd k. (None, k)),
     sys_accept4 = (\<lambda>fd n k. (SysErr EAGAIN, k)), sys_accept = (\<lambda>fd k. (SysErr EAGAIN, k)),
     sys_close = (\<lambda>fd k. k(fd := None)), sys_open_null = (\<lambda>k. (SysErr EMFILE, k)), sys_setsockopt = (\<lambda>fd level name v k. (None, k))\<rparr>"

definition ex_listener :: acceptor where
  "ex_listener = \<lparr>listening = False, accept_fd = 5, accept_channel = 11, on_new_connection = True, idle_fd = 20\<rparr>"

theorem Acceptor_Listen_dtor_witness:
  "\<exists>w1. Acceptor_Listen ex_listen_sys 7 ex_listener (ex_loop None) = Inr (ex_listener\<lparr>listening := True\<rparr>, w1)
    \<and> Acceptor_dtor ex_listen_sys 7 ex_listener w1 = Inl Indeterminate"
proof -
  have sys: "epoll_ok (sys_ctl ex_listen_sys) (\<lambda>k. k)" "epoll_accepts (sys_ctl ex_listen_sys) (\<lambda>k. k)"
    using epoll_table_ok by (simp_all add: ex_listen_sys_def)
  have calls: "snd (sys_listen ex_listen_sys fd k) = k" "sys_close ex_listen_sys fd k = k(fd := None)"
    "fst (sys_listen ex_listen_sys fd k) = None" for fd k
    by (simp_all add: ex_listen_sys_def)
  have ch: "channel_heap (ex_loop None) (accept_channel ex_listener) = Some (ex_read_channel 5 None)"
    "ch_fd (ex_read_channel 5 None) = accept_fd ex_listener" "event_handing (ex_read_channel 5 None) = None"
    by (simp_all add: ex_listener_def ex_read_channel_def)
  from Acceptor_Listen_dtor [where w = "ex_loop None" and interest = "\<lambda>k. k", OF sys calls(1,2) ex_loop_inv ex_loop_simps(1,4) ch(1,2) calls(3)] ch(3)
  show ?thesis
    by (elim exE conjE) (intro exI conjI, assumption, simp)
qed

end
