(* ===== verification/TcpServer.thy ===== *)
theory TcpServer
  imports Connection_Props ThreadPool Acceptor
begin

text \<open>
  \<open>TcpServer\<close> of \<open>include/benet/tcp_server.h\<close> and \<open>src/tcp_server.cpp\<close>, on top of the loops of the
  thread pool, each with its connections. The two function-static counters of the program (the one
  of \<open>GetNextLoop\<close> and the connection id) are part of the state. The acceptor calls
  \<open>new_connection\<close> with the accepted descriptor; \<open>c\<close> and \<open>p\<close> are the addresses of the new
  connection and of its channel.
\<close>

subsection \<open>State\<close>

text \<open>The callbacks of a connection: one of the user, or the server's \<open>remove_connection\<close>.\<close>

datatype 'u srv_cb = UserCb 'u | RemoveCb

record 'u server =
  srv_loop :: ptr
  listen_addr :: sockaddr
  srv_name :: string
  srv_acceptor :: acceptor
  srv_pool :: pool
  thread_init_cb :: bool
  connection_cb :: "'u srv_cb option"
  message_cb :: "'u srv_cb option"
  write_complete_cb :: "'u srv_cb option"
  srv_started :: bool
  connections :: "string \<rightharpoonup> ptr \<times> ptr"

record ('k, 'u) srv_world =
  server :: "'u server"
  loops :: "ptr \<rightharpoonup> ('k, 'u srv_cb) tcp_loop"
  next_index :: nat
  next_conn_id :: nat

type_synonym ('k, 'u) srv_user = "('k, 'u srv_cb, unit) user_fun"

definition with_loop :: "ptr \<Rightarrow> ('k, 'u) srv_world \<Rightarrow> (('k, 'u srv_cb) tcp_loop \<Rightarrow> 'a res) \<Rightarrow> 'a res" where
  "with_loop l W k = (case loops W l of None \<Rightarrow> Inl Dangling | Some w \<Rightarrow> k w)"

definition put_loop :: "ptr \<Rightarrow> ('k, 'u srv_cb) tcp_loop \<Rightarrow> ('k, 'u) srv_world \<Rightarrow> ('k, 'u) srv_world" where
  "put_loop l w W = W\<lparr>loops := (loops W)(l \<mapsto> w)\<rparr>"

definition put_connections :: "(string \<rightharpoonup> ptr \<times> ptr) \<Rightarrow> ('k, 'u) srv_world \<Rightarrow> ('k, 'u) srv_world" where
  "put_connections cs W = W\<lparr>server := (server W)\<lparr>connections := cs\<rparr>\<rparr>"

subsection \<open>Operations\<close>

definition TcpServer_ctor :: "'k acc_sys \<Rightarrow> ptr \<Rightarrow> ptr \<Rightarrow> sockaddr \<Rightarrow> bool \<Rightarrow> string \<Rightarrow> 'u srv_cb option \<Rightarrow> 'u srv_cb option \<Rightarrow>
    ('k, 'u srv_cb) tcp_loop \<Rightarrow> ('u server \<times> ('k, 'u srv_cb) tcp_loop) res" where
  "TcpServer_ctor acc loop p addr reuse_port name default_connection_cb default_message_cb w =
     andthen (Acceptor_ctor acc AcceptCb p addr reuse_port w) (\<lambda>(a, w1).
       Inr (\<lparr>srv_loop = loop, listen_addr = addr, srv_name = name, srv_acceptor = BindNewConnCallback True a,
             srv_pool = EventLoopThreadPool_ctor loop (name @ ''.IoThreads''), thread_init_cb = False,
             connection_cb = default_connection_cb, message_cb = default_message_cb, write_complete_cb = None,
             srv_started = False, connections = Map.empty\<rparr>, w1))"

definition srv_InitThreadsNumber :: "int \<Rightarrow> 'u server \<Rightarrow> 'u server res" where
  "srv_InitThreadsNumber n v = andthen (InitThreadsNumber n (srv_pool v)) (\<lambda>p. Inr (v\<lparr>srv_pool := p\<rparr>))"

definition BindThreadInitCallback :: "bool \<Rightarrow> 'u server \<Rightarrow> 'u server" where
  "BindThreadInitCallback cb v = v\<lparr>thread_init_cb := cb\<rparr>"

definition srv_BindConnectionCallback :: "'u srv_cb option \<Rightarrow> 'u server \<Rightarrow> 'u server" where
  "srv_BindConnectionCallback cb v = v\<lparr>connection_cb := cb\<rparr>"

definition srv_BindMessageCallback :: "'u srv_cb option \<Rightarrow> 'u server \<Rightarrow> 'u server" where
  "srv_BindMessageCallback cb v = v\<lparr>message_cb := cb\<rparr>"

definition srv_BindWriteCompleteCallback :: "'u srv_cb option \<Rightarrow> 'u server \<Rightarrow> 'u server" where
  "srv_BindWriteCompleteCallback cb v = v\<lparr>write_complete_cb := cb\<rparr>"

text \<open>\<open>Start\<close>. The pool insists on the loop thread, so that \<open>RunInLoop\<close> runs \<open>Listen\<close> at once.\<close>

definition srv_Start :: "'k acc_sys \<Rightarrow> (string \<Rightarrow> nat \<Rightarrow> ptr) \<Rightarrow> thread_id \<Rightarrow> 'u server \<Rightarrow> ('k, 'u srv_cb) tcp_loop \<Rightarrow>
    ('u server \<times> ('k, 'u srv_cb) tcp_loop) res" where
  "srv_Start acc spawn me v w =
     andthen (pool_Start spawn (IsInLoopThread me w) (thread_init_cb v) (srv_pool v)) (\<lambda>(pool, inits).
       assert_then (\<not> listening (srv_acceptor v))
         (andthen (Acceptor_Listen acc me (srv_acceptor v) w) (\<lambda>(a, w1).
            Inr (v\<lparr>srv_started := True, srv_pool := pool, srv_acceptor := a\<rparr>, w1))))"

definition conn_name_of :: "ntop_fun \<Rightarrow> 'u server \<Rightarrow> nat \<Rightarrow> string" where
  "conn_name_of ntop v cid = srv_name v @ ''-'' @ AsString ntop (listen_addr v) @ ''#'' @ dec_string cid"

text \<open>The callbacks that the server binds to a new connection.\<close>

definition bind_callbacks :: "'u server \<Rightarrow> 'u srv_cb connection \<Rightarrow> 'u srv_cb connection" where
  "bind_callbacks v x =
     conn_BindCloseCallback (Some RemoveCb) (BindWriteCompleteCallback (write_complete_cb v)
       (BindMessageCallback (message_cb v) (BindConnectionCallback (connection_cb v) x)))"

definition new_connection :: "'k conn_sys \<Rightarrow> ('k, 'u) srv_user \<Rightarrow> ntop_fun \<Rightarrow> name_fun \<Rightarrow> thread_id \<Rightarrow> ptr \<Rightarrow> ptr \<Rightarrow> fd \<Rightarrow> sockaddr \<Rightarrow>
    ('k, 'u) srv_world \<Rightarrow> ('k, 'u) srv_world res" where
  "new_connection s user ntop getsockname me c p connfd peer W =
     with_loop (srv_loop (server W)) W (\<lambda>b. AssertInLoopThread me b
       (andthen (GetNextLoop (IsInLoopThread me b) (next_index W) (srv_pool (server W))) (\<lambda>(io, idx).
        let name = conn_name_of ntop (server W) (next_conn_id W);
            W1 = W\<lparr>next_index := idx, next_conn_id := size_add (next_conn_id W) 1\<rparr>
        in with_loop io W1 (\<lambda>w.
           andthen (TcpConnection_ctor s c p connfd (get_local_addr getsockname connfd) peer name w) (\<lambda>w1.
           with_conn c w1 (\<lambda>x.
           andthen (RunInLoop (loop_part s) (\<lambda>fn. ConnectionEstablished s user me c) me (EstablishedFn c)
                      (put_conn c (bind_callbacks (server W) x) w1)) (\<lambda>w2.
             Inr (put_connections ((connections (server W))(name \<mapsto> (io, c))) (put_loop io w2 W1)))))))))"

text \<open>The functor of \<open>remove_connection\<close>, run by the thread of the base loop.\<close>

definition remove_in_loop :: "'k conn_sys \<Rightarrow> thread_id \<Rightarrow> ptr \<Rightarrow> ptr \<Rightarrow> ('k, 'u) srv_world \<Rightarrow> ('k, 'u) srv_world res" where
  "remove_in_loop s me io c W =
     with_loop io W (\<lambda>w. with_conn c w (\<lambda>x.
       let cs = connections (server W) in
       assert_then (cs (conn_name x) \<noteq> None)
         (Inr (put_loop io (QueueInLoop (loop_part s) me (DestroyedFn c) w) (put_connections (cs(conn_name x := None)) W)))))"

text \<open>\<open>remove_connection\<close>, the close callback; in another thread the functor is queued in the base
  loop.\<close>

definition remove_connection :: "'k conn_sys \<Rightarrow> thread_id \<Rightarrow> ptr \<Rightarrow> ptr \<Rightarrow> ('k, 'u) srv_world \<Rightarrow> ('k, 'u) srv_world res" where
  "remove_connection s me io c W =
     with_loop (srv_loop (server W)) W (\<lambda>b.
       if IsInLoopThread me b then remove_in_loop s me io c W
       else Inr (put_loop (srv_loop (server W)) (QueueInLoop (loop_part s) me (CallFn RemoveCb (ConnArg c)) b) W))"

text \<open>The destructor goes through \<open>connections_\<close> in the order of the names, here a list; an entry
  whose pointer is reset is \<open>None\<close>.\<close>

fun destroy_connections :: "'k conn_sys \<Rightarrow> ('k, 'u) srv_user \<Rightarrow> thread_id \<Rightarrow> string list \<Rightarrow> ('k, 'u) srv_world \<Rightarrow> ('k, 'u) srv_world res" where
  "destroy_connections s user me [] W = Inr W"
| "destroy_connections s user me (n # ns) W =
     (case connections (server W) n of
        None \<Rightarrow> Inl Dangling
      | Some (io, c) \<Rightarrow>
          with_loop io W (\<lambda>w.
            andthen (RunInLoop (loop_part s) (\<lambda>fn. ConnectionDestroyed s user me c) me (DestroyedFn c) w) (\<lambda>w1.
              destroy_connections s user me ns (put_connections ((connections (server W))(n := None)) (put_loop io w1 W)))))"

definition TcpServer_dtor :: "'k conn_sys \<Rightarrow> ('k, 'u) srv_user \<Rightarrow> thread_id \<Rightarrow> string list \<Rightarrow> ('k, 'u) srv_world \<Rightarrow> ('k, 'u) srv_world res" where
  "TcpServer_dtor s user me names W =
     with_loop (srv_loop (server W)) W (\<lambda>b. AssertInLoopThread me b
       (destroy_connections s user me names (W\<lparr>server := (server W)\<lparr>srv_started := False\<rparr>\<rparr>)))"

subsection \<open>Invariant\<close>

text \<open>The pool is started and its loops exist, every loop satisfies the invariant of its
  connections, an entry of \<open>connections_\<close> is a connection of that name in its loop, and its name was
  built from an id that was given out.\<close>

definition srv_inv :: "('k \<Rightarrow> fd \<rightharpoonup> epoll_event) \<Rightarrow> ntop_fun \<Rightarrow> ('k, 'u) srv_world \<Rightarrow> bool" where
  "srv_inv interest ntop W \<longleftrightarrow>
     (\<exists>ls. GetAllLoops True (srv_pool (server W)) = Inr ls \<and> (\<forall>l \<in> set ls. loops W l \<noteq> None))
     \<and> (\<forall>l w. loops W l = Some w \<longrightarrow> tcp_inv interest w \<and> pend_ok w)
     \<and> (\<forall>n io c. connections (server W) n = Some (io, c) \<longrightarrow>
          (\<exists>w x cid. loops W io = Some w \<and> conns w c = Some x \<and> conn_name x = n
             \<and> cid < next_conn_id W \<and> n = conn_name_of ntop (server W) cid))"

lemma conn_name_of_inject: "conn_name_of ntop v a = conn_name_of ntop v b \<longleftrightarrow> a = b"
  by (auto simp: conn_name_of_def dec_string_inject)

lemma conn_name_of_cong:
  "srv_name v' = srv_name v \<Longrightarrow> listen_addr v' = listen_addr v \<Longrightarrow> conn_name_of ntop v' = conn_name_of ntop v"
  by (simp add: conn_name_of_def fun_eq_iff)

lemma conn_name_unused:
  assumes "srv_inv interest ntop W"
  shows "connections (server W) (conn_name_of ntop (server W) (next_conn_id W)) = None"
proof (rule ccontr)
  assume "connections (server W) (conn_name_of ntop (server W) (next_conn_id W)) \<noteq> None"
  then obtain i d where "connections (server W) (conn_name_of ntop (server W) (next_conn_id W)) = Some (i, d)"
    by auto
  then obtain cid where "cid < next_conn_id W" "conn_name_of ntop (server W) (next_conn_id W) = conn_name_of ntop (server W) cid"
    using assms unfolding srv_inv_def by blast
  then show False
    by (simp add: conn_name_of_inject)
qed

lemma srv_world_simps [simp]:
  "loops (put_loop l w W) = (loops W)(l \<mapsto> w)" "server (put_loop l w W) = server W"
  "next_conn_id (put_loop l w W) = next_conn_id W" "next_index (put_loop l w W) = next_index W"
  "loops (put_connections cs W) = loops W" "server (put_connections cs W) = (server W)\<lparr>connections := cs\<rparr>"
  "next_conn_id (put_connections cs W) = next_conn_id W" "next_index (put_connections cs W) = next_index W"
  by (simp_all add: put_loop_def put_connections_def)

lemma conn_name_of_server [simp]:
  "conn_name_of ntop (v\<lparr>connections := cs\<rparr>) = conn_name_of ntop v"
  "conn_name_of ntop (v\<lparr>srv_started := b\<rparr>) = conn_name_of ntop v"
  by (simp_all add: conn_name_of_def fun_eq_iff)

text \<open>A step of one loop, in which entries of the map are kept, removed or added.\<close>

lemma srv_inv_step:
  assumes inv: "srv_inv interest ntop W" and w: "loops W io = Some w" and step: "tcp_inv interest w'" "pend_ok w'" "tcp_forward w w'"
    and cs: "\<And>n r. cs n = Some r \<Longrightarrow> connections (server W) n = Some r \<or> (\<exists>c x cid. r = (io, c) \<and> conns w' c = Some x
        \<and> conn_name x = n \<and> cid < N \<and> n = conn_name_of ntop (server W) cid)"
    and N: "next_conn_id W \<le> N"
  shows "srv_inv interest ntop (put_connections cs (put_loop io w' (W\<lparr>next_index := idx, next_conn_id := N\<rparr>)))"
proof -
  let ?W = "put_connections cs (put_loop io w' (W\<lparr>next_index := idx, next_conn_id := N\<rparr>))"
  have entry: "\<exists>v x cid. loops ?W i = Some v \<and> conns v c = Some x \<and> conn_name x = n \<and> cid < next_conn_id ?W \<and> n = conn_name_of ntop (server ?W) cid"
    if e: "connections (server ?W) n = Some (i, c)" for n i c
  proof (cases "connections (server W) n = Some (i, c)")
    case True
    then obtain v x cid where v: "loops W i = Some v" "conns v c = Some x" "conn_name x = n" "cid < next_conn_id W" "n = conn_name_of ntop (server W) cid"
      using inv unfolding srv_inv_def by meson
    obtain v' x' where "loops ?W i = Some v'" "conns v' c = Some x'" "conn_name x' = n"
    proof (cases "i = io")
      case True
      then obtain x' where "conns w' c = Some x'" "conn_forward x x'"
        using v(1,2) w step(3) by (auto simp: tcp_forward_def)
      then show thesis
        using True v(3) that [of w' x'] by (simp add: conn_forward_def)
    next
      case False
      then show thesis
        using v that [of v x] by simp
    qed
    then show ?thesis
      using v(4,5) N by (intro exI [of _ v'] exI [of _ x'] exI [of _ cid]) simp
  next
    case False
    then show ?thesis
      using cs [of n "(i, c)"] e by fastforce
  qed
  show ?thesis
    unfolding srv_inv_def
  proof (intro conjI)
    show "\<exists>ls. GetAllLoops True (srv_pool (server ?W)) = Inr ls \<and> (\<forall>l \<in> set ls. loops ?W l \<noteq> None)"
      using inv by (auto simp: srv_inv_def)
    show "\<forall>l w. loops ?W l = Some w \<longrightarrow> tcp_inv interest w \<and> pend_ok w"
      using inv step by (auto simp: srv_inv_def)
  qed (use entry in blast)
qed

lemma srv_inv_remove:
  assumes "srv_inv interest ntop W" "loops W io = Some w" "tcp_inv interest w'" "pend_ok w'" "tcp_forward w w'"
    "\<And>n r. cs n = Some r \<Longrightarrow> connections (server W) n = Some r"
  shows "srv_inv interest ntop (put_loop io w' (put_connections cs W))"
proof -
  have "srv_inv interest ntop (put_connections cs (put_loop io w' (W\<lparr>next_index := next_index W, next_conn_id := next_conn_id W\<rparr>)))"
    using srv_inv_step [OF assms(1-5), of cs "next_conn_id W" "next_index W"] assms(6) by blast
  moreover have comm: "put_connections cs (put_loop io w' W) = put_loop io w' (put_connections cs W)"
    by (simp add: put_loop_def put_connections_def)
  ultimately show ?thesis
    by (simp add: comm)
qed

lemma srv_inv_keep:
  assumes "srv_inv interest ntop W" "loops W io = Some w" "tcp_inv interest w'" "pend_ok w'" "tcp_forward w w'"
  shows "srv_inv interest ntop (put_loop io w' W)"
  using srv_inv_remove [OF assms, of "connections (server W)"] by (simp add: put_connections_def)

subsection \<open>New connections\<close>

text \<open>The callbacks return.\<close>

definition user_total :: "('k, 'u, 'z) user_fun \<Rightarrow> bool" where
  "user_total user \<longleftrightarrow> (\<forall>u arg w. \<exists>w'. user u arg w = Inr w')"

lemma ConnectionEstablished_total:
  assumes sys: "conn_sys_ok s interest" "epoll_accepts (sys_ctl (loop_part s)) interest" and inv: "tcp_inv interest w"
    and x: "conns w c = Some x" "state x = Connecting" "on_connection x \<noteq> None" and me: "IsInLoopThread me w" and user: "user_total user"
  shows "\<exists>w'. ConnectionEstablished s user me c w = Inr w'"
proof -
  obtain ch where ch: "channel_heap w (conn_channel x) = Some ch" "conn_ok ch x"
    using tcp_invD(2) [OF inv x(1)] by blast
  let ?p = "conn_channel x" and ?y = "x\<lparr>state := Connected\<rparr>"
  let ?v = "put_channel ?p (Tie c ch) (put_conn c ?y w)"
  have "loop_inv interest (put_conn c ?y w)"
    using tcp_invD(1) [OF inv] by (simp add: put_conn_def loop_inv_frame)
  then have v: "loop_inv interest ?v"
    by (rule loop_inv_put) (use ch(1) in \<open>simp_all add: Tie_def\<close>)
  have "IsInLoopThread me ?v" "channel_heap ?v ?p = Some (Tie c ch)"
    using me by simp_all
  from update_mask_ok [OF conn_sys_okD(1) [OF sys(1)] sys(2) v this mask_only_ops(1)] obtain k
    where k: "update_mask (loop_part s) me enable_read ?p ?v = Inr (channel_changed ?p (masked enable_read (Tie c ch)) (Some ?p) k ?v)"
    by metis
  have "conns ?v c = Some ?y"
    by (simp add: put_channel_def)
  then show ?thesis
    using x me ch(1) k user by (auto simp: ConnectionEstablished_def with_conn_def AssertInLoopThread_def with_channel_def mask_operations
        call_cb_def user_total_def)
qed

lemma bind_callbacks_simps [simp]:
  "conn_channel (bind_callbacks v x) = conn_channel x" "sockfd (bind_callbacks v x) = sockfd x" "conn_name (bind_callbacks v x) = conn_name x"
  "state (bind_callbacks v x) = state x" "peer_addr (bind_callbacks v x) = peer_addr x" "on_connection (bind_callbacks v x) = connection_cb v"
  "conn_on_close (bind_callbacks v x) = Some RemoveCb" "on_message (bind_callbacks v x) = message_cb v"
  by (simp_all add: bind_callbacks_def conn_BindCloseCallback_def BindWriteCompleteCallback_def BindMessageCallback_def BindConnectionCallback_def)

lemma bind_callbacks_step:
  assumes inv: "tcp_inv interest w" and x: "conns w c = Some x"
  shows "tcp_step interest w (put_conn c (bind_callbacks v x) w)"
proof -
  obtain ch where ch: "channel_heap w (conn_channel x) = Some ch" "conn_ok ch x"
    using tcp_invD(2) [OF inv x] by blast
  have "conn_ok ch (bind_callbacks v x)" "conn_forward x (bind_callbacks v x)"
    using ch(2) by (simp_all add: conn_ok_def conn_forward_def)
      (simp_all add: bind_callbacks_def conn_BindCloseCallback_def BindWriteCompleteCallback_def BindMessageCallback_def BindConnectionCallback_def)
  then show ?thesis
    using conn_changed_step [OF inv x conn_changed_put [OF tcp_invD(1) [OF inv]] _ ch(1)] by blast
qed

text \<open>Handing the new connection to its loop: in another thread it is queued, in the own thread the
  connection is established at once.\<close>

lemma establish_in_loop:
  assumes sys: "conn_sys_ok s interest" "epoll_accepts (sys_ctl (loop_part s)) interest"
    and user: "user_ok interest user" "user_total user"
    and inv: "tcp_inv interest w" "pend_ok w" and x: "conns w c = Some x" "state x = Connecting" "on_connection x \<noteq> None"
  shows "\<exists>w'. RunInLoop (loop_part s) (\<lambda>fn. ConnectionEstablished s user me c) me (EstablishedFn c) w = Inr w'
    \<and> tcp_step interest w w' \<and> pend_ok w'
    \<and> (IsInLoopThread me w \<longrightarrow> (\<exists>y. conns w' c = Some y \<and> state y \<noteq> Connecting))
    \<and> (\<not> IsInLoopThread me w \<longrightarrow> conns w' = conns w \<and> pendings w' = pendings w @ [EstablishedFn c])"
proof (cases "IsInLoopThread me w")
  case True
  obtain w' where w': "ConnectionEstablished s user me c w = Inr w'"
    using ConnectionEstablished_total [OF sys inv(1) x True user(2)] by blast
  note done_here = ConnectionEstablished_result [OF sys(1) user(1) inv(1) w']
  then show ?thesis
    using w' True inv(2) by (auto simp: RunInLoop_def tcp_step_def)
next
  case False
  let ?w' = "QueueInLoop (loop_part s) me (EstablishedFn c) w"
  have "tcp_step interest w ?w'"
    by (rule tcp_frame_step [OF inv(1) tcp_frame_queue [OF sys(1)]]) simp
  then show ?thesis
    using False inv(2) by (auto simp: RunInLoop_def tcp_step_def QueueInLoop_def Let_def set_wakeup_def)
qed

text \<open>The addresses of the new objects and the descriptor from the kernel are not in use.\<close>

definition fresh_objects :: "ptr \<Rightarrow> ptr \<Rightarrow> fd \<Rightarrow> ('k, 'u) srv_world \<Rightarrow> bool" where
  "fresh_objects c p connfd W \<longleftrightarrow> (\<forall>l w. loops W l = Some w \<longrightarrow> conns w c = None \<and> channel_heap w p = None
     \<and> (\<forall>q d. channel_heap w q = Some d \<longrightarrow> ch_fd d \<noteq> connfd))"

lemma new_connection_inv:
  assumes sys: "conn_sys_ok s interest" and user: "user_ok interest user" and inv: "srv_inv interest ntop W"
    and fresh: "fresh_objects c p connfd W" and cid: "next_conn_id W + 1 < size_modulus"
    and run: "new_connection s user ntop getsockname me c p connfd peer W = Inr W'"
  shows "srv_inv interest ntop W'"
proof -
  let ?name = "conn_name_of ntop (server W) (next_conn_id W)"
  have size: "size_add (next_conn_id W) 1 = next_conn_id W + 1"
    using cid by (rule size_add_exact)
  obtain io idx w w1 x w2 where w: "loops W io = Some w"
    and ctor: "TcpConnection_ctor s c p connfd (get_local_addr getsockname connfd) peer ?name w = Inr w1" "conns w1 c = Some x"
    and est: "RunInLoop (loop_part s) (\<lambda>fn. ConnectionEstablished s user me c) me (EstablishedFn c)
      (put_conn c (bind_callbacks (server W) x) w1) = Inr w2"
    and W': "W' = put_connections ((connections (server W))(?name \<mapsto> (io, c)))
      (put_loop io w2 (W\<lparr>next_index := idx, next_conn_id := next_conn_id W + 1\<rparr>))"
    using run unfolding new_connection_def size
    by (auto simp: with_loop_def res_simps Let_def split: option.splits)
  have winv: "tcp_inv interest w" "pend_ok w"
    using inv w by (auto simp: srv_inv_def)
  have fr: "conns w c = None" "channel_heap w p = None" "\<forall>q d. channel_heap w q = Some d \<longrightarrow> ch_fd d \<noteq> connfd"
    using fresh w by (auto simp: fresh_objects_def)
  from TcpConnection_ctor_ok [OF sys winv fr, of "get_local_addr getsockname connfd" peer ?name] ctor
  have w1: "tcp_inv interest w1" "pend_ok w1" "tcp_forward w w1" and name: "conn_name x = ?name"
    by auto
  let ?v = "put_conn c (bind_callbacks (server W) x) w1"
  have step1: "tcp_step interest w1 ?v"
    using bind_callbacks_step [OF w1(1) ctor(2)] .
  have step2: "tcp_step interest ?v w2"
    by (rule RunInLoop_step [OF sys tcp_stepD(1) [OF step1] _ est]) (use ConnectionEstablished_step [OF sys user tcp_stepD(1) [OF step1]] in auto)
  note step = tcp_step_trans [OF step1 step2]
  obtain y where y: "conns w2 c = Some y" "conn_name y = ?name"
    using tcp_stepD(3) [OF step ctor(2)] name by (auto simp: conn_forward_def)
  have "tcp_forward w w2"
    using w1(3) step unfolding tcp_step_def tcp_forward_def by (metis conn_forward_trans)
  moreover have "pend_ok w2"
    using step w1(2) by (simp add: tcp_step_def)
  ultimately show ?thesis
    unfolding W' by (intro srv_inv_step [OF inv w tcp_stepD(1) [OF step]]) (use y in \<open>auto split: if_splits\<close>)
qed


lemma srv_queue_step:
  assumes sys: "conn_sys_ok s interest" and inv: "srv_inv interest ntop W" and w: "loops W l = Some w" and fn: "fn_ok w fn"
  shows "tcp_inv interest (QueueInLoop (loop_part s) me fn w)" "pend_ok (QueueInLoop (loop_part s) me fn w)"
    "tcp_forward w (QueueInLoop (loop_part s) me fn w)"
  using tcp_frame_step [OF _ tcp_frame_queue [OF sys fn]] inv w by (auto simp: tcp_step_def srv_inv_def)

lemma remove_connection_inv:
  assumes sys: "conn_sys_ok s interest" and inv: "srv_inv interest ntop W" and run: "remove_connection s me io c W = Inr W'"
  shows "srv_inv interest ntop W'"
proof -
  obtain b where b: "loops W (srv_loop (server W)) = Some b"
    using run by (auto simp: remove_connection_def with_loop_def split: option.splits)
  show ?thesis
  proof (cases "IsInLoopThread me b")
    case True
    then obtain w x where w: "loops W io = Some w" and "conns w c = Some x"
      and W': "W' = put_loop io (QueueInLoop (loop_part s) me (DestroyedFn c) w) (put_connections ((connections (server W))(conn_name x := None)) W)"
      using run b by (auto simp: remove_connection_def remove_in_loop_def with_loop_def res_simps Let_def assert_then_def split: option.splits if_splits)
    have q: "tcp_inv interest (QueueInLoop (loop_part s) me (DestroyedFn c) w)" "pend_ok (QueueInLoop (loop_part s) me (DestroyedFn c) w)"
      "tcp_forward w (QueueInLoop (loop_part s) me (DestroyedFn c) w)"
      using srv_queue_step [OF sys inv w, of "DestroyedFn c" me] by simp_all
    show ?thesis
      unfolding W' by (rule srv_inv_remove [OF inv w q]) (auto split: if_splits)
  next
    case False
    have q: "tcp_inv interest (QueueInLoop (loop_part s) me (CallFn RemoveCb (ConnArg c)) b)"
      "pend_ok (QueueInLoop (loop_part s) me (CallFn RemoveCb (ConnArg c)) b)"
      "tcp_forward b (QueueInLoop (loop_part s) me (CallFn RemoveCb (ConnArg c)) b)"
      using srv_queue_step [OF sys inv b, of "CallFn RemoveCb (ConnArg c)" me] by simp_all
    from srv_inv_keep [OF inv b q] show ?thesis
      using run b False by (simp add: remove_connection_def with_loop_def)
  qed
qed

text \<open>C16: removing a connection in the server's thread erases its entry, and only that, and queues its
  destruction in its own loop; in any other thread the request is queued in the server's loop and
  nothing else changes. Removing the same connection a second time fails the assertion that
  exactly one entry was erased.\<close>

theorem remove_connection_result:
  assumes sys: "conn_sys_ok s interest" and inv: "srv_inv interest ntop W" and base: "loops W (srv_loop (server W)) = Some b"
    and conn: "connections (server W) name = Some (io, c)"
  shows "if IsInLoopThread me b
    then \<exists>W' w w'. remove_connection s me io c W = Inr W' \<and> connections (server W') = (connections (server W))(name := None)
      \<and> loops W io = Some w \<and> loops W' = (loops W)(io \<mapsto> w') \<and> conns w' = conns w \<and> pendings w' = pendings w @ [DestroyedFn c]
      \<and> srv_inv interest ntop W' \<and> remove_connection s me io c W' = Inl AssertFail
    else \<exists>W' b'. remove_connection s me io c W = Inr W' \<and> server W' = server W \<and> loops W' = (loops W)(srv_loop (server W) \<mapsto> b')
      \<and> conns b' = conns b \<and> pendings b' = pendings b @ [CallFn RemoveCb (ConnArg c)] \<and> srv_inv interest ntop W'"
proof -
  obtain w x where w: "loops W io = Some w" "conns w c = Some x" "conn_name x = name"
    using inv conn unfolding srv_inv_def by blast
  have queue: "conns (QueueInLoop (loop_part s) me fn v) = conns v" "pendings (QueueInLoop (loop_part s) me fn v) = pendings v @ [fn]"
    "IsInLoopThread t (QueueInLoop (loop_part s) me fn v) = IsInLoopThread t v" for fn t and v :: "('a, 'b srv_cb) tcp_loop"
    by (simp_all add: QueueInLoop_def Let_def set_wakeup_def IsInLoopThread_def)
  show ?thesis
  proof (cases "IsInLoopThread me b")
    case True
    let ?w' = "QueueInLoop (loop_part s) me (DestroyedFn c) w"
    let ?cs = "(connections (server W))(name := None)"
    let ?W' = "put_loop io ?w' (put_connections ?cs W)"
    have run: "remove_connection s me io c W = Inr ?W'"
      using True base w conn by (simp add: remove_connection_def remove_in_loop_def with_loop_def with_conn_def Let_def assert_then_def)
    have "srv_inv interest ntop ?W'"
      by (rule remove_connection_inv [OF sys inv run])
    moreover obtain b' where b': "loops ?W' (srv_loop (server ?W')) = Some b'" "IsInLoopThread me b'"
      using base True w(1) queue(3) by (cases "srv_loop (server W) = io") auto
    then have "remove_connection s me io c ?W' = Inl AssertFail"
      using w queue by (simp add: remove_connection_def remove_in_loop_def with_loop_def with_conn_def Let_def assert_then_def)
    ultimately show ?thesis
      using True run w queue by (simp add: queue) (intro exI [of _ ?W'] exI [of _ ?w'], simp add: queue)
  next
    case False
    let ?b' = "QueueInLoop (loop_part s) me (CallFn RemoveCb (ConnArg c)) b"
    let ?W' = "put_loop (srv_loop (server W)) ?b' W"
    have run: "remove_connection s me io c W = Inr ?W'"
      using False base by (simp add: remove_connection_def with_loop_def)
    have "srv_inv interest ntop ?W'"
      by (rule remove_connection_inv [OF sys inv run])
    then show ?thesis
      using False run queue by (simp add: queue) (intro exI [of _ ?W'] exI [of _ ?b'], simp add: queue)
  qed
qed

subsection \<open>Examples\<close>

text \<open>A server whose loop 1 runs in thread 7 and whose pool has the loop 50 of thread 9.\<close>

definition ex_srv_user :: "(epoll_table, nat) srv_user" where
  "ex_srv_user u arg w = Inr w"

definition ex_srv_loop :: "ptr \<Rightarrow> thread_id \<Rightarrow> (epoll_table, nat srv_cb) tcp_loop" where
  "ex_srv_loop l t = \<lparr>channel_heap = Map.empty, channels = Map.empty, epoll_fd = 3, events_size = 32, epoll = Map.empty,
     this_loop = l, running = True, quitting = False, thread_id = t, loop_event_handing = False,
     poll_return_time = 0, active_channels = [], current_active_channel = None, calling_pendings = False,
     pendings = [], wakeup_fd = 4, wakeup_channel = 10, timer_fd = 5, timer_channel = 11, conns = Map.empty\<rparr>"

definition ex_server :: "nat server" where
  "ex_server = \<lparr>srv_loop = 1, listen_addr = [], srv_name = ''echo'',
     srv_acceptor = \<lparr>listening = True, accept_fd = 3, accept_channel = 12, on_new_connection = True, idle_fd = 4\<rparr>,
     srv_pool = (EventLoopThreadPool_ctor 1 ''echo.IoThreads'')\<lparr>pool_started := True, pool_loops := [50]\<rparr>,
     thread_init_cb = False, connection_cb = Some (UserCb 1), message_cb = Some (UserCb 2), write_complete_cb = None,
     srv_started = True, connections = Map.empty\<rparr>"

definition ex_world :: "(epoll_table, nat) srv_world" where
  "ex_world = \<lparr>server = ex_server, loops = [1 \<mapsto> ex_srv_loop 1 7, 50 \<mapsto> ex_srv_loop 50 9], next_index = 0, next_conn_id = 0\<rparr>"

lemma ex_srv_loop_inv: "tcp_inv (\<lambda>k. k) (ex_srv_loop l t)" "pend_ok (ex_srv_loop l t)"
  by (simp_all add: ex_srv_loop_def tcp_inv_def loop_inv_def poller_inv_def pend_ok_def kEventsSize_def)

lemma ex_world_inv: "srv_inv (\<lambda>k. k) ntop ex_world"
  using ex_srv_loop_inv by (auto simp: srv_inv_def ex_world_def ex_server_def GetAllLoops_def EventLoopThreadPool_ctor_def split: if_splits)

lemma ex_srv_user_ok: "user_ok interest ex_srv_user" "user_total ex_srv_user"
  by (simp_all add: user_ok_def user_total_def ex_srv_user_def tcp_step_refl)


text \<open>The same server with one closed connection in the pool's loop.\<close>

definition ex_srv_conn :: "nat srv_cb connection" where
  "ex_srv_conn = \<lparr>conn_name = conn_name_of (\<lambda>f a. ''ip'') ex_server 0, sockfd = 6, conn_channel = 12, local_addr = [], peer_addr = [],
     state = Disconnected, reading = True, high_water_mark = 4, on_high_water_mark = None, on_connection = None,
     conn_on_close = Some RemoveCb, on_message = None, on_write_complete = None,
     input_buffer = fresh_buffer, output_buffer = fresh_buffer, user_context = None, sent = [], accepted = [], shut_wr = False\<rparr>"

definition ex_busy_loop :: "(epoll_table, nat srv_cb) tcp_loop" where
  "ex_busy_loop = (ex_srv_loop 50 9)\<lparr>channel_heap := [12 \<mapsto> Channel_ctor 50 6], conns := [20 \<mapsto> ex_srv_conn]\<rparr>"

definition ex_busy_world :: "(epoll_table, nat) srv_world" where
  "ex_busy_world = \<lparr>server = ex_server\<lparr>connections := [conn_name_of (\<lambda>f a. ''ip'') ex_server 0 \<mapsto> (50, 20)]\<rparr>,
     loops = [1 \<mapsto> ex_srv_loop 1 7, 50 \<mapsto> ex_busy_loop], next_index = 1, next_conn_id = 1\<rparr>"

lemma ex_busy_loop_inv: "tcp_inv (\<lambda>k. k) ex_busy_loop" "pend_ok ex_busy_loop"
  using fresh_buffer_inv
  by (simp_all add: ex_busy_loop_def ex_srv_loop_def tcp_inv_def loop_inv_def poller_inv_def pend_ok_def kEventsSize_def
      index_ok_def Channel_ctor_def index_values IsNoneEvent_def IsWriteEvent_def has_event_def kNoneEvent_def conn_ok_def open_state_def ex_srv_conn_def)

lemma ex_busy_world_inv: "srv_inv (\<lambda>k. k) (\<lambda>f a. ''ip'') ex_busy_world"
proof -
  have "\<exists>ls. GetAllLoops True (srv_pool (server ex_busy_world)) = Inr ls \<and> (\<forall>l \<in> set ls. loops ex_busy_world l \<noteq> None)"
    by (simp add: ex_busy_world_def ex_server_def GetAllLoops_def EventLoopThreadPool_ctor_def)
  moreover have "\<forall>l w. loops ex_busy_world l = Some w \<longrightarrow> tcp_inv (\<lambda>k. k) w \<and> pend_ok w"
    using ex_srv_loop_inv ex_busy_loop_inv by (simp add: ex_busy_world_def)
  moreover have "conns ex_busy_loop 20 = Some ex_srv_conn" "conn_name ex_srv_conn = conn_name_of (\<lambda>f a. ''ip'') ex_server 0"
    by (simp_all add: ex_busy_loop_def ex_srv_conn_def)
  ultimately show ?thesis
    unfolding srv_inv_def by (simp add: ex_busy_world_def)
qed

theorem remove_connection_result_witness:
  "\<exists>W' w'. remove_connection ex_csys 7 50 20 ex_busy_world = Inr W' \<and> connections (server W') = Map.empty
    \<and> loops W' 50 = Some w' \<and> pendings w' = [DestroyedFn 20] \<and> remove_connection ex_csys 7 50 20 W' = Inl AssertFail"
proof -
  let ?W = ex_busy_world and ?name = "conn_name_of (\<lambda>f a. ''ip'') ex_server 0"
  have W: "loops ?W (srv_loop (server ?W)) = Some (ex_srv_loop 1 7)" "IsInLoopThread 7 (ex_srv_loop 1 7)"
    "connections (server ?W) ?name = Some (50, 20)" "loops ?W 50 = Some ex_busy_loop" "pendings ex_busy_loop = []"
    "(connections (server ?W))(?name := None) = Map.empty"
    by (simp_all add: ex_busy_world_def ex_server_def ex_srv_loop_def ex_busy_loop_def IsInLoopThread_def)
  show ?thesis
    using remove_connection_result [OF ex_csys_ok(1) ex_busy_world_inv W(1,3), of 7] W by auto
qed

subsection \<open>Destruction\<close>

text \<open>The functors that the destructor queues in the loop \<open>l\<close>.\<close>

primrec destroy_fns :: "(string \<rightharpoonup> ptr \<times> ptr) \<Rightarrow> ptr \<Rightarrow> string list \<Rightarrow> 'u conn_fn list" where
  "destroy_fns cs l [] = []"
| "destroy_fns cs l (n # ns) =
     (case cs n of None \<Rightarrow> [] | Some (io, c) \<Rightarrow> if io = l then [DestroyedFn c] else []) @ destroy_fns cs l ns"

lemma destroy_fns_other: "n \<notin> set ns \<Longrightarrow> destroy_fns (cs(n := None)) l ns = destroy_fns cs l ns"
  by (induction ns) auto

lemma destroy_connections_started:
  "destroy_connections s user me names W = Inr W' \<Longrightarrow> srv_started (server W') = srv_started (server W)"
  by (induction s user me names W rule: destroy_connections.induct)
    (auto simp: with_loop_def andthen_eq_Inr put_connections_def put_loop_def split: option.splits prod.splits)

text \<open>Every entry belongs to a loop of another thread.\<close>

definition all_remote :: "thread_id \<Rightarrow> string list \<Rightarrow> ('k, 'u) srv_world \<Rightarrow> bool" where
  "all_remote me names W \<longleftrightarrow> (\<forall>n \<in> set names. \<exists>io c w. connections (server W) n = Some (io, c) \<and> loops W io = Some w \<and> \<not> IsInLoopThread me w)"

lemma destroy_connections_remote:
  assumes "distinct names" "all_remote me names W"
  shows "\<exists>W'. destroy_connections s user me names W = Inr W' \<and> connections (server W') = connections (server W) |` (- set names)
    \<and> (\<forall>l w. loops W l = Some w \<longrightarrow> (\<exists>w'. loops W' l = Some w' \<and> conns w' = conns w \<and> channel_heap w' = channel_heap w
         \<and> pendings w' = pendings w @ destroy_fns (connections (server W)) l names))"
  using assms
proof (induction names arbitrary: W)
  case Nil
  then show ?case
    by simp
next
  case (Cons n ns)
  obtain io c w where n: "connections (server W) n = Some (io, c)" "loops W io = Some w" "\<not> IsInLoopThread me w"
    using Cons.prems(2) by (auto simp: all_remote_def)
  define w1 where "w1 = QueueInLoop (loop_part s) me (DestroyedFn c) w"
  define W1 where "W1 = put_connections ((connections (server W))(n := None)) (put_loop io w1 W)"
  have w1: "conns w1 = conns w" "channel_heap w1 = channel_heap w" "pendings w1 = pendings w @ [DestroyedFn c]"
      "IsInLoopThread me w1 = IsInLoopThread me w"
    by (simp_all add: w1_def QueueInLoop_def Let_def set_wakeup_def IsInLoopThread_def)
  have W1: "loops W1 = (loops W)(io \<mapsto> w1)" "connections (server W1) = (connections (server W))(n := None)"
    by (simp_all add: W1_def put_connections_def put_loop_def)
  have fresh: "n \<notin> set ns" "distinct ns"
    using Cons.prems(1) by simp_all
  have run: "destroy_connections s user me (n # ns) W = destroy_connections s user me ns W1"
    using n by (simp add: with_loop_def RunInLoop_def w1_def W1_def)
  have "all_remote me ns W1"
    unfolding all_remote_def
  proof
    fix m assume m: "m \<in> set ns"
    then obtain io' c' w' where "connections (server W) m = Some (io', c')" "loops W io' = Some w'" "\<not> IsInLoopThread me w'"
      using Cons.prems(2) by (auto simp: all_remote_def)
    moreover have "m \<noteq> n"
      using m fresh(1) by auto
    ultimately show "\<exists>io c w. connections (server W1) m = Some (io, c) \<and> loops W1 io = Some w \<and> \<not> IsInLoopThread me w"
      using W1 w1(4) n(3) by (cases "io' = io") simp_all
  qed
  from Cons.IH [OF fresh(2) this] obtain W' where W': "destroy_connections s user me ns W1 = Inr W'"
      "connections (server W') = connections (server W1) |` (- set ns)"
    and loops': "\<And>l v. loops W1 l = Some v \<Longrightarrow> \<exists>v'. loops W' l = Some v' \<and> conns v' = conns v \<and> channel_heap v' = channel_heap v
         \<and> pendings v' = pendings v @ destroy_fns (connections (server W1)) l ns"
    by blast
  have "connections (server W') = connections (server W) |` (- set (n # ns))"
    using W'(2) W1(2) by (auto simp: restrict_map_def fun_eq_iff)
  moreover have "\<exists>v'. loops W' l = Some v' \<and> conns v' = conns v \<and> channel_heap v' = channel_heap v
      \<and> pendings v' = pendings v @ destroy_fns (connections (server W)) l (n # ns)" if "loops W l = Some v" for l v
    using loops' [of l "if l = io then w1 else v"] that n w1 W1 destroy_fns_other [OF fresh(1)] by (cases "l = io") auto
  ultimately show ?case
    using run W'(1) by auto
qed



end
