(* ===== verification/ServerRuns.thy ===== *)
theory ServerRuns
  imports TcpServer
begin

text \<open>
  Runs of a whole server: connections are accepted, the loops of the pool iterate and any thread
  calls the connections in them, closed connections are removed from the server and finally
  deleted, in any order. What the close callback does in the server is a step of its own, taken
  by whichever thread runs it.
\<close>

subsection \<open>Steps\<close>

text \<open>The connection that a queued functor keeps alive.\<close>

fun fn_conn :: "'u conn_fn \<Rightarrow> ptr option" where
  "fn_conn (SendFn c msg) = Some c"
| "fn_conn (ShutdownFn c) = Some c"
| "fn_conn (ForceCloseFn c) = Some c"
| "fn_conn (StartReadFn c) = Some c"
| "fn_conn (StopReadFn c) = Some c"
| "fn_conn (EstablishedFn c) = Some c"
| "fn_conn (DestroyedFn c) = Some c"
| "fn_conn (CallFn u (ConnArg c)) = Some c"
| "fn_conn (CallFn u (MessageArg c t)) = Some c"
| "fn_conn (CallFn u (SizeArg c n)) = Some c"

text \<open>
  A connection is deleted when the last \<open>shared_ptr\<close> to it goes: neither the server's map nor a
  functor of its loop refers to it any more.
\<close>

inductive srv_step :: "'k conn_sys \<Rightarrow> ('k, 'u) srv_user \<Rightarrow> errno \<Rightarrow> (conn_cb, ('k, 'u srv_cb) tcp_loop) run_fun \<Rightarrow> ntop_fun \<Rightarrow> name_fun \<Rightarrow>
    ('k, 'u) srv_world \<Rightarrow> ('k, 'u) srv_world \<Rightarrow> bool" for s user e other ntop getsockname where
  accepted: "fresh_objects c p connfd W \<Longrightarrow> next_conn_id W + 1 < size_modulus \<Longrightarrow>
    new_connection s user ntop getsockname me c p connfd peer W = Inr W' \<Longrightarrow> srv_step s user e other ntop getsockname W W'"
| in_loop: "loops W l = Some w \<Longrightarrow> op_ok op \<Longrightarrow> tcp_exec s user e other op w = Inr w' \<Longrightarrow>
    srv_step s user e other ntop getsockname W (put_loop l w' W)"
| removed: "remove_connection s me io c W = Inr W' \<Longrightarrow> srv_step s user e other ntop getsockname W W'"
| deleted: "loops W l = Some w \<Longrightarrow> (\<forall>n. connections (server W) n \<noteq> Some (l, c)) \<Longrightarrow> (\<forall>fn \<in> set (pendings w). fn_conn fn \<noteq> Some c) \<Longrightarrow>
    TcpConnection_dtor s (thread_id w) c w = Inr w' \<Longrightarrow> srv_step s user e other ntop getsockname W (put_loop l w' W)"

inductive srv_reach :: "'k conn_sys \<Rightarrow> ('k, 'u) srv_user \<Rightarrow> errno \<Rightarrow> (conn_cb, ('k, 'u srv_cb) tcp_loop) run_fun \<Rightarrow> ntop_fun \<Rightarrow> name_fun \<Rightarrow>
    ('k, 'u) srv_world \<Rightarrow> ('k, 'u) srv_world \<Rightarrow> bool" for s user e other ntop getsockname W0 where
  srv_refl: "srv_reach s user e other ntop getsockname W0 W0"
| srv_next: "srv_reach s user e other ntop getsockname W0 W \<Longrightarrow> srv_step s user e other ntop getsockname W W' \<Longrightarrow>
    srv_reach s user e other ntop getsockname W0 W'"

subsection \<open>Every step keeps the invariant\<close>

text \<open>
  A connection is deleted in its loop's thread once it is unregistered: its channel goes with it
  and its descriptor is closed.
\<close>

lemma TcpConnection_dtor_inv:
  assumes sys: "conn_sys_ok s interest" and inv: "tcp_inv interest w" "pend_ok w"
    and idle: "\<forall>fn \<in> set (pendings w). fn_conn fn \<noteq> Some c"
    and run: "TcpConnection_dtor s (thread_id w) c w = Inr w'"
  shows "tcp_inv interest w'" "pend_ok w'" "conns w' = (conns w)(c := None)"
proof -
  obtain x ch where x: "conns w c = Some x" "channel_heap w (conn_channel x) = Some ch" "channels w (ch_fd ch) \<noteq> Some (conn_channel x)"
    and w': "w' = w\<lparr>channel_heap := (channel_heap w)(conn_channel x := None),
      epoll := Socket_dtor (conn_close s) (sockfd x) (epoll w), conns := (conns w)(c := None)\<rparr>"
    using run by (auto simp: TcpConnection_dtor_def with_conn_def Channel_dtor_def with_channel_def HasChannel_def IsInLoopThread_def
        assert_flag_clear_def assert_then_def andthen_eq_Inr split: option.splits if_splits bool.splits)
  have fd: "ch_fd ch = sockfd x"
    using tcp_invD(2) [OF inv(1) x(1)] x(2) by (auto simp: conn_ok_def)
  have gone: "channels w (sockfd x) = None"
    using loop_invD(3) [OF tcp_invD(1) [OF inv(1)], of "conn_channel x"] x(2,3) fd by (simp add: fd_free_for_def)
  then have "interest (epoll w) (sockfd x) = None"
    using poller_invD(3) [OF loop_invD(1) [OF tcp_invD(1) [OF inv(1)]]] by blast
  then have k: "interest (Socket_dtor (conn_close s) (sockfd x) (epoll w)) = interest (epoll w)"
    using conn_sys_okD(11) [OF sys] by (simp add: fun_upd_idem)
  show "tcp_inv interest w'"
    unfolding w' by (rule tcp_inv_delete_conn [OF inv(1) x(1) gone k])
  show "conns w' = (conns w)(c := None)"
    by (simp add: w')
  have "fn_ok w' fn" if "fn \<in> set (pendings w)" for fn
    using inv(2) idle that unfolding pend_ok_def w' by (cases fn) fastforce+
  then show "pend_ok w'"
    by (simp add: pend_ok_def w')
qed

lemma srv_inv_delete:
  assumes inv: "srv_inv interest ntop W" and w: "loops W l = Some w" and free: "\<forall>n. connections (server W) n \<noteq> Some (l, c)"
    and w': "tcp_inv interest w'" "pend_ok w'" "conns w' = (conns w)(c := None)"
  shows "srv_inv interest ntop (put_loop l w' W)"
proof -
  have entry: "\<exists>v x cid. loops (put_loop l w' W) io = Some v \<and> conns v d = Some x \<and> conn_name x = n \<and> cid < next_conn_id W
      \<and> n = conn_name_of ntop (server W) cid" if e: "connections (server W) n = Some (io, d)" for n io d
  proof -
    obtain v x cid where v: "loops W io = Some v" "conns v d = Some x" "conn_name x = n" "cid < next_conn_id W"
        "n = conn_name_of ntop (server W) cid"
      using inv e unfolding srv_inv_def by meson
    have "d \<noteq> c" if "io = l"
      using e free that by blast
    then have "\<exists>v'. loops (put_loop l w' W) io = Some v' \<and> conns v' d = Some x"
      using v(1,2) w w'(3) by (cases "io = l") auto
    then show ?thesis
      using v(3-5) by blast
  qed
  show ?thesis
    unfolding srv_inv_def
  proof (intro conjI)
    show "\<exists>ls. GetAllLoops True (srv_pool (server (put_loop l w' W))) = Inr ls \<and> (\<forall>i \<in> set ls. loops (put_loop l w' W) i \<noteq> None)"
      using inv by (auto simp: srv_inv_def)
    show "\<forall>i v. loops (put_loop l w' W) i = Some v \<longrightarrow> tcp_inv interest v \<and> pend_ok v"
      using inv w'(1,2) by (auto simp: srv_inv_def)
  qed (use entry in simp)
qed

lemma srv_step_inv:
  assumes "conn_sys_ok s interest" "user_ok interest user" "other_ok interest other" "srv_inv interest ntop W"
    and "srv_step s user e other ntop getsockname W W'"
  shows "srv_inv interest ntop W'"
  using assms(5)
proof cases
  case accepted
  then show ?thesis
    using new_connection_inv [OF assms(1,2,4)] by blast
next
  case (in_loop l w op w')
  then have "tcp_inv interest w" "pend_ok w"
    using assms(4) by (auto simp: srv_inv_def)
  from tcp_exec_step [OF assms(1-3) this in_loop(3,4)] this show ?thesis
    using srv_inv_keep [OF assms(4) in_loop(2)] in_loop(1) by (simp add: tcp_step_def)
next
  case removed
  then show ?thesis
    using remove_connection_inv [OF assms(1,4)] by blast
next
  case (deleted l w c w')
  then have "tcp_inv interest w" "pend_ok w"
    using assms(4) by (auto simp: srv_inv_def)
  from srv_inv_delete [OF assms(4) deleted(2,3) TcpConnection_dtor_inv [OF assms(1) this deleted(4,5)]] show ?thesis
    using deleted(1) by simp
qed

lemma srv_reach_inv:
  assumes "conn_sys_ok s interest" "user_ok interest user" "other_ok interest other" "srv_inv interest ntop W0"
    and "srv_reach s user e other ntop getsockname W0 W"
  shows "srv_inv interest ntop W"
  using assms(5) by induction (use assms(4) srv_step_inv [OF assms(1-3)] in blast)+

text \<open>C14: however accepts, loop iterations, calls of any thread, removals and deletions follow each other,
  every name in the server's map leads to a connection that still exists in its loop and has that
  name, no connection has two entries, and the name of the next connection is free.\<close>

theorem server_runs_keep_map:
  assumes "conn_sys_ok s interest" "user_ok interest user" "other_ok interest other"
    and "srv_inv interest ntop W0" and "srv_reach s user e other ntop getsockname W0 W"
  shows "srv_inv interest ntop W
    \<and> (\<forall>n io c. connections (server W) n = Some (io, c) \<longrightarrow> (\<exists>w x. loops W io = Some w \<and> conns w c = Some x \<and> conn_name x = n))
    \<and> (\<forall>n m r. connections (server W) n = Some r \<longrightarrow> connections (server W) m = Some r \<longrightarrow> n = m)
    \<and> connections (server W) (conn_name_of ntop (server W) (next_conn_id W)) = None"
proof -
  have inv: "srv_inv interest ntop W"
    using assms by (rule srv_reach_inv)
  then have entry: "\<exists>w x. loops W io = Some w \<and> conns w c = Some x \<and> conn_name x = n" if "connections (server W) n = Some (io, c)" for n io c
    using that unfolding srv_inv_def by meson
  have "n = m" if "connections (server W) n = Some r" "connections (server W) m = Some r" for n m r
    using entry [of n "fst r" "snd r"] entry [of m "fst r" "snd r"] that by auto
  then show ?thesis
    using inv entry conn_name_unused [OF inv] by blast
qed

text \<open>The example server removes its closed connection and then accepts another one.\<close>

lemma ex_removed:
  "remove_connection ex_csys 7 50 20 ex_busy_world = Inr (put_loop 50 (QueueInLoop (loop_part ex_csys) 7 (DestroyedFn 20) ex_busy_loop)
     (put_connections Map.empty ex_busy_world))"
  by (simp add: remove_connection_def remove_in_loop_def with_loop_def with_conn_def Let_def assert_then_def ex_busy_world_def
      ex_server_def ex_srv_loop_def ex_busy_loop_def ex_srv_conn_def IsInLoopThread_def)

definition ex_freed_world :: "(epoll_table, nat) srv_world" where
  "ex_freed_world = put_loop 50 (QueueInLoop (loop_part ex_csys) 7 (DestroyedFn 20) ex_busy_loop) (put_connections Map.empty ex_busy_world)"

lemma ex_accepted:
  "\<exists>W'. new_connection ex_csys ex_srv_user (\<lambda>f a. ''ip'') (\<lambda>fd n. SysErr EBADF) 7 21 13 8 [] ex_freed_world = Inr W'
     \<and> connections (server W') = [conn_name_of (\<lambda>f a. ''ip'') ex_server 1 \<mapsto> (50, 21)]"
proof -
  have "server ex_freed_world = ex_server" "next_index ex_freed_world = 1" "next_conn_id ex_freed_world = 1"
    "loops ex_freed_world 1 = Some (ex_srv_loop 1 7)" "IsInLoopThread 7 (ex_srv_loop 1 7)"
    "loops ex_freed_world 50 = Some (QueueInLoop (loop_part ex_csys) 7 (DestroyedFn 20) ex_busy_loop)"
    by (simp_all add: ex_freed_world_def ex_busy_world_def ex_server_def ex_srv_loop_def IsInLoopThread_def put_loop_def put_connections_def)
  moreover have "srv_loop ex_server = 1" "connections ex_server = Map.empty" "GetNextLoop True 1 (srv_pool ex_server) = Inr (50, 2)"
    by (simp_all add: ex_server_def GetNextLoop_def EventLoopThreadPool_ctor_def size_add_def size_modulus_def)
  moreover have "thread_id (QueueInLoop (loop_part ex_csys) 7 (DestroyedFn 20) ex_busy_loop) = 9"
    by (simp add: QueueInLoop_def Let_def set_wakeup_def ex_busy_loop_def ex_srv_loop_def)
  moreover obtain b where "Buffer_ctor kInitialSize = Inr b"
    by (rule initial_buffer)
  ultimately show ?thesis
    by (simp add: new_connection_def with_loop_def AssertInLoopThread_def Let_def TcpConnection_ctor_def
        with_conn_def RunInLoop_def IsInLoopThread_def put_conn_def)
qed

theorem server_runs_keep_map_witness:
  "\<exists>W. srv_reach ex_csys ex_srv_user EAGAIN (\<lambda>cb now w. Inr w) (\<lambda>f a. ''ip'') (\<lambda>fd n. SysErr EBADF) ex_busy_world W
    \<and> connections (server W) = [conn_name_of (\<lambda>f a. ''ip'') ex_server 1 \<mapsto> (50, 21)] \<and> srv_inv (\<lambda>k. k) (\<lambda>f a. ''ip'') W"
proof -
  obtain W where W: "new_connection ex_csys ex_srv_user (\<lambda>f a. ''ip'') (\<lambda>fd n. SysErr EBADF) 7 21 13 8 [] ex_freed_world = Inr W"
    "connections (server W) = [conn_name_of (\<lambda>f a. ''ip'') ex_server 1 \<mapsto> (50, 21)]"
    using ex_accepted by blast
  have fresh: "fresh_objects 21 13 8 ex_freed_world" "next_conn_id ex_freed_world + 1 < size_modulus"
    by (auto simp: fresh_objects_def ex_freed_world_def ex_busy_world_def ex_busy_loop_def ex_srv_loop_def QueueInLoop_def Let_def
        set_wakeup_def Channel_ctor_def put_loop_def put_connections_def size_modulus_def split: if_splits)
  have other: "other_ok (\<lambda>k. k) (\<lambda>cb now (w :: (epoll_table, nat srv_cb) tcp_loop). Inr w)"
    by (simp add: other_ok_def tcp_step_refl)
  have "srv_reach ex_csys ex_srv_user EAGAIN (\<lambda>cb now w. Inr w) (\<lambda>f a. ''ip'') (\<lambda>fd n. SysErr EBADF) ex_busy_world ex_freed_world"
    unfolding ex_freed_world_def by (rule srv_next [OF srv_refl srv_step.removed [OF ex_removed]])
  then have run: "srv_reach ex_csys ex_srv_user EAGAIN (\<lambda>cb now w. Inr w) (\<lambda>f a. ''ip'') (\<lambda>fd n. SysErr EBADF) ex_busy_world W"
    by (rule srv_next) (rule srv_step.accepted [OF fresh W(1)])
  from server_runs_keep_map [OF ex_csys_ok(1) ex_srv_user_ok(1) other ex_busy_world_inv run]
  show ?thesis
    by (intro exI [of _ W] conjI run W(2)) simp
qed

end
