(* ===== verification/ServerStart.thy ===== *)
theory ServerStart
  imports ServerRuns
begin

text \<open>
  The start of a server program: the loop of the main thread is constructed, the server with its
  acceptor on it, then \<open>InitThreadsNumber\<close> and \<open>Start\<close>. The world that results satisfies the
  invariant of the theory \<open>ServerRuns\<close>.
\<close>

subsection \<open>Operations\<close>

text \<open>A loop that has no connections yet.\<close>

definition tcp_loop_of :: "(conn_cb, 'k, 'u conn_fn) evloop \<Rightarrow> ('k, 'u) tcp_loop" where
  "tcp_loop_of w = evloop.extend w (tcp_loop.fields Map.empty)"

text \<open>The world of a server \<open>v\<close> whose own loop is \<open>w\<close>; \<open>ls\<close> are the loops of the threads that \<open>Start\<close>
  started. The two static counters are zero.\<close>

definition started_world :: "'u server \<Rightarrow> (ptr \<rightharpoonup> ('k, 'u srv_cb) tcp_loop) \<Rightarrow> ('k, 'u srv_cb) tcp_loop \<Rightarrow> ('k, 'u) srv_world" where
  "started_world v ls w = \<lparr>server = v, loops = ls(srv_loop v \<mapsto> w), next_index = 0, next_conn_id = 0\<rparr>"

subsection \<open>What the kernel documents\<close>

text \<open>A new socket has a descriptor that was not open, and nothing but \<open>epoll_ctl\<close> and \<open>close\<close>
  changes the interest list.\<close>

definition acc_ok :: "'k acc_sys \<Rightarrow> ('k \<Rightarrow> fd set) \<Rightarrow> ('k \<Rightarrow> fd \<rightharpoonup> epoll_event) \<Rightarrow> bool" where
  "acc_ok acc opens interest \<longleftrightarrow> epoll_ok (sys_ctl acc) interest \<and> epoll_accepts (sys_ctl acc) interest
     \<and> (\<forall>f. opens_new (sys_socket acc f) opens)
     \<and> (\<forall>f k. interest (snd (sys_socket acc f k)) = interest k) \<and> (\<forall>k. interest (snd (sys_open_null acc k)) = interest k)
     \<and> (\<forall>fd level name v k. interest (snd (sys_setsockopt acc fd level name v k)) = interest k)
     \<and> (\<forall>fd bs k. interest (snd (sys_bind acc fd bs k)) = interest k) \<and> (\<forall>fd k. interest (snd (sys_listen acc fd k)) = interest k)"

text \<open>The calls succeed.\<close>

definition acc_succeeds :: "'k acc_sys \<Rightarrow> bool" where
  "acc_succeeds acc \<longleftrightarrow> (\<forall>f k e. fst (sys_socket acc f k) \<noteq> SysErr e) \<and> (\<forall>k e. fst (sys_open_null acc k) \<noteq> SysErr e)
     \<and> (\<forall>fd bs k. fst (sys_bind acc fd bs k) = None) \<and> (\<forall>fd k. fst (sys_listen acc fd k) = None)"

subsection \<open>The loop of the main thread\<close>

lemma tcp_loop_of_simps [simp]:
  "channel_heap (tcp_loop_of w) = channel_heap w" "channels (tcp_loop_of w) = channels w" "epoll (tcp_loop_of w) = epoll w"
  "this_loop (tcp_loop_of w) = this_loop w" "thread_id (tcp_loop_of w) = thread_id w" "pendings (tcp_loop_of w) = pendings w"
  "conns (tcp_loop_of w) = Map.empty" "events_size (tcp_loop_of w) = events_size w"
  by (cases w; simp add: tcp_loop_of_def evloop.defs tcp_loop.defs)+

lemma tcp_inv_no_conns: "conns w = Map.empty \<Longrightarrow> tcp_inv interest w \<longleftrightarrow> loop_inv interest w"
  by (simp add: tcp_inv_def)

lemma tcp_loop_of_inv: "loop_inv interest (tcp_loop_of w) = loop_inv interest w"
  by (simp add: loop_inv_def poller_inv_def index_ok_def)

lemma create_fd_Inr:
  "create_socketfd acc f k = Inr (fd, k') \<longleftrightarrow> sys_socket acc f k = (SysOk fd, k')"
  "create_idlefd acc k = Inr (fd, k') \<longleftrightarrow> sys_open_null acc k = (SysOk fd, k')"
  by (auto simp: create_socketfd_def create_idlefd_def split: prod.splits sysret.splits)

lemma Acceptor_ctor_result:
  assumes acc: "acc_ok acc opens interest" and inv: "loop_inv interest w" "channel_heap w p = None"
    and used: "\<forall>q d. channel_heap w q = Some d \<longrightarrow> ch_fd d \<in> opens (epoll w)"
    and run: "Acceptor_ctor acc cb p addr reuse w = Inr (a, w')"
  obtains ch where "loop_inv interest w'" "channel_heap w' = (channel_heap w)(p \<mapsto> ch)" "ch_fd ch = accept_fd a" "IsNoneEvent ch"
    "accept_channel a = p" "\<not> listening a" "w' = w\<lparr>epoll := epoll w', channel_heap := channel_heap w'\<rparr>"
proof -
  obtain sockfd k1 idle k2 where k1: "sys_socket acc (family addr) (epoll w) = (SysOk sockfd, k1)" and k2: "sys_open_null acc k1 = (SysOk idle, k2)"
    using run by (auto simp: Acceptor_ctor_def create_fd_Inr andthen_eq_Inr)
  let ?k = "SetReusePort (sys_setsockopt acc) sockfd reuse (SetReuseAddr (sys_setsockopt acc) sockfd True k2)"
  let ?k3 = "snd (sys_bind acc sockfd (take sizeof_sockaddr addr) ?k)" and ?ch = "BindReadCallback cb (Channel_ctor (this_loop w) sockfd)"
  have w': "w' = w\<lparr>epoll := ?k3, channel_heap := (channel_heap w)(p \<mapsto> ?ch)\<rparr>"
    and a: "accept_fd a = sockfd" "accept_channel a = p" "\<not> listening a"
    using run k1 k2 by (auto simp: Acceptor_ctor_def create_fd_Inr andthen_eq_Inr split: prod.splits)
  have keep: "interest (snd (sys_setsockopt acc fd level name v k)) = interest k" for fd level name v k
    using acc by (simp add: acc_ok_def)
  have "interest ?k3 = interest (epoll w)"
    using acc k1 k2 unfolding acc_ok_def by (simp add: socket_calls_keep [where f = interest, OF keep]) (metis snd_conv)
  then have "loop_inv interest (w\<lparr>epoll := ?k3\<rparr>)"
    by (rule loop_inv_epoll [OF inv(1)])
  moreover have "opens_new (sys_socket acc (family addr)) opens"
    using acc by (simp add: acc_ok_def)
  from opens_newD(1) [OF this k1] have "sockfd \<notin> opens (epoll w)" .
  ultimately have "loop_inv interest w'"
    unfolding w' using loop_inv_new_channel [of interest "w\<lparr>epoll := ?k3\<rparr>" p ?ch] inv(2) used
    by (auto simp: BindReadCallback_def Channel_ctor_def IsNoneEvent_def kNoneEvent_def index_values)
  then show thesis
    using that [of ?ch] a by (simp add: w' BindReadCallback_def Channel_ctor_def IsNoneEvent_def kNoneEvent_def)
qed

lemma Acceptor_Listen_result:
  assumes acc: "acc_ok acc opens interest" and inv: "loop_inv interest w" and a: "channel_heap w (accept_channel a) = Some ch" "IsNoneEvent ch"
    and run: "Acceptor_Listen acc me a w = Inr (a', w')"
  shows "loop_inv interest w' \<and> a' = a\<lparr>listening := True\<rparr> \<and> IsInLoopThread me w
    \<and> w' = w\<lparr>epoll := epoll w', channel_heap := channel_heap w', channels := channels w'\<rparr>
    \<and> interest (epoll w') (ch_fd ch) = Some (kReadEvent, accept_channel a)"
proof -
  let ?p = "accept_channel a" and ?k = "snd (sys_listen acc (accept_fd a) (epoll w))" and ?m = "masked enable_read ch"
  let ?w = "w\<lparr>epoll := ?k\<rparr>"
  have ok: "epoll_ok (sys_ctl (acc_loop_part acc)) interest" "epoll_accepts (sys_ctl (acc_loop_part acc)) interest"
    using acc by (simp_all add: acc_ok_def acc_loop_part_def)
  have me: "IsInLoopThread me w" and en: "EnableReadEvent (acc_loop_part acc) me ?p ?w = Inr w'" and a': "a' = a\<lparr>listening := True\<rparr>"
    using run by (auto simp: Acceptor_Listen_def AssertInLoopThread_def andthen_eq_Inr split: if_splits prod.splits)
  have w: "loop_inv interest ?w" "IsInLoopThread me ?w" "channel_heap ?w ?p = Some ch"
    using loop_inv_epoll [OF inv, of ?k] acc me a(1) by (simp_all add: acc_ok_def IsInLoopThread_def)
  obtain k1 where k1: "update_mask (acc_loop_part acc) me enable_read ?p ?w = Inr (channel_changed ?p ?m (Some ?p) k1 ?w)"
    "loop_inv interest (channel_changed ?p ?m (Some ?p) k1 ?w)"
    using update_mask_ok [OF ok w mask_only_ops(1)] by metis
  have w': "w' = channel_changed ?p ?m (Some ?p) k1 ?w"
    using en k1(1) by (simp add: mask_operations)
  have m: "events ?m = kReadEvent" "ch_fd ?m = ch_fd ch"
    using a(2) by (simp_all add: mask_onlyD [OF mask_only_ops(1)]) (simp add: enable_read_def IsNoneEvent_def kNoneEvent_def)
  have "interest (epoll w') (ch_fd ch) = Some (kReadEvent, ?p)"
    using channel_watched [OF k1(2) [folded w'], of ?p ?m] m by (simp add: w' event_bits)
  then show ?thesis
    using k1(2) me a' by (simp add: w' channel_changed_def)
qed

subsection \<open>The started server\<close>

text \<open>A server that is constructed on \<open>w\<close> and not started yet, with \<open>n\<close> threads requested.\<close>

definition ready :: "int \<Rightarrow> string \<Rightarrow> 'u server \<Rightarrow> ('k, 'u srv_cb) tcp_loop \<Rightarrow> bool" where
  "ready n name v w \<longleftrightarrow>
     srv_pool v = (EventLoopThreadPool_ctor (srv_loop v) (name @ ''.IoThreads''))\<lparr>num_threads := n\<rparr> \<and> connections v = Map.empty
     \<and> (\<exists>ch. channel_heap w (accept_channel (srv_acceptor v)) = Some ch \<and> IsNoneEvent ch \<and> ch_fd ch = accept_fd (srv_acceptor v))"

text \<open>Every thread of the pool has a loop that satisfies the invariant.\<close>

definition threads_ok :: "('k \<Rightarrow> fd \<rightharpoonup> epoll_event) \<Rightarrow> (string \<Rightarrow> nat \<Rightarrow> ptr) \<Rightarrow> int \<Rightarrow> string \<Rightarrow> (ptr \<rightharpoonup> ('k, 'u srv_cb) tcp_loop) \<Rightarrow> bool" where
  "threads_ok interest spawn n name ls \<longleftrightarrow> (\<forall>l v. ls l = Some v \<longrightarrow> tcp_inv interest v \<and> pend_ok v)
     \<and> (\<forall>i < nat n. ls (spawn (name @ ''.IoThreads'' @ ''/'' @ dec_string i) i) \<noteq> None)"

lemma srv_Start_inv:
  assumes acc: "acc_ok acc opens interest" and w: "loop_inv interest w" "pendings w = []" "conns w = Map.empty"
    and v: "ready n name v w" and ls: "threads_ok interest spawn n name ls" and run: "srv_Start acc spawn me v w = Inr (v', w')"
  shows "srv_inv interest ntop (started_world v' ls w') \<and> v' = v\<lparr>srv_started := True, srv_pool := srv_pool v', srv_acceptor := srv_acceptor v'\<rparr>
    \<and> srv_acceptor v' = (srv_acceptor v)\<lparr>listening := True\<rparr> \<and> IsInLoopThread me w'
    \<and> interest (epoll w') (accept_fd (srv_acceptor v')) = Some (kReadEvent, accept_channel (srv_acceptor v'))
    \<and> pool_loops (srv_pool v') = map (\<lambda>i. spawn (name @ ''.IoThreads'' @ ''/'' @ dec_string i) i) [0..<nat n]"
proof -
  obtain ch where ch: "channel_heap w (accept_channel (srv_acceptor v)) = Some ch" "IsNoneEvent ch" "ch_fd ch = accept_fd (srv_acceptor v)"
    using v by (auto simp: ready_def)
  obtain pool a where pool: "pool = start_threads spawn 0 ((srv_pool v)\<lparr>pool_started := True\<rparr>)" and a: "Acceptor_Listen acc me (srv_acceptor v) w = Inr (a, w')"
    and v': "v' = v\<lparr>srv_started := True, srv_pool := pool, srv_acceptor := a\<rparr>"
    using run by (auto simp: srv_Start_def pool_Start_def andthen_eq_Inr assert_then_def split: if_splits)
  note listen = Acceptor_Listen_result [OF acc w(1) ch(1,2) a]
  then obtain k h cs where "w' = w\<lparr>epoll := k, channel_heap := h, channels := cs\<rparr>" by blast
  then have w': "pendings w' = []" "conns w' = Map.empty" "IsInLoopThread me w'"
    using listen w by (simp_all add: IsInLoopThread_def)
  have loops: "pool_loops pool = map (\<lambda>i. spawn (name @ ''.IoThreads'' @ ''/'' @ dec_string i) i) [0..<nat n]"
    "base_loop pool = srv_loop v" "pool_started pool"
    using v by (simp_all add: pool ready_def start_threads_frame start_threads_lists EventLoopThreadPool_ctor_def)
  have "\<exists>ls'. GetAllLoops True pool = Inr ls' \<and> (\<forall>l \<in> set ls'. (ls(srv_loop v \<mapsto> w')) l \<noteq> None)"
    using ls loops by (auto simp: GetAllLoops_def assert_then_def threads_ok_def)
  moreover have "tcp_inv interest w'" "pend_ok w'"
    using listen w' by (simp_all add: tcp_inv_no_conns pend_ok_def)
  ultimately have "srv_inv interest ntop (started_world v' ls w')"
    using ls v by (auto simp: srv_inv_def started_world_def v' threads_ok_def ready_def split: if_splits)
  then show ?thesis
    using listen loops(1) w'(3) ch(3) by (simp add: v')
qed

lemma TcpServer_ctor_ready:
  assumes acc: "acc_ok acc opens interest" and w: "loop_inv interest w" "channel_heap w p = None"
    and used: "\<forall>q d. channel_heap w q = Some d \<longrightarrow> ch_fd d \<in> opens (epoll w)"
    and run: "TcpServer_ctor acc loop p addr reuse name dc dm w = Inr (v, w')"
  shows "loop_inv interest w'" "ready 0 name v w'" "w' = w\<lparr>epoll := epoll w', channel_heap := channel_heap w'\<rparr>"
    "srv_loop v = loop" "\<not> listening (srv_acceptor v)" "accept_channel (srv_acceptor v) = p"
proof -
  obtain a where a: "Acceptor_ctor acc AcceptCb p addr reuse w = Inr (a, w')"
    and v: "srv_pool v = EventLoopThreadPool_ctor loop (name @ ''.IoThreads'')" "connections v = Map.empty"
      "srv_acceptor v = BindNewConnCallback True a" "srv_loop v = loop"
    using run by (auto simp: TcpServer_ctor_def andthen_eq_Inr)
  obtain ch where ch: "loop_inv interest w'" "channel_heap w' = (channel_heap w)(p \<mapsto> ch)" "ch_fd ch = accept_fd a" "IsNoneEvent ch"
    "accept_channel a = p" "\<not> listening a" "w' = w\<lparr>epoll := epoll w', channel_heap := channel_heap w'\<rparr>"
    by (rule Acceptor_ctor_result [OF acc w used a])
  show "loop_inv interest w'" "w' = w\<lparr>epoll := epoll w', channel_heap := channel_heap w'\<rparr>" "srv_loop v = loop"
    by (fact ch(1) ch(7) v(4))+
  show "ready 0 name v w'" "\<not> listening (srv_acceptor v)" "accept_channel (srv_acceptor v) = p"
    using ch v by (simp_all add: ready_def BindNewConnCallback_def EventLoopThreadPool_ctor_def)
qed

text \<open>When the system calls succeed, so do construction and \<open>Start\<close>.\<close>

lemma TcpServer_ctor_total:
  assumes "acc_succeeds acc"
  obtains v w' where "TcpServer_ctor acc loop p addr reuse name dc dm w = Inr (v, w')"
proof -
  obtain sockfd k1 where k1: "sys_socket acc (family addr) (epoll w) = (SysOk sockfd, k1)"
    using assms unfolding acc_succeeds_def by (metis prod.collapse sysret.exhaust)
  obtain idle k2 where k2: "sys_open_null acc k1 = (SysOk idle, k2)"
    using assms unfolding acc_succeeds_def by (metis prod.collapse sysret.exhaust)
  obtain k3 where "sys_bind acc sockfd (take sizeof_sockaddr addr)
      (SetReusePort (sys_setsockopt acc) sockfd reuse (SetReuseAddr (sys_setsockopt acc) sockfd True k2)) = (None, k3)"
    using assms unfolding acc_succeeds_def by (metis prod.collapse)
  then show thesis
    using that k1 k2 by (simp add: TcpServer_ctor_def Acceptor_ctor_def create_socketfd_def create_idlefd_def Socket_Bind_def bind_or_die_def)
qed

lemma srv_Start_total:
  assumes acc: "acc_ok acc opens interest" "acc_succeeds acc" and w: "loop_inv interest w" "IsInLoopThread me w"
    and v: "ready n name v w" "\<not> listening (srv_acceptor v)"
  obtains v' w' where "srv_Start acc spawn me v w = Inr (v', w')"
proof -
  let ?a = "srv_acceptor v"
  obtain ch where ch: "channel_heap w (accept_channel ?a) = Some ch"
    using v by (auto simp: ready_def)
  obtain k where k: "sys_listen acc (accept_fd ?a) (epoll w) = (None, k)"
    using acc(2) unfolding acc_succeeds_def by (metis prod.collapse)
  have ok: "epoll_ok (sys_ctl (acc_loop_part acc)) interest" "epoll_accepts (sys_ctl (acc_loop_part acc)) interest"
    "interest (snd (sys_listen acc (accept_fd ?a) (epoll w))) = interest (epoll w)"
    using acc(1) by (simp_all add: acc_ok_def acc_loop_part_def)
  have "loop_inv interest (w\<lparr>epoll := k\<rparr>)" "IsInLoopThread me (w\<lparr>epoll := k\<rparr>)" "channel_heap (w\<lparr>epoll := k\<rparr>) (accept_channel ?a) = Some ch"
    using loop_inv_epoll [OF w(1), of k] ok(3) k w(2) ch by (simp_all add: IsInLoopThread_def)
  then obtain w' where "EnableReadEvent (acc_loop_part acc) me (accept_channel ?a) (w\<lparr>epoll := k\<rparr>) = Inr w'"
    using update_mask_ok [OF ok(1,2) _ _ _ mask_only_ops(1)] unfolding mask_operations by metis
  then have "Acceptor_Listen acc me ?a w = Inr (?a\<lparr>listening := True\<rparr>, w')"
    using k w(2) by (simp add: Acceptor_Listen_def AssertInLoopThread_def Socket_Listen_def listen_or_die_def)
  then show thesis
    using that v w(2) by (simp add: srv_Start_def pool_Start_def ready_def EventLoopThreadPool_ctor_def assert_then_def)
qed

end
