(* ===== verification/EchoServer.thy ===== *)
theory EchoServer
  imports LoopTimers TcpServer "HOL-Library.Sublist"
begin

text \<open>
  The echo server of \<open>example/echo_server.cpp\<close>, a client of the whole library: its callbacks run
  in the loop of a connection, whose state is extended by the two counters. The counters are
  atomic variables of the process; here a loop has its own. Logging and the printed statistics
  have no effect on the model.
\<close>

subsection \<open>The program\<close>

datatype echo_cb = OnConnection | OnMessage | PrintThroughput

record 'k echo_loop = "('k, echo_cb srv_cb) tcp_loop" +
  last_print_time :: time_point
  receive_bytes :: "64 word"
  receive_msgs :: "64 word"

type_synonym ('k, 'y) echo_state = "('k, 'y) echo_loop_scheme"

text \<open>The construction: the server is created, its callbacks are bound, and the statistics are
  scheduled every two seconds. The default callbacks of the server are replaced at once.\<close>

definition EchoServer_ctor :: "'k acc_sys \<Rightarrow> echo_cb alloc_fun \<Rightarrow> settime_fun \<Rightarrow> time_point \<Rightarrow> time_point \<Rightarrow> ptr \<Rightarrow> ptr \<Rightarrow> sockaddr \<Rightarrow>
    ('k, echo_cb srv_cb) tcp_loop \<Rightarrow> echo_cb timer_queue \<Rightarrow> (echo_cb server \<times> ('k, echo_cb srv_cb) tcp_loop \<times> echo_cb timer_queue) res" where
  "EchoServer_ctor acc alloc settime now clock loop p addr w q =
     andthen (TcpServer_ctor acc loop p addr False ''Echo'' None None w) (\<lambda>(v, w1).
     let v1 = srv_BindConnectionCallback (Some (UserCb OnConnection)) v;
         v2 = srv_BindMessageCallback (Some (UserCb OnMessage)) v1
     in andthen (RunEvery alloc settime now clock (2, 0) PrintThroughput q) (\<lambda>(t, q1). Inr (v2, w1, q1)))"

text \<open>\<open>Start\<close>; the second component is \<open>last_print_time_\<close>.\<close>

definition EchoServer_Start :: "'k acc_sys \<Rightarrow> (string \<Rightarrow> nat \<Rightarrow> ptr) \<Rightarrow> thread_id \<Rightarrow> int \<Rightarrow> time_point \<Rightarrow> echo_cb server \<Rightarrow>
    ('k, echo_cb srv_cb) tcp_loop \<Rightarrow> (echo_cb server \<times> time_point \<times> ('k, echo_cb srv_cb) tcp_loop) res" where
  "EchoServer_Start acc spawn me n_threads now v w =
     andthen (srv_InitThreadsNumber n_threads v) (\<lambda>v1.
     andthen (srv_Start acc spawn me v1 w) (\<lambda>(v2, w1). Inr (v2, now, w1)))"

definition on_connection_echo :: "ptr \<Rightarrow> ('k, 'y) echo_state \<Rightarrow> ('k, 'y) echo_state res" where
  "on_connection_echo c w = with_conn c w (\<lambda>x. Inr w)"

definition on_message_echo :: "'k conn_sys \<Rightarrow> (echo_cb srv_cb \<Rightarrow> call_arg \<Rightarrow> ('k, 'y) echo_state \<Rightarrow> ('k, 'y) echo_state res) \<Rightarrow>
    thread_id \<Rightarrow> ptr \<Rightarrow> ('k, 'y) echo_state \<Rightarrow> ('k, 'y) echo_state res" where
  "on_message_echo s user me c w =
     andthen (get_input c w) (\<lambda>buf.
       Send_buffer s user me c (get_input c) (put_input c)
         (w\<lparr>receive_msgs := receive_msgs w + 1, receive_bytes := receive_bytes w + of_nat (ReadableBytes buf)\<rparr>))"

text \<open>The statistics: the bytes, the messages and the seconds that the line is computed from, and the
  counters reset.\<close>

definition print_throughput :: "time_point \<Rightarrow> ('k, 'y) echo_state \<Rightarrow> (64 word \<times> 64 word \<times> int) \<times> ('k, 'y) echo_state" where
  "print_throughput now w =
     ((receive_bytes w, receive_msgs w, (let d = now - last_print_time w in sgn d * (\<bar>d\<bar> div 10 ^ 9))),
      w\<lparr>receive_bytes := 0, receive_msgs := 0, last_print_time := now\<rparr>)"

text \<open>
  The callbacks that a connection of this server has. \<open>remove\<close> is what \<open>remove_connection\<close> does in
  the loop of the connection: it queues \<open>ConnectionDestroyed\<close>, or nothing when the server is in
  another loop. \<open>Send\<close> calls back only when it closes the connection; the message callback is
  not among these calls.
\<close>

fun closing_user :: "(call_arg \<Rightarrow> ('k, 'y) echo_state \<Rightarrow> ('k, 'y) echo_state res) \<Rightarrow>
    echo_cb srv_cb \<Rightarrow> call_arg \<Rightarrow> ('k, 'y) echo_state \<Rightarrow> ('k, 'y) echo_state res" where
  "closing_user remove (UserCb OnConnection) (ConnArg c) w = on_connection_echo c w"
| "closing_user remove RemoveCb arg w = remove arg w"
| "closing_user remove u arg w = Inl BadFunctionCall"

fun echo_user :: "'k conn_sys \<Rightarrow> (call_arg \<Rightarrow> ('k, 'y) echo_state \<Rightarrow> ('k, 'y) echo_state res) \<Rightarrow> thread_id \<Rightarrow>
    echo_cb srv_cb \<Rightarrow> call_arg \<Rightarrow> ('k, 'y) echo_state \<Rightarrow> ('k, 'y) echo_state res" where
  "echo_user s remove me (UserCb OnMessage) (MessageArg c t) w = on_message_echo s (closing_user remove) me c w"
| "echo_user s remove me u arg w = closing_user remove u arg w"

text \<open>The events of the socket of one connection, as its loop handles them, and the bytes that
  the kernel delivers on the way.\<close>

datatype sock_event = Readable time_point | Writable

definition delivered :: "'k conn_sys \<Rightarrow> 'u connection \<Rightarrow> 'k \<Rightarrow> byte list" where
  "delivered s x k = (case fst (sys_readv s (sockfd x) k (ReadFd_iov (input_buffer x))) of SysOk bs \<Rightarrow> bs | SysErr e \<Rightarrow> [])"

primrec echo_run :: "'k conn_sys \<Rightarrow> (call_arg \<Rightarrow> ('k, 'y) echo_state \<Rightarrow> ('k, 'y) echo_state res) \<Rightarrow> errno \<Rightarrow> thread_id \<Rightarrow> ptr \<Rightarrow>
    sock_event list \<Rightarrow> ('k, 'y) echo_state \<Rightarrow> (('k, 'y) echo_state \<times> byte list) res" where
  "echo_run s remove e me c [] w = Inr (w, [])"
| "echo_run s remove e me c (ev # evs) w =
     with_conn c w (\<lambda>x.
     andthen (case ev of Readable t \<Rightarrow> handle_read s (echo_user s remove me) me c t w
                       | Writable \<Rightarrow> handle_write s (echo_user s remove me) e me c w) (\<lambda>w1.
     andthen (echo_run s remove e me c evs w1) (\<lambda>(w2, r).
       Inr (w2, (case ev of Readable t \<Rightarrow> delivered s x (epoll w) | Writable \<Rightarrow> []) @ r))))"

text \<open>What is assumed of \<open>remove\<close>: it keeps the invariant and changes neither the connections nor the
  counters.\<close>

definition remove_ok :: "('k \<Rightarrow> fd \<rightharpoonup> epoll_event) \<Rightarrow> (call_arg \<Rightarrow> ('k, 'y) echo_state \<Rightarrow> ('k, 'y) echo_state res) \<Rightarrow> bool" where
  "remove_ok interest remove \<longleftrightarrow>
     (\<forall>arg w w'. tcp_inv interest w \<longrightarrow> remove arg w = Inr w' \<longrightarrow>
        tcp_step interest w w' \<and> conns w' = conns w \<and> receive_bytes w' = receive_bytes w)"

subsection \<open>Which operations keep what\<close>

lemma update_epoll_keeps:
  "update_epoll_operation ctl op p ch w = Inr w' \<Longrightarrow> conns w' = conns w \<and> tcp_loop.more w' = tcp_loop.more w"
  for w :: "('k, 'u, 'z) tcp_state"
  by (auto simp: update_epoll_operation_def res_simps split: prod.splits option.splits if_splits)

lemma update_mask_keeps:
  "update_mask s me f p w = Inr w' \<Longrightarrow> conns w' = conns w \<and> tcp_loop.more w' = tcp_loop.more w"
  for w :: "('k, 'u, 'z) tcp_state"
  by (auto simp: update_mask_def update_events_def loop_UpdateChannel_def UpdateChannel_def res_simps with_channel_def put_channel_def
      dest!: update_epoll_keeps split: option.splits if_splits)

text \<open>A handler changed only the connection \<open>c\<close>, and neither its input nor the counters.\<close>

definition echo_keeps :: "ptr \<Rightarrow> echo_cb srv_cb connection \<Rightarrow> ('k, 'y) echo_state \<Rightarrow> ('k, 'y) echo_state \<Rightarrow> echo_cb srv_cb connection \<Rightarrow> bool" where
  "echo_keeps c x w w' y \<longleftrightarrow> conns w' = (conns w)(c \<mapsto> y) \<and> receive_bytes w' = receive_bytes w
     \<and> input_buffer y = input_buffer x \<and> on_message y = on_message x"

lemma counters_more: "tcp_loop.more w' = tcp_loop.more w \<Longrightarrow> receive_bytes w' = receive_bytes w" for w :: "('k, 'y) echo_state"
  by (cases w; cases w') simp

lemma queue_keeps [simp]:
  "tcp_loop.more (QueueInLoop s me fn w) = tcp_loop.more w" "conns (QueueInLoop s me fn w) = conns w"
  "tcp_loop.more (queue_if_bound t me cb arg w) = tcp_loop.more w"
  "tcp_loop.more (put_conn c x w) = tcp_loop.more w"
  by (simp_all add: QueueInLoop_def Let_def set_wakeup_def queue_if_bound_def put_conn_def split: option.split)

lemma send_rest_keeps:
  assumes "send_rest s me c msg n r w = Inr w'" "conns w c = Some x"
  shows "\<exists>buf. conns w' = (conns w)(c \<mapsto> x\<lparr>output_buffer := buf\<rparr>) \<and> tcp_loop.more w' = tcp_loop.more w"
proof -
  obtain data buf where "Append (output_buffer x) data = Inr buf"
    and run: "with_channel channel_heap (conn_channel x) (put_conn c (x\<lparr>output_buffer := buf\<rparr>) (note_high_water s me c x r w))
      (\<lambda>ch. if \<not> IsWriteEvent ch
        then EnableWriteEvent (loop_part s) me (conn_channel x) (put_conn c (x\<lparr>output_buffer := buf\<rparr>) (note_high_water s me c x r w))
        else Inr (put_conn c (x\<lparr>output_buffer := buf\<rparr>) (note_high_water s me c x r w))) = Inr w'"
    using assms by (auto simp: send_rest_def with_conn_def andthen_eq_Inr Let_def)
  have "conns w' = (conns (note_high_water s me c x r w))(c \<mapsto> x\<lparr>output_buffer := buf\<rparr>)
      \<and> tcp_loop.more w' = tcp_loop.more (note_high_water s me c x r w)"
    using run by (auto simp: with_channel_def mask_operations dest!: update_mask_keeps split: option.splits if_splits)
  moreover have "conns (note_high_water s me c x r w) = conns w" "tcp_loop.more (note_high_water s me c x r w) = tcp_loop.more w"
    by (simp_all add: note_high_water_def Let_def)
  ultimately show ?thesis
    by auto
qed

lemma closing_user_keeps:
  assumes "remove_ok interest remove" "tcp_inv interest w" "call_cb (closing_user remove) cb arg w = Inr w'"
  shows "tcp_step interest w w' \<and> conns w' = conns w \<and> receive_bytes w' = receive_bytes w"
proof -
  obtain u where "closing_user remove u arg w = Inr w'"
    using assms(3) by (auto simp: call_cb_def split: option.splits)
  then show ?thesis
    using assms(1,2) by (cases "(remove, u, arg, w)" rule: closing_user.cases) (auto simp: remove_ok_def tcp_step_refl on_connection_echo_def res_simps)
qed

lemma closing_user_ok: "remove_ok interest remove \<Longrightarrow> user_ok interest (closing_user remove)"
  using closing_user_keeps [where cb = "Some u" for u] by (fastforce simp: user_ok_def call_cb_def)

text \<open>Closing and the events of the socket call back with the connection only, where the two
  executions of callbacks agree.\<close>

lemma echo_user_conn: "echo_user s remove me u (ConnArg c) w = closing_user remove u (ConnArg c) w"
  by (cases "(s, remove, me, u, ConnArg c, w)" rule: echo_user.cases) simp_all

lemma handle_close_echo_user: "handle_close s (echo_user s remove me) t c w = handle_close s (closing_user remove) t c w"
  unfolding handle_close_def call_cb_def echo_user_conn ..

lemma handle_close_keeps:
  assumes sys: "conn_sys_ok s interest" and remove: "remove_ok interest remove" and inv: "tcp_inv interest w"
    and run: "handle_close s (closing_user remove) me c w = Inr w'" and x: "conns w c = Some x"
  shows "\<exists>y. echo_keeps c x w w' y \<and> accepted y = accepted x \<and> state y = (if open_state (state x) then Disconnected else state x)"
proof (cases "open_state (state x)")
  case False
  then have "w' = w"
    using run x by (auto simp: handle_close_def res_simps open_state_def)
  then show ?thesis
    using False x by (intro exI [of _ x]) (simp add: echo_keeps_def map_upd_triv)
next
  case True
  let ?y = "x\<lparr>state := Disconnected\<rparr>"
  obtain w1 cb w2 cb' where w1: "DisableAllEvent (loop_part s) me (conn_channel x) (put_conn c ?y w) = Inr w1"
    and w2: "call_cb (closing_user remove) cb (ConnArg c) w1 = Inr w2" and w3: "call_cb (closing_user remove) cb' (ConnArg c) w2 = Inr w'"
    and me: "IsInLoopThread me w"
    using run x True by (auto simp: handle_close_def res_simps open_state_def)
  have s1: "tcp_step interest w w1"
    using close_channel_step(1) [OF sys inv x me w1] .
  have "conns w1 = (conns w)(c \<mapsto> ?y)" "receive_bytes w1 = receive_bytes w"
    using w1 by (auto simp: mask_operations dest!: update_mask_keeps intro: counters_more)
  moreover note closing_user_keeps [OF remove tcp_stepD(1) [OF s1] w2]
  moreover from this have "conns w' = conns w2 \<and> receive_bytes w' = receive_bytes w2"
    using closing_user_keeps [OF remove _ w3] tcp_stepD(1) by blast
  ultimately show ?thesis
    using True by (intro exI [of _ ?y]) (simp add: echo_keeps_def)
qed

text \<open>The message is accepted: it was sent, or its rest is buffered.\<close>

lemma accepted_keeps:
  assumes v: "conns v = (conns w)(c \<mapsto> z)" "tcp_loop.more v = tcp_loop.more w"
    and z: "input_buffer z = input_buffer x" "on_message z = on_message x" "state z = Connected" "accepted z = accepted x @ msg"
    and r: "w' = v \<or> send_rest s me c msg n r v = Inr w'"
  shows "\<exists>y. echo_keeps c x w w' y \<and> state y = Connected \<and> accepted y = accepted x @ msg"
proof -
  have "\<exists>buf. conns w' = (conns w)(c \<mapsto> z\<lparr>output_buffer := buf\<rparr>) \<and> tcp_loop.more w' = tcp_loop.more w"
    using r
  proof
    assume "w' = v"
    then show ?thesis
      using v by (intro exI [of _ "output_buffer z"]) simp
  next
    assume "send_rest s me c msg n r v = Inr w'"
    from send_rest_keeps [OF this, of z] show ?thesis
      using v by simp
  qed
  then obtain buf where "conns w' = (conns w)(c \<mapsto> z\<lparr>output_buffer := buf\<rparr>)" "receive_bytes w' = receive_bytes w"
    using counters_more by blast
  then show ?thesis
    using z by (intro exI [of _ "z\<lparr>output_buffer := buf\<rparr>"]) (simp add: echo_keeps_def)
qed

lemma send_in_loop_keeps:
  assumes sys: "conn_sys_ok s interest" and remove: "remove_ok interest remove" and inv: "tcp_inv interest w"
    and x: "conns w c = Some x" "state x = Connected" and run: "send_in_loop s (closing_user remove) me c msg w = Inr w'"
  shows "\<exists>y. echo_keeps c x w w' y
    \<and> (state y = Connected \<and> accepted y = accepted x @ msg \<or> state y = Disconnected \<and> accepted y = accepted x)"
proof -
  have me: "IsInLoopThread me w"
    using run by (auto simp: send_in_loop_def res_simps)
  obtain ch where ch: "channel_heap w (conn_channel x) = Some ch" "conn_ok ch x"
    using tcp_invD(2) [OF inv x(1)] by blast
  obtain ret k where send: "sys_send s (ch_fd ch) msg (epoll w) = (ret, k)"
    by fastforce
  have inv_k: "tcp_inv interest (w\<lparr>epoll := k\<rparr>)"
    using conn_sys_okD(2) [OF sys, of "ch_fd ch" msg "epoll w"] send
    by (intro tcp_stepD(1) [OF tcp_frame_step [OF inv tcp_frame_epoll]]) simp
  consider (buffered) "IsWriteEvent ch \<or> ReadableBytes (output_buffer x) \<noteq> 0"
    | (closed) e where "\<not> IsWriteEvent ch" "ReadableBytes (output_buffer x) = 0" "ret = SysErr e" "e = EPIPE \<or> e = ECONNRESET"
    | (failed) e where "\<not> IsWriteEvent ch" "ReadableBytes (output_buffer x) = 0" "ret = SysErr e" "\<not> (e = EPIPE \<or> e = ECONNRESET)"
    | (taken) n where "\<not> IsWriteEvent ch" "ReadableBytes (output_buffer x) = 0" "ret = SysOk n"
    by (cases ret) blast+
  then show ?thesis
  proof cases
    case buffered
    then have "w' = put_conn c (x\<lparr>accepted := accepted x @ msg\<rparr>) w
        \<or> send_rest s me c msg 0 (length msg) (put_conn c (x\<lparr>accepted := accepted x @ msg\<rparr>) w) = Inr w'"
      using run x me ch(1) by (auto simp: send_eval Let_def split: if_splits)
    from accepted_keeps [OF _ _ _ _ _ _ this, of w "x\<lparr>accepted := accepted x @ msg\<rparr>" x] show ?thesis
      using x by auto
  next
    case closed
    then have "handle_close s (closing_user remove) me c (w\<lparr>epoll := k\<rparr>) = Inr w'"
      using run x me ch(1) send by (auto simp: send_eval)
    from handle_close_keeps [OF sys remove inv_k this] show ?thesis
      using x by (auto simp: echo_keeps_def open_state_def)
  next
    case failed
    then have "w' = put_conn c (x\<lparr>accepted := accepted x @ msg\<rparr>) (w\<lparr>epoll := k\<rparr>)
        \<or> send_rest s me c msg 0 (length msg) (put_conn c (x\<lparr>accepted := accepted x @ msg\<rparr>) (w\<lparr>epoll := k\<rparr>)) = Inr w'"
      using run x me ch(1) send by (auto simp: send_eval Let_def split: if_splits)
    from accepted_keeps [OF _ _ _ _ _ _ this, of w "x\<lparr>accepted := accepted x @ msg\<rparr>" x] show ?thesis
      using x by auto
  next
    case taken
    let ?z = "x\<lparr>sent := sent x @ take n msg, accepted := accepted x @ msg\<rparr>"
    let ?v = "put_conn c ?z (w\<lparr>epoll := k\<rparr>)"
    define v where "v = (if size_sub (length msg) n = 0 then queue_if_bound s me (on_write_complete x) (ConnArg c) ?v else ?v)"
    have r: "w' = v \<or> send_rest s me c msg n (size_sub (length msg) n) v = Inr w'"
      using taken run x me ch(1) send by (auto simp: send_eval Let_def v_def split: if_splits)
    have v: "conns v = (conns w)(c \<mapsto> ?z)" "tcp_loop.more v = tcp_loop.more w"
      by (simp_all add: v_def)
    have "\<exists>y. echo_keeps c x w w' y \<and> state y = Connected \<and> accepted y = accepted x @ msg"
      by (rule accepted_keeps [OF v _ _ _ _ r]) (use x(2) in simp_all)
    then show ?thesis
      by blast
  qed
qed

subsection \<open>The callbacks keep the invariant\<close>

lemma counters_step:
  assumes "tcp_inv interest w"
  shows "tcp_step interest w (w\<lparr>receive_msgs := m, receive_bytes := b\<rparr>)"
  by (rule tcp_frame_step [OF assms]) (auto simp: tcp_frame_def loop_inv_def poller_inv_def index_ok_def)

lemma on_message_step:
  assumes "conn_sys_ok s interest" "user_ok interest user" "tcp_inv interest w" "on_message_echo s user me c w = Inr w'"
  shows "tcp_step interest w w'"
proof -
  obtain buf where run: "Send_buffer s user me c (get_input c) (put_input c)
      (w\<lparr>receive_msgs := receive_msgs w + 1, receive_bytes := receive_bytes w + of_nat (ReadableBytes buf)\<rparr>) = Inr w'"
    using assms(4) by (auto simp: on_message_echo_def andthen_eq_Inr)
  note counted = counters_step [OF assms(3), where m = "receive_msgs w + 1" and b = "receive_bytes w + of_nat (ReadableBytes buf)"]
  show ?thesis
    using counted Send_buffer_step [OF assms(1,2) tcp_stepD(1) [OF counted] run] tcp_step_trans by blast
qed

lemma echo_user_ok:
  assumes "conn_sys_ok s interest" "remove_ok interest remove"
  shows "user_ok interest (echo_user s remove me)"
  unfolding user_ok_def
proof (intro allI impI)
  fix u arg and w w' :: "('a, 'b) echo_state"
  assume inv: "tcp_inv interest w" and run: "echo_user s remove me u arg w = Inr w'"
  have "closing_user remove u arg w = Inr w' \<or> (\<exists>c. on_message_echo s (closing_user remove) me c w = Inr w')"
    using run by (cases "(s, remove, me, u, arg, w)" rule: echo_user.cases) auto
  then show "tcp_step interest w w'"
    using inv closing_user_ok [OF assms(2)] on_message_step [OF assms(1) closing_user_ok [OF assms(2)] inv]
    by (auto simp: user_ok_def)
qed

subsection \<open>Echoing\<close>

text \<open>The message callback: the whole input is accepted for sending and consumed, unless the kernel
  reports that the connection is broken.\<close>

lemma on_message_result:
  assumes sys: "conn_sys_ok s interest" and remove: "remove_ok interest remove" and inv: "tcp_inv interest w"
    and x: "conns w c = Some x" and me: "IsInLoopThread me w"
    and run: "on_message_echo s (closing_user remove) me c w = Inr w'"
  shows "\<exists>y. conns w' c = Some y \<and> on_message y = on_message x
    \<and> (if state x = Connected
       then state y = Connected \<and> accepted y = accepted x @ content (input_buffer x) \<and> content (input_buffer y) = []
              \<and> receive_bytes w' = receive_bytes w + of_nat (length (content (input_buffer x)))
            \<or> state y = Disconnected \<and> accepted y = accepted x
       else y = x)"
proof -
  have b: "buf_inv (input_buffer x)"
    using tcp_invD(2) [OF inv x] conn_okD(2) by blast
  let ?v = "w\<lparr>receive_msgs := receive_msgs w + 1, receive_bytes := receive_bytes w + of_nat (length (content (input_buffer x)))\<rparr>"
  have v: "tcp_inv interest ?v" "conns ?v c = Some x" "IsInLoopThread me ?v"
    using tcp_stepD(1) [OF counters_step [OF inv]] x me by (simp_all add: IsInLoopThread_def)
  have run': "Send_buffer s (closing_user remove) me c (get_input c) (put_input c) ?v = Inr w'"
    using run x bq.readable_abs [OF b] by (simp add: on_message_echo_def get_input_def with_conn_def)
  show ?thesis
  proof (cases "state x = Connected")
    case False
    then show ?thesis
      using run' x by (auto simp: Send_buffer_def with_conn_def)
  next
    case True
    obtain w1 z where w1: "send_in_loop s (closing_user remove) me c (content (input_buffer x)) ?v = Inr w1"
      and z: "conns w1 c = Some z" "w' = put_input c (RetrieveAll (input_buffer z)) w1"
      using run' v True load_output [OF b]
      by (auto simp: Send_buffer_def get_input_def with_conn_def andthen_eq_Inr split: option.splits)
    from send_in_loop_keeps [OF sys remove v(1,2) True w1] z(1)
    have "echo_keeps c x ?v w1 z" and st: "state z = Connected \<and> accepted z = accepted x @ content (input_buffer x)
        \<or> state z = Disconnected \<and> accepted z = accepted x"
      by (auto simp: echo_keeps_def)
    moreover have "w' = put_conn c (z\<lparr>input_buffer := RetrieveAll (input_buffer x)\<rparr>) w1"
      using z calculation by (simp add: put_input_def echo_keeps_def)
    moreover have "receive_bytes w' = receive_bytes w1"
      using calculation(3) by (simp add: put_conn_def)
    ultimately show ?thesis
      using True RetrieveAll_inv(2) [OF b]
      by (intro exI [of _ "z\<lparr>input_buffer := RetrieveAll (input_buffer x)\<rparr>"]) (auto simp: echo_keeps_def)
  qed
qed

text \<open>One event: the connection \<open>x\<close> becomes \<open>y\<close> and the kernel delivers \<open>d\<close>.\<close>

definition echo_step :: "('k, 'y) echo_state \<Rightarrow> ('k, 'y) echo_state \<Rightarrow> echo_cb srv_cb connection \<Rightarrow> echo_cb srv_cb connection \<Rightarrow> byte list \<Rightarrow> bool" where
  "echo_step w w' x y d \<longleftrightarrow> on_message y = on_message x \<and> prefix (accepted y) (accepted x @ d)
     \<and> (state x \<noteq> Connected \<longrightarrow> accepted y = accepted x \<and> state y \<noteq> Connected)
     \<and> (state y = Connected \<longrightarrow> accepted y = accepted x @ d \<and> content (input_buffer y) = []
          \<and> receive_bytes w' = receive_bytes w + of_nat (length d))"

lemma handle_close_echo_step:
  assumes "conn_sys_ok s interest" "remove_ok interest remove" "tcp_inv interest v" "conns v c = Some z"
    "handle_close s (echo_user s remove me) me c v = Inr w'"
    and "on_message z = on_message x" "accepted z = accepted x" "state z = state x" "state x \<noteq> Connecting"
  shows "\<exists>y. conns w' c = Some y \<and> echo_step w w' x y d"
proof -
  obtain y where y: "echo_keeps c z v w' y" "accepted y = accepted z" "state y = (if open_state (state z) then Disconnected else state z)"
    using handle_close_keeps [OF assms(1-3) assms(5) [unfolded handle_close_echo_user] assms(4)] by blast
  have "state y \<noteq> Connected"
    using y(3) assms(8,9) by (auto simp: open_state_def)
  then show ?thesis
    using y(1,2) assms(6,7) by (intro exI [of _ y]) (simp add: echo_keeps_def echo_step_def)
qed

text \<open>The state in which the callbacks of \<open>handle_read\<close> run: the input is stored, the kernel has moved
  on.\<close>

lemma input_stored:
  assumes inv: "tcp_inv interest w" and x: "conns w c = Some x" and k: "interest k = interest (epoll w)" and b: "buf_inv b"
  shows "tcp_inv interest (put_conn c (x\<lparr>input_buffer := b\<rparr>) (w\<lparr>epoll := k\<rparr>))"
proof -
  obtain ch where ch: "channel_heap w (conn_channel x) = Some ch" "conn_ok ch x"
    using tcp_invD(2) [OF inv x] by blast
  have "conn_ok ch (x\<lparr>input_buffer := b\<rparr>)" "conn_forward x (x\<lparr>input_buffer := b\<rparr>)"
    using ch(2) b by (simp_all add: conn_ok_def conn_forward_def)
  then show ?thesis
    using conn_changed_step [OF inv x conn_changed_put_frame [OF tcp_invD(1) [OF inv] tcp_frame_epoll [where w = w, OF k] x] _ ch(1)] tcp_stepD(1)
    by blast
qed

lemma message_echo_step:
  assumes sys: "conn_sys_ok s interest" and remove: "remove_ok interest remove" and inv: "tcp_inv interest v"
    and v: "conns v c = Some (x\<lparr>input_buffer := b\<rparr>)" "IsInLoopThread me v" "receive_bytes v = receive_bytes w"
    and d: "state x = Connected \<Longrightarrow> content b = d" and run: "on_message_echo s (closing_user remove) me c v = Inr w'"
  shows "\<exists>y. conns w' c = Some y \<and> echo_step w w' x y d"
proof (cases "state x = Connected")
  case True
  then show ?thesis
    using on_message_result [OF sys remove inv v(1,2) run] d v(3) by (auto simp: echo_step_def)
next
  case False
  then show ?thesis
    using on_message_result [OF sys remove inv v(1,2) run] by (auto simp: echo_step_def)
qed

lemma handle_read_echo_step:
  assumes sys: "conn_sys_ok s interest" and remove: "remove_ok interest remove" and inv: "tcp_inv interest w"
    and x: "conns w c = Some x" "state x \<noteq> Connecting" "on_message x = Some (UserCb OnMessage)"
      "state x = Connected \<longrightarrow> content (input_buffer x) = []"
    and run: "handle_read s (echo_user s remove me) me c t w = Inr w'"
  shows "\<exists>y. conns w' c = Some y \<and> echo_step w w' x y (delivered s x (epoll w))"
proof -
  obtain ch where ch: "channel_heap w (conn_channel x) = Some ch" "conn_ok ch x"
    using tcp_invD(2) [OF inv x(1)] by blast
  have me: "IsInLoopThread me w"
    using run by (auto simp: handle_read_def res_simps)
  define k where "k = snd (sys_readv s (sockfd x) (epoll w) (ReadFd_iov (input_buffer x)))"
  let ?readv = "\<lambda>iov. fst (sys_readv s (sockfd x) (epoll w) iov)"
  let ?z = "\<lambda>b. x\<lparr>input_buffer := b\<rparr>"
  let ?v = "\<lambda>b. put_conn c (?z b) (w\<lparr>epoll := k\<rparr>)"
  have inv_v: "tcp_inv interest (?v b)" if "buf_inv b" for b
    by (rule input_stored [OF inv x(1) _ that]) (simp add: k_def conn_sys_okD(4) [OF sys])
  note eval = handle_read_def with_conn_def AssertInLoopThread_def with_channel_def Let_def
  from conn_okD(2) [OF ch(2)] conn_sys_okD(5) [OF sys, of "sockfd x" "epoll w"] show ?thesis
  proof (cases rule: ReadFd_cases)
    case (failed e)
    then consider "e = EAGAIN \<or> e = EINTR" "w' = ?v (input_buffer x)"
      | "handle_close s (echo_user s remove me) me c (?v (input_buffer x)) = Inr w'"
      using run x(1) me ch(1) conn_okD(1) [OF ch(2)] by (auto simp: eval k_def split: if_splits)
    then show ?thesis
    proof cases
      case 1
      then show ?thesis
        using x(4) failed(1) by (auto simp: echo_step_def delivered_def put_conn_def)
    next
      case 2
      then show ?thesis
        using handle_close_echo_step [OF sys remove inv_v [OF conn_okD(2) [OF ch(2)]] _ 2, of "?z (input_buffer x)" x] x(2) by simp
    qed
  next
    case (received data b)
    then have d: "delivered s x (epoll w) = data"
      by (simp add: delivered_def)
    show ?thesis
    proof (cases "data = []")
      case True
      then have "handle_close s (echo_user s remove me) me c (?v b) = Inr w'"
        using run x(1) me ch(1) conn_okD(1) [OF ch(2)] received by (simp add: eval k_def)
      from handle_close_echo_step [OF sys remove inv_v [OF received(3)] _ this, of "?z b" x] x(2) show ?thesis
        by simp
    next
      case False
      then have "on_message_echo s (closing_user remove) me c (?v b) = Inr w'"
        using run x(1,3) me ch(1) conn_okD(1) [OF ch(2)] received by (simp add: eval k_def call_cb_def)
      from message_echo_step [OF sys remove inv_v [OF received(3)] _ _ _ _ this, where x = x and b = b and w = w and d = data] show ?thesis
        using me received(4) x(4) d by (simp add: put_conn_def IsInLoopThread_def)
    qed
  next
    case (too_long data)
    then show ?thesis
      using run x(1) me ch(1) conn_okD(1) [OF ch(2)] by (simp add: eval)
  qed
qed

lemma shutdown_in_loop_keeps:
  assumes "shutdown_in_loop s me c w = Inr w'" "conns w c = Some z"
  shows "conns w' c = Some z \<or> conns w' c = Some (z\<lparr>shut_wr := True\<rparr>)" "tcp_loop.more w' = tcp_loop.more w"
  using assms by (auto simp: shutdown_in_loop_def with_conn_def AssertInLoopThread_def with_channel_def ShutdownWrite_def put_conn_def
      split: if_splits option.splits)

text \<open>After the kernel took some bytes: the connection differs in its output only.\<close>

lemma written_keeps:
  assumes run: "andthen (Retrieve (output_buffer x) n) (\<lambda>buf.
             let w2 = put_conn c (x\<lparr>output_buffer := buf, sent := sent x @ bs\<rparr>) w
             in if 0 < ReadableBytes buf then Inr w2
                else andthen (DisableWriteEvent (loop_part s) me (conn_channel x) w2) (\<lambda>w3.
                  let w4 = queue_if_bound s me (on_write_complete x) (ConnArg c) w3
                  in if state x = Disconnecting then shutdown_in_loop s me c w4 else Inr w4)) = Inr w'"
  shows "\<exists>y. conns w' c = Some y \<and> tcp_loop.more w' = tcp_loop.more w \<and> on_message y = on_message x
    \<and> accepted y = accepted x \<and> state y = state x \<and> input_buffer y = input_buffer x"
proof -
  obtain buf where buf: "Retrieve (output_buffer x) n = Inr buf"
    using run by (auto simp: andthen_eq_Inr)
  let ?y = "x\<lparr>output_buffer := buf, sent := sent x @ bs\<rparr>"
  show ?thesis
  proof (cases "0 < ReadableBytes buf")
    case True
    then have "w' = put_conn c ?y w"
      using run buf by (simp add: Let_def)
    then show ?thesis
      by simp
  next
    case False
    then obtain w3 where w3: "update_mask (loop_part s) me disable_write (conn_channel x) (put_conn c ?y w) = Inr w3"
      and rest: "(let w4 = queue_if_bound s me (on_write_complete x) (ConnArg c) w3
        in if state x = Disconnecting then shutdown_in_loop s me c w4 else Inr w4) = Inr w'"
      using run buf by (auto simp: Let_def andthen_eq_Inr mask_operations)
    let ?w4 = "queue_if_bound s me (on_write_complete x) (ConnArg c) w3"
    have w4: "conns ?w4 c = Some ?y" "tcp_loop.more ?w4 = tcp_loop.more w"
      using update_mask_keeps [OF w3] by simp_all
    show ?thesis
    proof (cases "state x = Disconnecting")
      case True
      then have "shutdown_in_loop s me c ?w4 = Inr w'"
        using rest by (simp add: Let_def)
      from shutdown_in_loop_keeps [OF this w4(1)] w4(2) show ?thesis
        by auto
    next
      case False
      then show ?thesis
        using rest w4 by (auto simp: Let_def)
    qed
  qed
qed

lemma handle_write_writable:
  assumes "conns w c = Some x" "IsInLoopThread me w" "channel_heap w (conn_channel x) = Some ch" "IsWriteEvent ch"
    "buf_inv (output_buffer x)" "sys_send s (ch_fd ch) (content (output_buffer x)) (epoll w) = (ret, k)"
  shows "handle_write s user e me c w =
      (case ret of
         SysErr e' \<Rightarrow> if e' = EAGAIN \<or> e' = EINTR then Inr (w\<lparr>epoll := k\<rparr>) else handle_close s user me c (w\<lparr>epoll := k\<rparr>)
       | SysOk n \<Rightarrow> if n = 0 then if e = EAGAIN \<or> e = EINTR then Inr (w\<lparr>epoll := k\<rparr>) else handle_close s user me c (w\<lparr>epoll := k\<rparr>)
           else andthen (Retrieve (output_buffer x) n) (\<lambda>buf.
             let w2 = put_conn c (x\<lparr>output_buffer := buf, sent := sent x @ take n (content (output_buffer x))\<rparr>) (w\<lparr>epoll := k\<rparr>)
             in if 0 < ReadableBytes buf then Inr w2
                else andthen (DisableWriteEvent (loop_part s) me (conn_channel x) w2) (\<lambda>w3.
                  let w4 = queue_if_bound s me (on_write_complete x) (ConnArg c) w3
                  in if state x = Disconnecting then shutdown_in_loop s me c w4 else Inr w4)))"
  using assms by (simp add: handle_write_def with_conn_def AssertInLoopThread_def with_channel_def Let_def load_output)

lemma handle_write_echo_step:
  assumes sys: "conn_sys_ok s interest" and remove: "remove_ok interest remove" and inv: "tcp_inv interest w"
    and x: "conns w c = Some x" "state x \<noteq> Connecting" "state x = Connected \<longrightarrow> content (input_buffer x) = []"
    and run: "handle_write s (echo_user s remove me) e me c w = Inr w'"
  shows "\<exists>y. conns w' c = Some y \<and> echo_step w w' x y []"
proof -
  obtain ch where ch: "channel_heap w (conn_channel x) = Some ch" "conn_ok ch x"
    using tcp_invD(2) [OF inv x(1)] by blast
  have me: "IsInLoopThread me w"
    using run by (auto simp: handle_write_def res_simps)
  let ?data = "content (output_buffer x)"
  obtain ret k where send: "sys_send s (ch_fd ch) ?data (epoll w) = (ret, k)"
    by fastforce
  have inv_k: "tcp_inv interest (w\<lparr>epoll := k\<rparr>)"
    using conn_sys_okD(2) [OF sys, of "ch_fd ch" ?data "epoll w"] send
    by (intro tcp_stepD(1) [OF tcp_frame_step [OF inv tcp_frame_epoll]]) simp
  have same: "\<exists>y. conns w' c = Some y \<and> echo_step w w' x y []"
    if "conns w' c = Some y" "tcp_loop.more w' = tcp_loop.more w" "on_message y = on_message x" "accepted y = accepted x"
      "state y = state x" "input_buffer y = input_buffer x" for y
    using that x(3) counters_more [OF that(2)] by (intro exI [of _ y]) (simp add: echo_step_def)
  note wr = handle_write_writable [OF x(1) me ch(1) _ conn_okD(3) [OF ch(2)] send, of "echo_user s remove me" e]
  have failed: "w' = w\<lparr>epoll := k\<rparr> \<or> handle_close s (echo_user s remove me) me c (w\<lparr>epoll := k\<rparr>) = Inr w'"
    if "(if r = EAGAIN \<or> r = EINTR then Inr (w\<lparr>epoll := k\<rparr>) else handle_close s (echo_user s remove me) me c (w\<lparr>epoll := k\<rparr>)) = Inr w'" for r
    using that by (cases "r = EAGAIN \<or> r = EINTR") (simp_all only: if_True if_False sum.inject simp_thms)
  have "w' = w \<or> w' = w\<lparr>epoll := k\<rparr> \<or> handle_close s (echo_user s remove me) me c (w\<lparr>epoll := k\<rparr>) = Inr w'
      \<or> IsWriteEvent ch \<and> (\<exists>n. ret = SysOk n \<and> n \<noteq> 0)"
  proof (cases "IsWriteEvent ch")
    case True
    then show ?thesis
      using run failed unfolding wr [OF True] by (cases ret) (simp_all only: sysret.case, metis+)
  next
    case False
    then show ?thesis
      using run x(1) me ch(1) by (simp add: handle_write_def with_conn_def AssertInLoopThread_def with_channel_def)
  qed
  then consider (idle) "w' = w" | (retry) "w' = w\<lparr>epoll := k\<rparr>" | (closed) "handle_close s (echo_user s remove me) me c (w\<lparr>epoll := k\<rparr>) = Inr w'"
    | (taken) n where "ret = SysOk n" "IsWriteEvent ch" "n \<noteq> 0"
    by blast
  then show ?thesis
  proof cases
    case idle
    then show ?thesis
      using same x(1) by blast
  next
    case retry
    then show ?thesis
      using same x(1) by simp
  next
    case closed
    from handle_close_echo_step [OF sys remove inv_k _ this, of x x] x(1,2) show ?thesis
      by simp
  next
    case taken
    from written_keeps [OF run [unfolded wr [OF taken(2)] taken(1) sysret.case if_not_P [OF taken(3)]]] show ?thesis
      using same by auto
  qed
qed

subsection \<open>A run\<close>

text \<open>\<open>base\<close> is what the connection received so far.\<close>

definition echoed :: "byte list \<Rightarrow> echo_cb srv_cb connection \<Rightarrow> bool" where
  "echoed base x \<longleftrightarrow> state x \<noteq> Connecting \<and> on_message x = Some (UserCb OnMessage) \<and> prefix (accepted x) base
     \<and> (state x = Connected \<longrightarrow> accepted x = base \<and> content (input_buffer x) = [])"

lemma echo_step_echoed:
  assumes "echoed base x" "echo_step w w' x y d" "rank (state x) \<le> rank (state y)"
  shows "echoed (base @ d) y"
proof -
  have "state y \<noteq> Connecting"
    using assms(1,3) by (cases "state x") (auto simp: echoed_def)
  then show ?thesis
    using assms(1,2) by (cases "state x = Connected") (auto simp: echoed_def echo_step_def)
qed

lemma echo_event_step:
  assumes sys: "conn_sys_ok s interest" and remove: "remove_ok interest remove" and inv: "tcp_inv interest w"
    and x: "conns w c = Some x" "echoed base x"
    and run: "(case ev of Readable t \<Rightarrow> handle_read s (echo_user s remove me) me c t w
                 | Writable \<Rightarrow> handle_write s (echo_user s remove me) e me c w) = Inr w1"
    and d: "d = (case ev of Readable t \<Rightarrow> delivered s x (epoll w) | Writable \<Rightarrow> [])"
  shows "tcp_inv interest w1" "\<exists>y. conns w1 c = Some y \<and> echo_step w w1 x y d \<and> echoed (base @ d) y"
proof -
  have step: "tcp_step interest w w1"
    using run handle_read_step [OF sys echo_user_ok [OF sys remove] inv] handle_write_step [OF sys echo_user_ok [OF sys remove] inv]
    by (cases ev) auto
  then show "tcp_inv interest w1"
    by (rule tcp_stepD(1))
  obtain y where y: "conns w1 c = Some y" "echo_step w w1 x y d"
    using run d x handle_read_echo_step [OF sys remove inv x(1)] handle_write_echo_step [OF sys remove inv x(1)]
    by (cases ev) (fastforce simp: echoed_def)+
  moreover have "rank (state x) \<le> rank (state y)"
    using tcp_stepD(3) [OF step x(1)] y(1) by (auto simp: conn_forward_def)
  ultimately show "\<exists>y. conns w1 c = Some y \<and> echo_step w w1 x y d \<and> echoed (base @ d) y"
    using echo_step_echoed [OF x(2)] by blast
qed

lemma echo_run_echoed:
  assumes sys: "conn_sys_ok s interest" and remove: "remove_ok interest remove"
  shows "tcp_inv interest w \<Longrightarrow> conns w c = Some x \<Longrightarrow> echoed base x \<Longrightarrow> echo_run s remove e me c evs w = Inr (w', r) \<Longrightarrow>
    tcp_inv interest w' \<and> (\<exists>y. conns w' c = Some y \<and> echoed (base @ r) y
      \<and> (state y = Connected \<longrightarrow> state x = Connected \<and> receive_bytes w' = receive_bytes w + of_nat (length r)))"
proof (induction evs arbitrary: w x base r)
  case Nil
  then show ?case
    by simp
next
  case (Cons ev evs)
  let ?d = "case ev of Readable t \<Rightarrow> delivered s x (epoll w) | Writable \<Rightarrow> []"
  obtain w1 r1 where run: "(case ev of Readable t \<Rightarrow> handle_read s (echo_user s remove me) me c t w
                 | Writable \<Rightarrow> handle_write s (echo_user s remove me) e me c w) = Inr w1"
    and rest: "echo_run s remove e me c evs w1 = Inr (w', r1)" and r: "r = ?d @ r1"
    using Cons.prems(2,4) by (auto simp: with_conn_def andthen_eq_Inr)
  obtain y where y: "conns w1 c = Some y" "echo_step w w1 x y ?d" "echoed (base @ ?d) y" and inv1: "tcp_inv interest w1"
    using echo_event_step [OF sys remove Cons.prems(1-3) run refl] by blast
  obtain z where z: "conns w' c = Some z" "echoed ((base @ ?d) @ r1) z" "tcp_inv interest w'"
      "state z = Connected \<longrightarrow> state y = Connected \<and> receive_bytes w' = receive_bytes w1 + of_nat (length r1)"
    using Cons.IH [OF inv1 y(1,3) rest] by blast
  have "state y = Connected \<longrightarrow> state x = Connected \<and> receive_bytes w1 = receive_bytes w + of_nat (length ?d)"
    using y(2) by (auto simp: echo_step_def)
  then show ?case
    using z r by auto
qed

text \<open>C6: the echo server sends back what it receives. Over any sequence of readable and writable
  events of a connection, with whatever sizes the kernel reads and writes, the bytes sent are a
  prefix of the bytes received. As long as the connection is up nothing is lost: what was
  received is exactly what was sent and what waits in the output buffer, the input buffer is
  empty, and the byte counter has counted every byte.\<close>

theorem echo_stream:
  assumes "conn_sys_ok s interest" "remove_ok interest remove" "tcp_inv interest w" "conns w c = Some x" "echoed base x"
    "echo_run s remove e me c evs w = Inr (w', r)"
  shows "\<exists>y. conns w' c = Some y \<and> prefix (sent y) (base @ r)
    \<and> (state y = Connected \<longrightarrow> sent y @ content (output_buffer y) = base @ r \<and> content (input_buffer y) = []
         \<and> receive_bytes w' = receive_bytes w + of_nat (length r))"
proof -
  obtain y where y: "conns w' c = Some y" "echoed (base @ r) y" "tcp_inv interest w'"
      "state y = Connected \<longrightarrow> receive_bytes w' = receive_bytes w + of_nat (length r)"
    using echo_run_echoed [OF assms(1,2) assms(3-6)] by blast
  obtain ch where ch: "conn_ok ch y"
    using tcp_invD(2) [OF y(3,1)] by blast
  have "prefix (sent y) (accepted y)"
    using ch by (auto simp: conn_ok_def)
  then show ?thesis
    using y conn_okD(5) [OF ch] by (auto simp: echoed_def open_state_def intro: prefix_order.trans)
qed

text \<open>The client sends the same three bytes each time; the kernel takes every message.\<close>

definition ex_echo_sys :: "epoll_table conn_sys" where
  "ex_echo_sys = ex_csys\<lparr>sys_readv := (\<lambda>fd k iov. (SysOk (take (sum_list iov) [1, 2, 3]), k)), sys_send := (\<lambda>fd msg k. (SysOk (length msg), k))\<rparr>"

definition ex_echo_conn :: "echo_cb srv_cb connection" where
  "ex_echo_conn = \<lparr>conn_name = ''c'', sockfd = 6, conn_channel = 12, local_addr = [], peer_addr = [],
     state = Connected, reading = True, high_water_mark = 100, on_high_water_mark = None, on_connection = Some (UserCb OnConnection),
     conn_on_close = Some RemoveCb, on_message = Some (UserCb OnMessage), on_write_complete = None,
     input_buffer = fresh_buffer, output_buffer = fresh_buffer, user_context = None, sent = [], accepted = [], shut_wr = False\<rparr>"

definition ex_echo_loop :: "epoll_table echo_loop" where
  "ex_echo_loop = \<lparr>channel_heap = [12 \<mapsto> ex_conn_channel 3],
     channels = [6 \<mapsto> 12], epoll_fd = 3, events_size = 32, epoll = [6 \<mapsto> (3, 12)],
     this_loop = 1, running = True, quitting = False, thread_id = 7, loop_event_handing = False,
     poll_return_time = 0, active_channels = [], current_active_channel = None, calling_pendings = False,
     pendings = [], wakeup_fd = 4, wakeup_channel = 10, timer_fd = 5, timer_channel = 11,
     conns = [20 \<mapsto> ex_echo_conn], last_print_time = 0, receive_bytes = 0, receive_msgs = 0\<rparr>"

lemma ex_echo_inv: "tcp_inv (\<lambda>k. k) ex_echo_loop" "echoed [] ex_echo_conn"
  using fresh_buffer_inv fresh_buffer_content
  by (auto simp: tcp_inv_def loop_inv_def poller_inv_def ex_echo_loop_def index_ok_def index_values ex_conn_channel_def ex_echo_conn_def
      kEventsSize_def conn_ok_def open_state_def IsWriteEvent_def has_event_def event_bits echoed_def split: if_splits)

lemma ex_echo_sys_ok: "conn_sys_ok ex_echo_sys (\<lambda>k. k)" "remove_ok (\<lambda>k. k) (\<lambda>arg. Inr)"
  using epoll_table_ok by (simp_all add: conn_sys_ok_def ex_echo_sys_def ex_csys_def loop_part_def readv_ok_def remove_ok_def tcp_step_refl)

lemma ex_echo_read:
  "ReadFd (\<lambda>iov. fst (sys_readv ex_echo_sys fd k iov)) fresh_buffer =
     Inr (SysOk 3, \<lparr>buffer_vec = [0, 0, 0, 0, 0, 0, 0, 0, 1, 2, 3, 0], reader_index = 8, writer_index = 11\<rparr>)"
proof -
  have "4 < kExtraBufSize" "mem_store (replicate kExtraBufSize (0 :: byte)) 0 [] = Inr (replicate kExtraBufSize 0)"
    by (simp_all add: kExtraBufSize_def mem_store_def)
  moreover have "mem_store (replicate 12 0) 8 [1, 2, 3 :: byte] = Inr [0, 0, 0, 0, 0, 0, 0, 0, 1, 2, 3, 0]"
    by (simp add: mem_store_def eval_nat_numeral)
  ultimately show ?thesis
    by (simp add: ReadFd_def ex_echo_sys_def fresh_buffer_def WritableBytes_def begin_write_def size_defs size_modulus_def numeral_3_eq_3)
qed

lemma ex_echo_fields [simp]:
  "sys_send ex_echo_sys fd msg k = (SysOk (length msg), k)" "sys_ctl ex_echo_sys = epoll_table_ctl"
  "evfd_write ex_echo_sys = (\<lambda>fd k. (8, k))" "snd (sys_readv ex_echo_sys fd k iov) = k"
  "sys_readv ex_echo_sys fd k (ReadFd_iov fresh_buffer) = (SysOk [1, 2, 3], k)"
  by (simp_all add: ex_echo_sys_def ex_csys_def ReadFd_iov_def fresh_buffer_def WritableBytes_def size_defs size_modulus_def kExtraBufSize_def)

lemmas echo_eval = handle_read_def on_message_echo_def Send_buffer_def get_input_def put_input_def call_cb_def delivered_def
  handle_write_def Let_def

lemma ex_echo_handle_read:
  "\<exists>w' y. handle_read ex_echo_sys (echo_user ex_echo_sys (\<lambda>arg. Inr) 7) 7 20 0 ex_echo_loop = Inr w' \<and> conns w' 20 = Some y \<and> state y = Connected"
proof -
  let ?b = "\<lparr>buffer_vec = [0, 0, 0, 0, 0, 0, 0, 0, 1, 2, 3, 0], reader_index = 8, writer_index = 11\<rparr>"
  have "handle_read ex_echo_sys (echo_user ex_echo_sys (\<lambda>arg. Inr) 7) 7 20 0 ex_echo_loop =
      on_message_echo ex_echo_sys (closing_user (\<lambda>arg. Inr)) 7 20 (put_conn 20 (ex_echo_conn\<lparr>input_buffer := ?b\<rparr>) ex_echo_loop)"
    by (simp add: handle_read_def with_conn_def AssertInLoopThread_def IsInLoopThread_def with_channel_def ex_echo_loop_def ex_echo_conn_def
        ex_conn_channel_def ex_echo_read Let_def call_cb_def)
  then show ?thesis
    by (simp add: echo_eval tcp_eval ex_echo_loop_def ex_echo_conn_def IsWriteEvent_def has_event_def event_bits fresh_buffer_def buffer_eval)
qed

theorem echo_stream_witness:
  "\<exists>w' y. echo_run ex_echo_sys (\<lambda>arg. Inr) EINTR 7 20 [Readable 0] ex_echo_loop = Inr (w', [1, 2, 3])
    \<and> conns w' 20 = Some y \<and> state y = Connected \<and> sent y @ content (output_buffer y) = [1, 2, 3] \<and> receive_bytes w' = 3"
proof -
  have x: "conns ex_echo_loop 20 = Some ex_echo_conn" and zero: "receive_bytes ex_echo_loop = 0"
    by (simp_all add: ex_echo_loop_def)
  obtain w' y where read: "handle_read ex_echo_sys (echo_user ex_echo_sys (\<lambda>arg. Inr) 7) 7 20 0 ex_echo_loop = Inr w'"
    and y: "conns w' 20 = Some y" "state y = Connected"
    using ex_echo_handle_read by blast
  have run: "echo_run ex_echo_sys (\<lambda>arg. Inr) EINTR 7 20 [Readable 0] ex_echo_loop = Inr (w', [1, 2, 3])"
    using x read by (simp add: with_conn_def delivered_def ex_echo_conn_def)
  from echo_stream [OF ex_echo_sys_ok ex_echo_inv(1) x ex_echo_inv(2) run] run y zero show ?thesis
    by auto
qed

end
