(* ===== verification/Logger.thy ===== *)
theory Logger
  imports Benet_Prelude
begin

text \<open>
  \<open>Logger\<close> and the logging macros (\<open>include/benet/logger.h\<close>, \<open>src/logger.cpp\<close>) and the
  initialisation of the process (\<open>src/benet.cpp\<close>). The logger object and its methods belong to
  spdlog: they are the parameters of the record \<open>spdlog\<close>. The object lives in a static variable of
  the function \<open>AsyncConsoleLogger\<close>, which is part of the state of the process.
\<close>

subsection \<open>Levels\<close>

definition SPDLOG_LEVEL_TRACE :: int where "SPDLOG_LEVEL_TRACE = 0"

definition SPDLOG_LEVEL_DEBUG :: int where "SPDLOG_LEVEL_DEBUG = 1"

definition SPDLOG_LEVEL_INFO :: int where "SPDLOG_LEVEL_INFO = 2"

definition SPDLOG_LEVEL_WARN :: int where "SPDLOG_LEVEL_WARN = 3"

definition SPDLOG_LEVEL_ERROR :: int where "SPDLOG_LEVEL_ERROR = 4"

definition SPDLOG_LEVEL_CRITICAL :: int where "SPDLOG_LEVEL_CRITICAL = 5"

text \<open>The macros that the build defines.\<close>

record build =
  active_level :: "int option"
  ndebug :: bool
  level_value :: "int option"

definition SPDLOG_ACTIVE_LEVEL :: "build \<Rightarrow> int" where
  "SPDLOG_ACTIVE_LEVEL b = (case active_level b of
     Some l \<Rightarrow> l
   | None \<Rightarrow> if \<not> ndebug b then SPDLOG_LEVEL_TRACE
             else (case level_value b of None \<Rightarrow> SPDLOG_LEVEL_ERROR | Some l \<Rightarrow> l))"

definition BENET_LOGGER_NAME :: string where "BENET_LOGGER_NAME = ''benet''"

definition BENET_LOGGER_PATTERN :: "build \<Rightarrow> string" where
  "BENET_LOGGER_PATTERN b =
     (if \<not> ndebug b then ''[%Y-%m-%d %T.%f] [%n] [%^%l%$] [%s:%# %!]: %v'' else ''[%Y-%m-%d %T.%f] [%n] [%^%l%$]: %v'')"

subsection \<open>The logger\<close>

text \<open>\<open>compiled a l\<close> tells whether a call of the macro of level \<open>l\<close> is compiled when
  \<open>SPDLOG_ACTIVE_LEVEL\<close> is \<open>a\<close>.\<close>

record 'l spdlog =
  compiled :: "int \<Rightarrow> int \<Rightarrow> bool"
  create_async :: "string \<Rightarrow> 'l"
  set_pattern :: "string \<Rightarrow> 'l \<Rightarrow> 'l"
  set_level :: "int \<Rightarrow> 'l \<Rightarrow> 'l"
  flush_on :: "int \<Rightarrow> 'l \<Rightarrow> 'l"
  log_call :: "int \<Rightarrow> string \<Rightarrow> 'l \<Rightarrow> 'l"

datatype sig_handler = SIG_DFL | SIG_IGN

definition SIGPIPE :: nat where "SIGPIPE = 13"

record 'l prog =
  logger :: "'l option"
  handlers :: "nat \<Rightarrow> sig_handler"

definition AsyncConsoleLogger :: "build \<Rightarrow> 'l spdlog \<Rightarrow> 'l prog \<Rightarrow> 'l \<times> 'l prog" where
  "AsyncConsoleLogger b sp st = (case logger st of
     Some l \<Rightarrow> (l, st)
   | None \<Rightarrow>
       let l = flush_on sp SPDLOG_LEVEL_ERROR (set_level sp SPDLOG_LEVEL_TRACE
                 (set_pattern sp (BENET_LOGGER_PATTERN b) (create_async sp BENET_LOGGER_NAME)))
       in (l, st\<lparr>logger := Some l\<rparr>))"

text \<open>A macro evaluates its logger argument only where the call is compiled.\<close>

definition belog :: "build \<Rightarrow> 'l spdlog \<Rightarrow> int \<Rightarrow> string \<Rightarrow> 'l prog \<Rightarrow> 'l prog" where
  "belog b sp lvl msg st =
     (if compiled sp (SPDLOG_ACTIVE_LEVEL b) lvl
      then case AsyncConsoleLogger b sp st of (l, st1) \<Rightarrow> st1\<lparr>logger := Some (log_call sp lvl msg l)\<rparr>
      else st)"

definition BELOG_TRACE :: "build \<Rightarrow> 'l spdlog \<Rightarrow> string \<Rightarrow> 'l prog \<Rightarrow> 'l prog" where
  "BELOG_TRACE b sp = belog b sp SPDLOG_LEVEL_TRACE"

definition BELOG_DEBUG :: "build \<Rightarrow> 'l spdlog \<Rightarrow> string \<Rightarrow> 'l prog \<Rightarrow> 'l prog" where
  "BELOG_DEBUG b sp = belog b sp SPDLOG_LEVEL_DEBUG"

definition BELOG_INFO :: "build \<Rightarrow> 'l spdlog \<Rightarrow> string \<Rightarrow> 'l prog \<Rightarrow> 'l prog" where
  "BELOG_INFO b sp = belog b sp SPDLOG_LEVEL_INFO"

definition BELOG_WARN :: "build \<Rightarrow> 'l spdlog \<Rightarrow> string \<Rightarrow> 'l prog \<Rightarrow> 'l prog" where
  "BELOG_WARN b sp = belog b sp SPDLOG_LEVEL_WARN"

definition BELOG_ERROR :: "build \<Rightarrow> 'l spdlog \<Rightarrow> string \<Rightarrow> 'l prog \<Rightarrow> 'l prog" where
  "BELOG_ERROR b sp = belog b sp SPDLOG_LEVEL_ERROR"

text \<open>\<open>BELOG_CRITICAL\<close> ends the process: the first component is the argument of \<open>exit\<close>. In the other
  theories this is the error \<open>Critical\<close>.\<close>

definition BELOG_CRITICAL :: "build \<Rightarrow> 'l spdlog \<Rightarrow> ('l \<Rightarrow> 'l) \<Rightarrow> string \<Rightarrow> 'l prog \<Rightarrow> int \<times> 'l prog" where
  "BELOG_CRITICAL b sp shutdown msg st =
     (let st1 = belog b sp SPDLOG_LEVEL_CRITICAL msg st in (2, st1\<lparr>logger := map_option shutdown (logger st1)\<rparr>))"

subsection \<open>Initialisation\<close>

definition InitLogLevel :: "build \<Rightarrow> 'l spdlog \<Rightarrow> int \<Rightarrow> 'l prog \<Rightarrow> 'l prog" where
  "InitLogLevel b sp level st =
     (case AsyncConsoleLogger b sp st of (l, st1) \<Rightarrow> st1\<lparr>logger := Some (set_level sp level l)\<rparr>)"

definition IgnoreSigpipe :: "'l prog \<Rightarrow> 'l prog" where
  "IgnoreSigpipe st = st\<lparr>handlers := (handlers st)(SIGPIPE := SIG_IGN)\<rparr>"

subsection \<open>Which messages are written\<close>

text \<open>
  What spdlog documents: a macro below the active level is empty; a logger writes a message when its
  level is at least that of the logger, and nothing but \<open>set_level\<close> changes the level. \<open>level\<close> and
  \<open>written\<close> observe the logger.
\<close>

definition spdlog_ok :: "'l spdlog \<Rightarrow> ('l \<Rightarrow> int) \<Rightarrow> ('l \<Rightarrow> (int \<times> string) list) \<Rightarrow> bool" where
  "spdlog_ok sp level written \<longleftrightarrow>
     (\<forall>a l. compiled sp a l \<longleftrightarrow> a \<le> l)
     \<and> (\<forall>n. written (create_async sp n) = [])
     \<and> (\<forall>p l. level (set_pattern sp p l) = level l \<and> written (set_pattern sp p l) = written l)
     \<and> (\<forall>n l. level (set_level sp n l) = n \<and> written (set_level sp n l) = written l)
     \<and> (\<forall>n l. level (flush_on sp n l) = level l \<and> written (flush_on sp n l) = written l)
     \<and> (\<forall>n m l. level (log_call sp n m l) = level l
          \<and> written (log_call sp n m l) = written l @ (if level l \<le> n then [(n, m)] else []))"

fun log_all :: "build \<Rightarrow> 'l spdlog \<Rightarrow> (int \<times> string) list \<Rightarrow> 'l prog \<Rightarrow> 'l prog" where
  "log_all b sp [] st = st"
| "log_all b sp ((lvl, msg) # ms) st = log_all b sp ms (belog b sp lvl msg st)"

definition log_output :: "('l \<Rightarrow> (int \<times> string) list) \<Rightarrow> 'l prog \<Rightarrow> (int \<times> string) list" where
  "log_output written st = (case logger st of None \<Rightarrow> [] | Some l \<Rightarrow> written l)"

text \<open>The level that counts: that of the logger, which is \<open>trace\<close> until it is set.\<close>

definition current_level :: "('l \<Rightarrow> int) \<Rightarrow> 'l prog \<Rightarrow> int" where
  "current_level level st = (case logger st of None \<Rightarrow> SPDLOG_LEVEL_TRACE | Some l \<Rightarrow> level l)"

lemma AsyncConsoleLogger_observed:
  assumes "spdlog_ok sp level written" "AsyncConsoleLogger b sp st = (l, st1)"
  shows "logger st1 = Some l" "level l = current_level level st" "written l = log_output written st" "handlers st1 = handlers st"
  using assms by (auto simp: AsyncConsoleLogger_def current_level_def log_output_def spdlog_ok_def Let_def split: option.splits)

lemma belog_observed:
  assumes "spdlog_ok sp level written"
  shows "current_level level (belog b sp n m st) = current_level level st"
    "log_output written (belog b sp n m st) =
       log_output written st @ (if max (SPDLOG_ACTIVE_LEVEL b) (current_level level st) \<le> n then [(n, m)] else [])"
    "handlers (belog b sp n m st) = handlers st"
proof -
  obtain l st1 where l: "AsyncConsoleLogger b sp st = (l, st1)" by fastforce
  note obs = AsyncConsoleLogger_observed [OF assms l]
  have call: "compiled sp (SPDLOG_ACTIVE_LEVEL b) n \<longleftrightarrow> SPDLOG_ACTIVE_LEVEL b \<le> n"
    "level (log_call sp n m l) = level l" "written (log_call sp n m l) = written l @ (if level l \<le> n then [(n, m)] else [])"
    using assms by (simp_all add: spdlog_ok_def)
  show "current_level level (belog b sp n m st) = current_level level st"
    using obs call by (simp add: belog_def l) (simp add: current_level_def)
  show "log_output written (belog b sp n m st) =
       log_output written st @ (if max (SPDLOG_ACTIVE_LEVEL b) (current_level level st) \<le> n then [(n, m)] else [])"
    using obs call by (simp add: belog_def l) (simp add: log_output_def)
  show "handlers (belog b sp n m st) = handlers st"
    using obs by (simp add: belog_def l)
qed

lemma log_all_observed:
  assumes "spdlog_ok sp level written"
  shows "log_output written (log_all b sp ms st) =
      log_output written st @ filter (\<lambda>(n, m). max (SPDLOG_ACTIVE_LEVEL b) (current_level level st) \<le> n) ms
    \<and> current_level level (log_all b sp ms st) = current_level level st \<and> handlers (log_all b sp ms st) = handlers st"
proof (induction ms arbitrary: st)
  case (Cons a ms)
  then show ?case
    by (cases a) (simp add: belog_observed [OF assms])
qed simp

lemma InitLogLevel_observed:
  assumes "spdlog_ok sp level written"
  shows "current_level level (InitLogLevel b sp n st) = n" "log_output written (InitLogLevel b sp n st) = log_output written st"
    "handlers (InitLogLevel b sp n st) = handlers st"
proof -
  obtain l st1 where l: "AsyncConsoleLogger b sp st = (l, st1)" by fastforce
  have set: "level (set_level sp n l) = n" "written (set_level sp n l) = written l"
    using assms by (simp_all add: spdlog_ok_def)
  note obs = AsyncConsoleLogger_observed [OF assms l]
  show "current_level level (InitLogLevel b sp n st) = n" "log_output written (InitLogLevel b sp n st) = log_output written st"
    "handlers (InitLogLevel b sp n st) = handlers st"
    using obs(3,4) set by (simp_all add: InitLogLevel_def l) (simp_all add: current_level_def log_output_def)
qed

text \<open>C40: the level that \<open>InitLogLevel\<close> sets stays in force, whether or not something was logged before:
  of the messages logged afterwards exactly those are written, in order, whose level reaches both
  the level of the build and the one that was set.\<close>

theorem log_level_in_force:
  assumes "spdlog_ok sp level written"
  shows "log_output written (log_all b sp after (InitLogLevel b sp n (log_all b sp before st))) =
    log_output written (log_all b sp before st) @ filter (\<lambda>(l, m). SPDLOG_ACTIVE_LEVEL b \<le> l \<and> n \<le> l) after"
  by (simp add: log_all_observed [OF assms] InitLogLevel_observed [OF assms])

subsection \<open>Example\<close>

definition ex_spdlog :: "(int \<times> (int \<times> string) list) spdlog" where
  "ex_spdlog = \<lparr>compiled = (\<lambda>a l. a \<le> l), create_async = (\<lambda>n. (2, [])), set_pattern = (\<lambda>p l. l),
     set_level = (\<lambda>n l. (n, snd l)), flush_on = (\<lambda>n l. l),
     log_call = (\<lambda>n m l. (fst l, snd l @ (if fst l \<le> n then [(n, m)] else [])))\<rparr>"

theorem log_level_in_force_witness:
  "log_output snd (log_all \<lparr>active_level = None, ndebug = True, level_value = None\<rparr> ex_spdlog [(3, ''w''), (4, ''e''), (5, ''c'')]
     (InitLogLevel \<lparr>active_level = None, ndebug = True, level_value = None\<rparr> ex_spdlog 0
       (log_all \<lparr>active_level = None, ndebug = True, level_value = None\<rparr> ex_spdlog [(4, ''x'')]
         \<lparr>logger = None, handlers = (\<lambda>n. SIG_DFL)\<rparr>))) = [(4, ''x''), (4, ''e''), (5, ''c'')]"
proof -
  let ?b = "\<lparr>active_level = None, ndebug = True, level_value = None\<rparr>" and ?st = "\<lparr>logger = None, handlers = (\<lambda>n. SIG_DFL)\<rparr>"
  have ok: "spdlog_ok ex_spdlog fst snd"
    by (simp add: spdlog_ok_def ex_spdlog_def)
  have before: "log_output snd (log_all ?b ex_spdlog [(4, ''x'')] ?st) = [(4, ''x'')]"
    by (simp add: belog_def AsyncConsoleLogger_def log_output_def ex_spdlog_def SPDLOG_ACTIVE_LEVEL_def SPDLOG_LEVEL_ERROR_def
        SPDLOG_LEVEL_TRACE_def Let_def)
  from log_level_in_force [OF ok, of ?b "[(3, ''w''), (4, ''e''), (5, ''c'')]" 0 "[(4, ''x'')]" ?st] show ?thesis
    unfolding before by (simp add: SPDLOG_ACTIVE_LEVEL_def SPDLOG_LEVEL_ERROR_def)
qed

end
