(* ===== verification/EchoMain.thy ===== *)
theory EchoMain
  imports ServerStart EchoServer Logger
begin

text \<open>
  \<open>main\<close> of \<open>example/echo_server.cpp\<close> up to \<open>loop.Start()\<close>: the composition of the initialisation of
  the process, the loop of the main thread, the address, the echo server and its \<open>Start\<close>. The
  program then runs as in the theory \<open>ServerRuns\<close>.
\<close>

subsection \<open>The program\<close>

text \<open>
  Parameters besides the system calls: the addresses of the loop, of its two channels and of the
  acceptor's channel, what \<open>EventLoopThread::Start\<close> returns (\<open>spawn\<close>) with the loops behind these
  pointers (\<open>ls\<close>), and the readings \<open>now\<close>, \<open>clock\<close> and \<open>start\<close> of the clock.
\<close>

definition echo_main :: "build \<Rightarrow> 'l spdlog \<Rightarrow> 'k life_sys \<Rightarrow> 'k acc_sys \<Rightarrow> pton_fun \<Rightarrow> echo_cb alloc_fun \<Rightarrow> settime_fun \<Rightarrow>
    time_point \<Rightarrow> time_point \<Rightarrow> time_point \<Rightarrow> (string \<Rightarrow> nat \<Rightarrow> ptr) \<Rightarrow> (ptr \<rightharpoonup> ('k, echo_cb srv_cb) tcp_loop) \<Rightarrow> thread_id \<Rightarrow>
    ptr \<Rightarrow> ptr \<Rightarrow> ptr \<Rightarrow> ptr \<Rightarrow> 'k \<Rightarrow> 'l prog \<Rightarrow> ('l prog \<times> ('k, echo_cb) srv_world \<times> echo_cb timer_queue \<times> time_point) res" where
  "echo_main b sp c acc pton alloc settime now clock start spawn ls me loop wp tp p k st =
     (let st1 = InitLogLevel b sp 3 st; st2 = IgnoreSigpipe st1 in
      andthen (EventLoop_ctor c (acc_loop_part acc) WakeupCb TimerCb k loop me None wp tp) (\<lambda>(w, current).
      andthen (InetAddress_any pton 8080) (\<lambda>addr.
      andthen (EchoServer_ctor acc alloc settime now clock loop p addr (tcp_loop_of w) TimerQueue_ctor) (\<lambda>(v, w1, q).
      andthen (EchoServer_Start acc spawn me 2 start v w1) (\<lambda>(v1, last_print, w2).
        Inr (st2, started_world v1 ls w2, q, last_print))))))"

subsection \<open>It starts\<close>

definition life_succeeds :: "'k life_sys \<Rightarrow> bool" where
  "life_succeeds c \<longleftrightarrow> (\<forall>k e. fst (sys_epoll_create1 c k) \<noteq> SysErr e \<and> fst (sys_eventfd c k) \<noteq> SysErr e \<and> fst (sys_timerfd_create c k) \<noteq> SysErr e)"

text \<open>The threads of the pool have just constructed their loops.\<close>

definition pool_threads :: "('k \<Rightarrow> fd \<rightharpoonup> epoll_event) \<Rightarrow> (string \<Rightarrow> nat \<Rightarrow> ptr) \<Rightarrow> int \<Rightarrow> string \<Rightarrow> (ptr \<rightharpoonup> ('k, 'u srv_cb) tcp_loop) \<Rightarrow> bool" where
  "pool_threads interest spawn n name ls \<longleftrightarrow>
     (\<forall>l v. ls l = Some v \<longrightarrow> (\<exists>t w. new_loop interest l t w \<and> v = tcp_loop_of w))
     \<and> (\<forall>i < nat n. ls (spawn (name @ ''.IoThreads'' @ ''/'' @ dec_string i) i) \<noteq> None)"

lemma new_loop_tcp:
  assumes "new_loop interest l t w"
  shows "tcp_inv interest (tcp_loop_of w)" "pend_ok (tcp_loop_of w)"
  using assms by (simp_all add: new_loop_def tcp_inv_no_conns tcp_loop_of_inv pend_ok_def)

lemma pool_threads_ok: "pool_threads interest spawn n name ls \<Longrightarrow> threads_ok interest spawn n name ls"
  unfolding pool_threads_def threads_ok_def using new_loop_tcp by metis

lemma EchoServer_ctor_ready:
  assumes acc: "acc_ok acc opens interest" "acc_succeeds acc" and w: "loop_inv interest w" "channel_heap w p = None"
    and used: "\<forall>q d. channel_heap w q = Some d \<longrightarrow> ch_fd d \<in> opens (epoll w)"
    and timers: "alloc_ok alloc" "settime_ok settime" "in_rep (now + 2 * 10 ^ 9)"
  obtains v w' q where "EchoServer_ctor acc alloc settime now clock loop p addr w TimerQueue_ctor = Inr (v, w', q)"
    "loop_inv interest w'" "ready 0 ''Echo'' v w'" "w' = w\<lparr>epoll := epoll w', channel_heap := channel_heap w'\<rparr>"
    "srv_loop v = loop" "\<not> listening (srv_acceptor v)" "accept_channel (srv_acceptor v) = p"
    "connection_cb v = Some (UserCb OnConnection)" "message_cb v = Some (UserCb OnMessage)" "fst ` set (timers q) = {now + 2 * 10 ^ 9}"
proof -
  obtain v w' where v: "TcpServer_ctor acc loop p addr False ''Echo'' None None w = Inr (v, w')"
    by (rule TcpServer_ctor_total [OF acc(2)])
  note ready = TcpServer_ctor_ready [OF acc(1) w used v]
  have "seconds_to_rep (2, 0) = Inr (2 * 10 ^ 9)" "time_add now (2 * 10 ^ 9) = Inr (now + 2 * 10 ^ 9)"
    using seconds_to_rep_whole [of 2] timers(3) by (simp_all add: time_add_def)
  moreover obtain t q where "AddTimer_in_loop alloc settime clock PrintThroughput (now + 2 * 10 ^ 9) (2, 0) TimerQueue_ctor = Inr (t, q)"
      and q: "set (timers q) = {(now + 2 * 10 ^ 9, t)}"
    using AddTimer_in_loop_schedules [OF tq_wf_ctor timers(1,2), of "now + 2 * 10 ^ 9" PrintThroughput "(2, 0)" clock]
    by (auto simp: scheduled_def TimerQueue_ctor_def)
  ultimately have "RunEvery alloc settime now clock (2, 0) PrintThroughput TimerQueue_ctor = Inr (t, q)"
    by (simp add: RunEvery_def)
  then show thesis
    using v ready q
    by (intro that [of "srv_BindMessageCallback (Some (UserCb OnMessage)) (srv_BindConnectionCallback (Some (UserCb OnConnection)) v)" w' q])
      (simp_all add: EchoServer_ctor_def ready_def srv_BindMessageCallback_def srv_BindConnectionCallback_def)
qed

lemma EchoServer_Start_ok:
  assumes acc: "acc_ok acc opens interest" "acc_succeeds acc" and w: "loop_inv interest w" "IsInLoopThread me w" "pendings w = []" "conns w = Map.empty"
    and v: "ready 0 ''Echo'' v w" "\<not> listening (srv_acceptor v)" and ls: "pool_threads interest spawn 2 ''Echo'' ls"
  obtains v' w' where "EchoServer_Start acc spawn me 2 start v w = Inr (v', start, w')"
    "srv_inv interest ntop (started_world v' ls w')" "listening (srv_acceptor v')" "IsInLoopThread me w'"
    "interest (epoll w') (accept_fd (srv_acceptor v')) = Some (kReadEvent, accept_channel (srv_acceptor v))"
    "pool_loops (srv_pool v') = map (\<lambda>i. spawn (''Echo.IoThreads/'' @ dec_string i) i) [0, 1]"
    "srv_loop v' = srv_loop v" "connections v' = Map.empty" "connection_cb v' = connection_cb v" "message_cb v' = message_cb v"
proof -
  let ?v = "v\<lparr>srv_pool := (srv_pool v)\<lparr>num_threads := 2\<rparr>\<rparr>"
  have init: "srv_InitThreadsNumber 2 v = Inr ?v"
    using v(1) by (simp add: srv_InitThreadsNumber_def InitThreadsNumber_def ready_def EventLoopThreadPool_ctor_def assert_then_def)
  have ready: "ready 2 ''Echo'' ?v w" "\<not> listening (srv_acceptor ?v)"
    using v by (simp_all add: ready_def)
  obtain v' w' where run: "srv_Start acc spawn me ?v w = Inr (v', w')"
    by (rule srv_Start_total [OF acc w(1,2) ready])
  note started = srv_Start_inv [OF acc(1) w(1,3,4) ready(1) pool_threads_ok [OF ls] run]
  then obtain pool a where v': "v' = ?v\<lparr>srv_started := True, srv_pool := pool, srv_acceptor := a\<rparr>" by blast
  have "[0..<nat 2] = [0, 1]"
    by (simp add: upt_conv_Cons numeral_2_eq_2)
  moreover have "a = (srv_acceptor v)\<lparr>listening := True\<rparr>" "connections v = Map.empty"
    using started v(1) by (simp_all add: v' ready_def)
  ultimately show thesis
    using that [of v' w'] init run started by (simp add: EchoServer_Start_def v')
qed

text \<open>The loop of the main thread, ready for the server.\<close>

lemma main_loop:
  fixes acc :: "'k acc_sys"
  assumes kernel: "life_ok c (acc_loop_part acc) opens interest" "life_succeeds c" "acc_ok acc opens interest" and objects: "distinct [wp, tp, p]"
  obtains w :: "(conn_cb, 'k, 'u conn_fn) evloop" where
    "EventLoop_ctor c (acc_loop_part acc) WakeupCb TimerCb k loop me None wp tp = Inr (w, Some loop)"
    "loop_inv interest (tcp_loop_of w)" "thread_id w = me" "pendings w = []" "channel_heap w p = None"
    "\<forall>q d. channel_heap w q = Some d \<longrightarrow> ch_fd d \<in> opens (epoll w)"
proof -
  have ok: "epoll_ok (sys_ctl (acc_loop_part acc)) interest" "epoll_accepts (sys_ctl (acc_loop_part acc)) interest" "wp \<noteq> tp"
    using kernel(3) objects by (simp_all add: acc_ok_def acc_loop_part_def)
  obtain w :: "(conn_cb, 'k, 'u conn_fn) evloop" where w: "EventLoop_ctor c (acc_loop_part acc) WakeupCb TimerCb k loop me None wp tp = Inr (w, Some loop)"
      "new_loop interest loop me w" "wakeup_channel w = wp" "timer_channel w = tp" "opens (epoll w) = opens k \<union> loop_fds w"
    by (rule EventLoop_ctor_cases [OF ok(1,2) kernel(1) ok(3), of WakeupCb TimerCb k loop me None])
      (use kernel(2) in \<open>auto simp: life_succeeds_def\<close>)
  have "p \<notin> dom (channel_heap w)"
    using w(2-4) objects unfolding new_loop_def by simp
  then show thesis
    using w by (intro that [of w]) (auto simp: new_loop_def loop_fds_def tcp_loop_of_inv)
qed

text \<open>C15: when the system calls succeed, \<open>main\<close> of the echo server reaches \<open>loop.Start()\<close>: the log level is
  3 and SIGPIPE is ignored, the main loop watches the listening socket, the two threads of the pool
  are there, the statistics are scheduled in two seconds, the callbacks are bound, no connection is
  in the map, and from this world on every run of the server keeps its invariant.\<close>

theorem echo_main_starts:
  fixes acc :: "'k acc_sys" and k :: 'k
  assumes log: "spdlog_ok sp level written"
    and kernel: "life_ok c (acc_loop_part acc) opens interest" "life_succeeds c" "acc_ok acc opens interest" "acc_succeeds acc"
    and addr: "pton AF_INET ''0.0.0.0'' \<noteq> None"
    and timers: "alloc_ok alloc" "settime_ok settime" "in_rep (now + 2 * 10 ^ 9)"
    and objects: "distinct [wp, tp, p]" and ls: "pool_threads interest spawn 2 ''Echo'' ls"
    and run: "conn_sys_ok s interest" "user_ok interest user" "other_ok interest other"
  shows "\<exists>st' W q v. echo_main b sp c acc pton alloc settime now clock start spawn ls me loop wp tp p k st = Inr (st', W, q, start)
    \<and> v = server W \<and> current_level level st' = 3 \<and> handlers st' SIGPIPE = SIG_IGN
    \<and> (\<exists>w. loops W loop = Some w \<and> IsInLoopThread me w \<and> interest (epoll w) (accept_fd (srv_acceptor v)) = Some (kReadEvent, p))
    \<and> srv_loop v = loop \<and> listening (srv_acceptor v) \<and> connections v = Map.empty
    \<and> pool_loops (srv_pool v) = map (\<lambda>i. spawn (''Echo.IoThreads/'' @ dec_string i) i) [0, 1]
    \<and> connection_cb v = Some (UserCb OnConnection) \<and> message_cb v = Some (UserCb OnMessage)
    \<and> fst ` set (timers q) = {now + 2 * 10 ^ 9}
    \<and> (\<forall>W'. srv_reach s user e other ntop getsockname W W' \<longrightarrow> srv_inv interest ntop W')"
proof -
  obtain w :: "(conn_cb, 'k, echo_cb srv_cb conn_fn) evloop" where
      w: "EventLoop_ctor c (acc_loop_part acc) WakeupCb TimerCb k loop me None wp tp = Inr (w, Some loop)"
    and inv: "loop_inv interest (tcp_loop_of w)" "thread_id w = me" "pendings w = []" and free: "channel_heap w p = None"
    and used: "\<forall>q d. channel_heap w q = Some d \<longrightarrow> ch_fd d \<in> opens (epoll w)"
    by (rule main_loop [OF kernel(1-3) objects])
  let ?w = "tcp_loop_of w"
  obtain addr where addr: "InetAddress_any pton 8080 = Inr addr"
    using addr by (auto simp: InetAddress_any_def InetAddress_ctor_def Let_def)
  obtain v w1 q where v: "EchoServer_ctor acc alloc settime now clock loop p addr ?w TimerQueue_ctor = Inr (v, w1, q)"
    "loop_inv interest w1" "ready 0 ''Echo'' v w1" "w1 = ?w\<lparr>epoll := epoll w1, channel_heap := channel_heap w1\<rparr>"
    and vs: "srv_loop v = loop" "\<not> listening (srv_acceptor v)" "accept_channel (srv_acceptor v) = p"
    "connection_cb v = Some (UserCb OnConnection)" "message_cb v = Some (UserCb OnMessage)" "fst ` set (timers q) = {now + 2 * 10 ^ 9}"
    by (rule EchoServer_ctor_ready [OF kernel(3,4) inv(1), of p]) (use free used timers in simp_all)
  then obtain k1 h where "w1 = ?w\<lparr>epoll := k1, channel_heap := h\<rparr>" by blast
  then have w1: "IsInLoopThread me w1" "pendings w1 = []" "conns w1 = Map.empty"
    using inv(2,3) by (simp_all add: IsInLoopThread_def)
  obtain v' w2 where run': "EchoServer_Start acc spawn me 2 start v w1 = Inr (v', start, w2)"
    and inv': "srv_inv interest ntop (started_world v' ls w2)" and v': "listening (srv_acceptor v')" "IsInLoopThread me w2"
    "interest (epoll w2) (accept_fd (srv_acceptor v')) = Some (kReadEvent, accept_channel (srv_acceptor v))"
    "pool_loops (srv_pool v') = map (\<lambda>i. spawn (''Echo.IoThreads/'' @ dec_string i) i) [0, 1]"
    "srv_loop v' = srv_loop v" "connections v' = Map.empty" "connection_cb v' = connection_cb v" "message_cb v' = message_cb v"
    by (rule EchoServer_Start_ok [OF kernel(3,4) v(2) w1 v(3) vs(2) ls])
  have main: "echo_main b sp c acc pton alloc settime now clock start spawn ls me loop wp tp p k st =
      Inr (IgnoreSigpipe (InitLogLevel b sp 3 st), started_world v' ls w2, q, start)"
    using w addr v(1) run' by (simp add: echo_main_def Let_def)
  have log': "current_level level (IgnoreSigpipe (InitLogLevel b sp 3 st)) = 3" "handlers (IgnoreSigpipe (InitLogLevel b sp 3 st)) SIGPIPE = SIG_IGN"
    using InitLogLevel_observed(1) [OF log, of b 3 st] by (simp_all add: IgnoreSigpipe_def current_level_def)
  show ?thesis
    using main log' v' vs srv_reach_inv [OF run inv'] by (intro exI conjI) (auto simp: started_world_def)
qed

subsection \<open>Example\<close>

definition ex_main_acc :: "fd_table acc_sys" where
  "ex_main_acc = \<lparr>sys_ctl = sys_ctl ex_loop_sys, evfd_write = (\<lambda>fd k. (8, k)), evfd_read = (\<lambda>fd k. (8, k)),
     sys_socket = (\<lambda>f. ex_open), sys_bind = (\<lambda>fd bs k. (None, k)), sys_listen = (\<lambda>fd k. (None, k)),
     sys_accept4 = (\<lambda>fd n k. (SysErr EAGAIN, k)), sys_accept = (\<lambda>fd k. (SysErr EAGAIN, k)),
     sys_close = life_close ex_life, sys_open_null = ex_open, sys_setsockopt = (\<lambda>fd level name v k. (None, k))\<rparr>"

definition ex_main_conn :: "fd_table conn_sys" where
  "ex_main_conn = \<lparr>sys_ctl = sys_ctl ex_loop_sys, evfd_write = (\<lambda>fd k. (8, k)), evfd_read = (\<lambda>fd k. (8, k)),
     sys_send = (\<lambda>fd msg k. (SysOk (length msg), k)), sys_readv = (\<lambda>fd k iov. (SysErr EAGAIN, k)),
     sys_shutdown = (\<lambda>fd how k. (None, k)), conn_setsockopt = (\<lambda>fd level name v k. (None, k)),
     conn_close = (\<lambda>fd k. (None, life_close ex_life fd k))\<rparr>"

lemma ex_main_kernel:
  "life_ok ex_life (acc_loop_part ex_main_acc) (\<lambda>k. set (fst k)) snd" "life_succeeds ex_life"
  "acc_ok ex_main_acc (\<lambda>k. set (fst k)) snd" "acc_succeeds ex_main_acc" "conn_sys_ok ex_main_conn snd"
proof -
  have "life_ok ex_life ex_loop_sys (\<lambda>k. set (fst k)) snd"
    by (rule ex_life_ok)
  then show "life_ok ex_life (acc_loop_part ex_main_acc) (\<lambda>k. set (fst k)) snd"
    by (simp add: life_ok_def acc_loop_part_def ex_main_acc_def)
  show "life_succeeds ex_life" "acc_succeeds ex_main_acc"
    by (simp_all add: life_succeeds_def acc_succeeds_def ex_life_def ex_main_acc_def)
  show "acc_ok ex_main_acc (\<lambda>k. set (fst k)) snd"
    using ex_life_ok(1,2) ex_opens_new(2) by (simp add: acc_ok_def ex_main_acc_def ex_open_def [abs_def] Let_def)
  show "conn_sys_ok ex_main_conn snd"
    using ex_life_ok(1) by (simp add: conn_sys_ok_def ex_main_conn_def readv_ok_def ex_life_def)
qed

lemma ex_thread_loop: "\<exists>w :: (conn_cb, fd_table, 'u conn_fn) evloop. new_loop snd l t w"
  by (rule EventLoop_ctor_cases [OF ex_life_ok(1-3), of 10 11 WakeupCb TimerCb "([], Map.empty)" l t None])
    (auto simp: ex_life_def)

theorem echo_main_starts_witness:
  "\<exists>ls st' W q. echo_main \<lparr>active_level = None, ndebug = False, level_value = None\<rparr> ex_spdlog ex_life ex_main_acc (\<lambda>f s. Some [0, 0, 0, 0])
      alloc_next (\<lambda>_. None) 100 100 200 (\<lambda>name i. 50 + i) ls 7 1 10 11 12 ([0, 1, 2], Map.empty)
      \<lparr>logger = None, handlers = (\<lambda>n. SIG_DFL)\<rparr> = Inr (st', W, q, 200)
    \<and> pool_loops (srv_pool (server W)) = [50, 51] \<and> listening (srv_acceptor (server W)) \<and> fst ` set (timers q) = {2000000100}
    \<and> current_level fst st' = 3 \<and> srv_inv snd (\<lambda>f a. ''ip'') W"
proof -
  obtain w1 w2 :: "(conn_cb, fd_table, echo_cb srv_cb conn_fn) evloop" where w: "new_loop snd 50 8 w1" "new_loop snd 51 9 w2"
    using ex_thread_loop by metis
  let ?ls = "[50 \<mapsto> tcp_loop_of w1, 51 \<mapsto> tcp_loop_of w2]"
  have two: "i < nat 2 \<Longrightarrow> i = 0 \<or> i = 1" for i by auto
  have ls: "pool_threads snd (\<lambda>name i. 50 + i) 2 ''Echo'' ?ls"
    using w two by (auto simp: pool_threads_def split: if_splits)
  have log: "spdlog_ok ex_spdlog fst snd"
    by (simp add: spdlog_ok_def ex_spdlog_def)
  have user: "user_ok snd (\<lambda>u arg w. Inr w)" "other_ok snd (\<lambda>cb t w. Inr w)"
    by (simp_all add: user_ok_def other_ok_def tcp_step_refl)
  have rest: "(\<lambda>f s. Some [0, 0, 0, 0]) AF_INET ''0.0.0.0'' \<noteq> None" "in_rep (100 + 2 * 10 ^ 9)" "distinct [10, 11, 12 :: ptr]"
    by (simp_all add: in_rep_def)
  from echo_main_starts [OF log ex_main_kernel(1-4) rest(1) alloc_next_ok settime_always_ok rest(2,3) ls ex_main_kernel(5) user,
      of "\<lparr>active_level = None, ndebug = False, level_value = None\<rparr>" 100 200 7 1 "([0, 1, 2], Map.empty)"
      "\<lparr>logger = None, handlers = (\<lambda>n. SIG_DFL)\<rparr>" EAGAIN "\<lambda>f a. ''ip''" "\<lambda>fd n. SysErr EBADF"]
  show ?thesis
    using srv_refl by (intro exI [of _ ?ls]) fastforce
qed

end
