(* ===== verification/EchoClient.thy ===== *)
theory EchoClient
  imports Benet_Prelude
begin

text \<open>
  The load generator of \<open>example/echo_client.cpp\<close>. Its I/O is done by the ASIO library: an
  asynchronous operation is started and later its handler is called once, with an error code or a
  length. The state says which operations are outstanding; a step is the completion of one of
  them, or somebody setting \<open>g_stop\<close>. Output to the console is left out.
\<close>

subsection \<open>The program\<close>

record client =
  g_msg_size :: nat
  g_stop :: bool
  connecting :: bool
  reading_some :: bool
  writing :: bool
  waiting :: bool
  send_bytes :: "64 word"
  send_msgs :: "64 word"
  recv_bytes :: "64 word"
  recv_msgs :: "64 word"

definition EchoClient_ctor :: "nat \<Rightarrow> client" where
  "EchoClient_ctor n = \<lparr>g_msg_size = n, g_stop = False, connecting = False, reading_some = False, writing = False, waiting = False,
     send_bytes = 0, send_msgs = 0, recv_bytes = 0, recv_msgs = 0\<rparr>"

definition DoRead :: "client \<Rightarrow> client" where
  "DoRead w = w\<lparr>reading_some := True\<rparr>"

definition DoSend :: "client \<Rightarrow> client" where
  "DoSend w = (if g_stop w then w else w\<lparr>writing := True\<rparr>)"

definition DoStats :: "client \<Rightarrow> client" where
  "DoStats w = w\<lparr>waiting := True\<rparr>"

definition client_Start :: "client \<Rightarrow> client" where
  "client_Start w = w\<lparr>connecting := True\<rparr>"

text \<open>The handlers; \<open>ec\<close> tells whether the operation failed.\<close>

definition connect_handler :: "bool \<Rightarrow> client \<Rightarrow> client" where
  "connect_handler ec w =
     (let w1 = w\<lparr>connecting := False\<rparr> in if ec then w1 else DoStats (DoSend (DoRead w1)))"

definition read_handler :: "bool \<Rightarrow> nat \<Rightarrow> client \<Rightarrow> client" where
  "read_handler ec len w =
     (let w1 = w\<lparr>reading_some := False\<rparr>
      in if ec then w1 else DoRead (w1\<lparr>recv_bytes := recv_bytes w + of_nat len, recv_msgs := recv_msgs w + 1\<rparr>))"

definition write_handler :: "bool \<Rightarrow> nat \<Rightarrow> client \<Rightarrow> client" where
  "write_handler ec len w =
     (let w1 = w\<lparr>writing := False\<rparr>
      in if ec then w1 else DoSend (w1\<lparr>send_bytes := send_bytes w + of_nat len, send_msgs := send_msgs w + 1\<rparr>))"

definition stats_handler :: "bool \<Rightarrow> client \<Rightarrow> client" where
  "stats_handler ec w =
     (let w1 = w\<lparr>waiting := False\<rparr>
      in if ec \<or> g_stop w then w1
         else DoStats (w1\<lparr>send_bytes := 0, send_msgs := 0, recv_bytes := 0, recv_msgs := 0\<rparr>))"

text \<open>What ASIO documents: a handler is called only for an outstanding operation, \<open>async_write\<close>
  succeeds only with the whole buffer, and \<open>async_read_some\<close> only with at least one byte.\<close>

inductive client_step :: "client \<Rightarrow> client \<Rightarrow> bool" where
  connected: "connecting w \<Longrightarrow> client_step w (connect_handler ec w)"
| read_some: "reading_some w \<Longrightarrow> ec \<or> 0 < len \<and> len \<le> 65536 \<Longrightarrow> client_step w (read_handler ec len w)"
| written: "writing w \<Longrightarrow> ec \<or> len = g_msg_size w \<Longrightarrow> client_step w (write_handler ec len w)"
| stats: "waiting w \<Longrightarrow> client_step w (stats_handler ec w)"
| stop: "client_step w (w\<lparr>g_stop := True\<rparr>)"

inductive client_reach :: "client \<Rightarrow> client \<Rightarrow> bool" for w0 where
  client_refl: "client_reach w0 w0"
| client_next: "client_reach w0 w \<Longrightarrow> client_step w w' \<Longrightarrow> client_reach w0 w'"

lemmas client_defs = DoRead_def DoSend_def DoStats_def connect_handler_def read_handler_def write_handler_def stats_handler_def Let_def

subsection \<open>Counting and stopping\<close>

lemma client_counts_step:
  assumes "client_step w w'" "send_bytes w = send_msgs w * of_nat (g_msg_size w)"
  shows "send_bytes w' = send_msgs w' * of_nat (g_msg_size w')"
  using assms by cases (auto simp: client_defs algebra_simps)

lemma client_stops_step:
  assumes "client_step w w'" "g_stop w"
  shows "g_stop w' \<and> (writing w' \<longrightarrow> writing w)
    \<and> (send_msgs w' = send_msgs w \<or> writing w \<and> \<not> writing w' \<and> send_msgs w' = send_msgs w + 1)"
  using assms by cases (simp_all add: client_defs)

lemma client_stops:
  assumes "client_reach w w'" "g_stop w"
  shows "g_stop w' \<and> (writing w' \<longrightarrow> writing w)
    \<and> (send_msgs w' = send_msgs w \<or> writing w \<and> \<not> writing w' \<and> send_msgs w' = send_msgs w + 1)"
  using assms
proof induction
  case (client_next v v')
  then show ?case
    using client_stops_step [of v v'] by auto
qed simp

lemma client_reach_trans: "client_reach v w \<Longrightarrow> client_reach u v \<Longrightarrow> client_reach u w"
  by (induction rule: client_reach.induct) (auto intro: client_next)

text \<open>Between two statistics the bytes sent are the messages sent times their size, and once
  \<open>g_stop\<close> is set at most the message that is being written is still completed and counted.\<close>

theorem client_counts_and_stops:
  assumes "client_reach (client_Start (EchoClient_ctor n)) w" "client_reach w w'"
  shows "send_bytes w' = send_msgs w' * of_nat (g_msg_size w')"
    and "g_stop w \<Longrightarrow> send_msgs w' = send_msgs w \<or> writing w \<and> \<not> writing w' \<and> send_msgs w' = send_msgs w + 1"
proof -
  show "send_bytes w' = send_msgs w' * of_nat (g_msg_size w')"
    using client_reach_trans [OF assms(2,1)]
  proof induction
    case client_refl
    show ?case
      by (simp add: client_Start_def EchoClient_ctor_def)
  next
    case (client_next v v')
    then show ?case
      using client_counts_step by blast
  qed
qed (use client_stops [OF assms(2)] in blast)

end
