(* ===== verification/Wakeup.thy ===== *)
theory Wakeup
  imports Benet_Prelude
begin

text \<open>
  The wake-up protocol of \<open>EventLoop\<close> (\<open>src/eventloop.cpp\<close>) at the grain of its shared accesses:
  \<open>Start\<close> of the loop thread interleaved with \<open>QueueInLoop\<close> and \<open>Stop\<close> of any number of other
  threads. The mutex makes the push and the swap single steps; a thread can be anywhere between
  its push and its write to the event descriptor. The counter of the event descriptor is a natural
  number: a write adds one, a read takes it to zero. Callbacks and functors of the loop thread may
  queue functors and call \<open>Stop\<close> whenever they run.
\<close>

subsection \<open>State\<close>

text \<open>Where the loop thread is: before \<open>Start\<close>, at the test of \<open>quitting_\<close>, in \<open>epoll_wait\<close>, handling
  events (with the wake-up channel among those to come, or not), before the swap, running the
  swapped functors, after \<open>Start\<close>, or stopped by an assertion.\<close>

datatype 'f loop_pc = BeforeStart | AtTest | InWait | Handling bool | BeforeSwap | RunningFns "'f list" | AfterStart | AssertionFailed

text \<open>Where another thread is: outside, or between its change and \<open>set_wakeup\<close>.\<close>

datatype remote_pc = RIdle | RPushed | RStopped

record 'f wake_state =
  wk_pc :: "'f loop_pc"
  wk_quitting :: bool
  wk_calling :: bool
  wk_pendings :: "'f list"
  wk_counter :: nat
  wk_remote :: "nat \<Rightarrow> remote_pc"
  wk_queued :: "'f list"
  wk_executed :: "'f list"

text \<open>The push of \<open>QueueInLoop\<close>; \<open>wk_queued\<close> and \<open>wk_executed\<close> record the history.\<close>

definition push :: "'f \<Rightarrow> 'f wake_state \<Rightarrow> 'f wake_state" where
  "push f w = w\<lparr>wk_pendings := wk_pendings w @ [f], wk_queued := wk_queued w @ [f]\<rparr>"

definition signal :: "'f wake_state \<Rightarrow> 'f wake_state" where
  "signal w = w\<lparr>wk_counter := wk_counter w + 1\<rparr>"

text \<open>\<open>QueueInLoop\<close> called in the loop thread.\<close>

definition queue_own :: "'f \<Rightarrow> 'f wake_state \<Rightarrow> 'f wake_state" where
  "queue_own f w = (if wk_calling w then signal (push f w) else push f w)"

subsection \<open>Steps\<close>

fun own_code :: "'f loop_pc \<Rightarrow> bool" where
  "own_code BeforeStart = True"
| "own_code (Handling b) = True"
| "own_code (RunningFns fs) = True"
| "own_code _ = False"

inductive wake_step :: "'f wake_state \<Rightarrow> 'f wake_state \<Rightarrow> bool" where
  own_queue: "own_code (wk_pc w) \<Longrightarrow> wake_step w (queue_own f w)"
| own_stop: "own_code (wk_pc w) \<Longrightarrow> wake_step w (w\<lparr>wk_quitting := True\<rparr>)"
| start: "wk_pc w = BeforeStart \<Longrightarrow> wake_step w (w\<lparr>wk_pc := (if wk_quitting w then AssertionFailed else AtTest)\<rparr>)"
| test: "wk_pc w = AtTest \<Longrightarrow> wake_step w (w\<lparr>wk_pc := (if wk_quitting w then AfterStart else InWait)\<rparr>)"
| wait_return: "wk_pc w = InWait \<Longrightarrow> (b \<longrightarrow> 0 < wk_counter w) \<Longrightarrow> wake_step w (w\<lparr>wk_pc := Handling b\<rparr>)"
| reset: "wk_pc w = Handling True \<Longrightarrow> wake_step w (w\<lparr>wk_pc := Handling False, wk_counter := 0\<rparr>)"
| handled: "wk_pc w = Handling False \<Longrightarrow> wake_step w (w\<lparr>wk_pc := BeforeSwap, wk_calling := True\<rparr>)"
| swap: "wk_pc w = BeforeSwap \<Longrightarrow> wake_step w (w\<lparr>wk_pc := RunningFns (wk_pendings w), wk_pendings := []\<rparr>)"
| run: "wk_pc w = RunningFns (f # fs) \<Longrightarrow> wake_step w (w\<lparr>wk_pc := RunningFns fs, wk_executed := wk_executed w @ [f]\<rparr>)"
| ran: "wk_pc w = RunningFns [] \<Longrightarrow> wake_step w (w\<lparr>wk_pc := AtTest, wk_calling := False\<rparr>)"
| remote_push: "wk_remote w t = RIdle \<Longrightarrow> wake_step w ((push f w)\<lparr>wk_remote := (wk_remote w)(t := RPushed)\<rparr>)"
| remote_stop: "wk_remote w t = RIdle \<Longrightarrow> wake_step w (w\<lparr>wk_quitting := True, wk_remote := (wk_remote w)(t := RStopped)\<rparr>)"
| remote_wake: "wk_remote w t \<noteq> RIdle \<Longrightarrow> wake_step w ((signal w)\<lparr>wk_remote := (wk_remote w)(t := RIdle)\<rparr>)"

inductive_cases wake_stepE: "wake_step w w'"

inductive wake_reach :: "'f wake_state \<Rightarrow> 'f wake_state \<Rightarrow> bool" for w0 where
  reach_refl: "wake_reach w0 w0"
| reach_step: "wake_reach w0 w \<Longrightarrow> wake_step w w' \<Longrightarrow> wake_reach w0 w'"

text \<open>A loop that was constructed and has not been used.\<close>

definition wake_init :: "'f wake_state" where
  "wake_init = \<lparr>wk_pc = BeforeStart, wk_quitting = False, wk_calling = False, wk_pendings = [], wk_counter = 0,
     wk_remote = (\<lambda>t. RIdle), wk_queued = [], wk_executed = []\<rparr>"

lemmas wake_defs = push_def signal_def queue_own_def

subsection \<open>Every functor once, in order\<close>

fun taken_fns :: "'f loop_pc \<Rightarrow> 'f list" where
  "taken_fns (RunningFns fs) = fs"
| "taken_fns _ = []"

lemma fifo_step:
  assumes "wake_step w w'" "wk_queued w = wk_executed w @ taken_fns (wk_pc w) @ wk_pendings w"
  shows "wk_queued w' = wk_executed w' @ taken_fns (wk_pc w') @ wk_pendings w'"
  using assms by (cases rule: wake_step.cases) (auto simp: wake_defs split: if_splits)

text \<open>C21: whatever the interleaving, the functors executed so far, then those the loop has taken,
  then those still pending, are exactly the functors queued so far, in the order of their pushes:
  none is lost, none runs twice, none overtakes another.\<close>

theorem functors_fifo:
  assumes "wake_reach wake_init w"
  shows "wk_queued w = wk_executed w @ taken_fns (wk_pc w) @ wk_pendings w"
  using assms
proof induction
  case reach_refl
  show ?case
    by (simp add: wake_init_def)
next
  case (reach_step w w')
  then show ?case
    using fifo_step by blast
qed

subsection \<open>No lost wake-up\<close>

text \<open>A wake-up is coming: the descriptor is readable or another thread is about to write it.\<close>

definition wake_coming :: "'f wake_state \<Rightarrow> bool" where
  "wake_coming w \<longleftrightarrow> 0 < wk_counter w \<or> (\<exists>t. wk_remote w t \<noteq> RIdle)"

text \<open>Between the swap and the next handling of events, a pending functor means that a wake-up is
  coming; in \<open>epoll_wait\<close> a request to stop does so as well.\<close>

fun awake_at :: "'f loop_pc \<Rightarrow> 'f wake_state \<Rightarrow> bool" where
  "awake_at (RunningFns fs) w = (wk_calling w \<and> (wk_pendings w \<noteq> [] \<longrightarrow> wake_coming w))"
| "awake_at AtTest w = (wk_pendings w \<noteq> [] \<longrightarrow> wake_coming w)"
| "awake_at InWait w = (wk_pendings w \<noteq> [] \<or> wk_quitting w \<longrightarrow> wake_coming w)"
| "awake_at BeforeStart w = (wk_pendings w \<noteq> [] \<longrightarrow> wake_coming w)"
| "awake_at BeforeSwap w = wk_calling w"
| "awake_at _ w = True"

definition wake_inv :: "'f wake_state \<Rightarrow> bool" where
  "wake_inv w \<longleftrightarrow> awake_at (wk_pc w) w"

lemma wake_coming_push [simp]: "wake_coming (push f w) = wake_coming w" "wake_coming (signal w)"
  by (simp_all add: wake_coming_def wake_defs)

lemma wake_coming_frame [simp]:
  "wake_coming (w\<lparr>wk_pc := p\<rparr>) = wake_coming w" "wake_coming (w\<lparr>wk_quitting := q\<rparr>) = wake_coming w"
  "wake_coming (w\<lparr>wk_calling := c\<rparr>) = wake_coming w" "wake_coming (w\<lparr>wk_pendings := ps\<rparr>) = wake_coming w"
  "wake_coming (w\<lparr>wk_executed := ex\<rparr>) = wake_coming w"
  by (simp_all add: wake_coming_def)

text \<open>The loop thread queues nothing before \<open>Start\<close>.\<close>

definition quiet_step :: "'f wake_state \<Rightarrow> 'f wake_state \<Rightarrow> bool" where
  "quiet_step w w' \<longleftrightarrow> wake_step w w' \<and> (wk_pc w = BeforeStart \<longrightarrow> (\<forall>f. w' \<noteq> queue_own f w))"

lemma wake_inv_step:
  assumes "quiet_step w w'" "wake_inv w"
  shows "wake_inv w'"
proof -
  have "wake_step w w'" and quiet: "wk_pc w = BeforeStart \<Longrightarrow> w' \<noteq> queue_own f w" for f
    using assms(1) by (auto simp: quiet_step_def)
  then show ?thesis
  proof (cases rule: wake_step.cases)
    case (own_queue f)
    then show ?thesis
      using assms(2) quiet [of f] by (cases "wk_pc w") (auto simp: wake_inv_def wake_coming_def wake_defs)
  next
    case own_stop
    then show ?thesis
      using assms(2) by (cases "wk_pc w") (auto simp: wake_inv_def)
  next
    case (remote_push t f)
    have "wake_coming w'"
      using remote_push by (auto simp: wake_coming_def wake_defs)
    then show ?thesis
      using assms(2) remote_push by (cases "wk_pc w") (auto simp: wake_inv_def wake_defs)
  next
    case (remote_stop t)
    have "wake_coming w'"
      using remote_stop by (auto simp: wake_coming_def)
    then show ?thesis
      using assms(2) remote_stop by (cases "wk_pc w") (auto simp: wake_inv_def)
  next
    case (remote_wake t)
    have "wake_coming w'"
      using remote_wake by (auto simp: wake_coming_def wake_defs)
    then show ?thesis
      using assms(2) remote_wake by (cases "wk_pc w") (auto simp: wake_inv_def wake_defs)
  qed (use assms(2) in \<open>auto simp: wake_inv_def wake_coming_def\<close>)
qed

text \<open>A run in which the loop thread queues nothing before \<open>Start\<close>.\<close>

inductive quiet_reach :: "'f wake_state \<Rightarrow> 'f wake_state \<Rightarrow> bool" for w0 where
  quiet_refl: "quiet_reach w0 w0"
| quiet_next: "quiet_reach w0 w \<Longrightarrow> quiet_step w w' \<Longrightarrow> quiet_reach w0 w'"

lemma quiet_reach_inv: "quiet_reach wake_init w \<Longrightarrow> wake_inv w"
  by (induction rule: quiet_reach.induct) (auto simp: wake_inv_def wake_init_def intro: wake_inv_step [unfolded wake_inv_def])

lemma quiet_reach_reach: "quiet_reach w0 w \<Longrightarrow> wake_reach w0 w"
  by (induction rule: quiet_reach.induct) (auto simp: quiet_step_def intro: wake_reach.intros)


text \<open>A run in which a thread queues a functor while the loop waits.\<close>

definition ex_waiting :: "nat wake_state" where
  "ex_waiting = wake_init\<lparr>wk_pc := InWait\<rparr>"

definition ex_pushed :: "nat wake_state" where
  "ex_pushed = (push 5 ex_waiting)\<lparr>wk_remote := (wk_remote ex_waiting)(3 := RPushed)\<rparr>"

lemma ex_waiting_reach: "quiet_reach wake_init ex_waiting"
proof -
  let ?t = "(wake_init :: nat wake_state)\<lparr>wk_pc := AtTest\<rparr>"
  have neq: "?t \<noteq> queue_own f wake_init" for f
    by (simp add: wake_init_def wake_defs)
  have "wake_step wake_init ?t" "wake_step ?t ex_waiting"
    using wake_step.start [of wake_init] wake_step.test [of ?t] by (simp_all add: wake_init_def ex_waiting_def)
  then have "quiet_step wake_init ?t" "quiet_step ?t ex_waiting"
    using neq by (simp_all add: quiet_step_def)
  then show ?thesis
    using quiet_reach.intros by metis
qed

lemma ex_pushed_reach: "quiet_reach wake_init ex_pushed"
proof -
  have "wake_step ex_waiting ex_pushed"
    unfolding ex_pushed_def by (rule wake_step.remote_push) (simp add: ex_waiting_def wake_init_def)
  then have "quiet_step ex_waiting ex_pushed"
    by (simp add: quiet_step_def ex_waiting_def)
  then show ?thesis
    by (rule quiet_next [OF ex_waiting_reach])
qed

lemma ex_pushed_fields:
  "wk_pc ex_pushed = InWait" "wk_pendings ex_pushed = [5]" "wk_counter ex_pushed = 0" "\<not> wk_quitting ex_pushed"
  "wk_queued ex_pushed = [5]" "wk_executed ex_pushed = []" "wk_remote ex_pushed 3 = RPushed"
  by (simp_all add: ex_pushed_def ex_waiting_def wake_init_def wake_defs)

theorem functors_fifo_witness: "wk_queued ex_pushed = wk_executed ex_pushed @ taken_fns InWait @ [5]"
  using functors_fifo [OF quiet_reach_reach [OF ex_pushed_reach]] by (simp add: ex_pushed_fields)


text \<open>The restriction is needed: a functor that the loop thread queues before \<open>Start\<close> gives no
  wake-up, and the loop can go to sleep in \<open>epoll_wait\<close> with the functor pending, the descriptor
  not readable and no other thread involved.\<close>

theorem queue_before_start_sleeps:
  "\<exists>w. wake_reach wake_init w \<and> wk_pc w = InWait \<and> wk_pendings w = [f] \<and> wk_counter w = 0 \<and> (\<forall>t. wk_remote w t = RIdle)"
proof -
  let ?q = "queue_own f wake_init"
  have "wake_reach wake_init ?q"
    by (rule reach_step [OF reach_refl], rule own_queue) (simp add: wake_init_def)
  then have "wake_reach wake_init (?q\<lparr>wk_pc := AtTest\<rparr>)"
    using reach_step wake_step.start [of ?q] by (fastforce simp: wake_init_def wake_defs)
  then have "wake_reach wake_init (?q\<lparr>wk_pc := InWait\<rparr>)"
    using reach_step wake_step.test [of "?q\<lparr>wk_pc := AtTest\<rparr>"] by (fastforce simp: wake_init_def wake_defs)
  then show ?thesis
    by (rule exI [of _ "?q\<lparr>wk_pc := InWait\<rparr>", OF conjI]) (simp add: wake_init_def wake_defs)
qed

subsection \<open>Progress\<close>

text \<open>The next step of the loop thread when nobody else acts and the functors and callbacks queue
  nothing: in \<open>epoll_wait\<close> it needs a readable event descriptor, never the time-out.\<close>

fun loop_next :: "'f wake_state \<Rightarrow> 'f wake_state option" where
  "loop_next w = (case wk_pc w of
      BeforeStart \<Rightarrow> Some (w\<lparr>wk_pc := (if wk_quitting w then AssertionFailed else AtTest)\<rparr>)
    | AtTest \<Rightarrow> Some (w\<lparr>wk_pc := (if wk_quitting w then AfterStart else InWait)\<rparr>)
    | InWait \<Rightarrow> if 0 < wk_counter w then Some (w\<lparr>wk_pc := Handling True\<rparr>) else None
    | Handling b \<Rightarrow> if b then Some (w\<lparr>wk_pc := Handling False, wk_counter := 0\<rparr>)
        else Some (w\<lparr>wk_pc := BeforeSwap, wk_calling := True\<rparr>)
    | BeforeSwap \<Rightarrow> Some (w\<lparr>wk_pc := RunningFns (wk_pendings w), wk_pendings := []\<rparr>)
    | RunningFns fs \<Rightarrow> (case fs of
          f # fs' \<Rightarrow> Some (w\<lparr>wk_pc := RunningFns fs', wk_executed := wk_executed w @ [f]\<rparr>)
        | [] \<Rightarrow> Some (w\<lparr>wk_pc := AtTest, wk_calling := False\<rparr>))
    | AfterStart \<Rightarrow> None
    | AssertionFailed \<Rightarrow> None)"

declare loop_next.simps [simp del]

fun loop_run :: "nat \<Rightarrow> 'f wake_state \<Rightarrow> 'f wake_state option" where
  "loop_run 0 w = Some w"
| "loop_run (Suc n) w = Option.bind (loop_next w) (loop_run n)"

lemma loop_next_step:
  assumes "loop_next w = Some w'"
  shows "wake_step w w'"
proof (cases "wk_pc w")
  case (RunningFns fs)
  then show ?thesis
    using assms wake_step.run [of w] wake_step.ran [of w] by (cases fs) (simp_all add: loop_next.simps)
next
  case (Handling b)
  then show ?thesis
    using assms wake_step.reset [of w] wake_step.handled [of w] by (cases b) (simp_all add: loop_next.simps)
next
  case BeforeStart
  then show ?thesis
    using assms wake_step.start [OF BeforeStart] by (simp add: loop_next.simps)
next
  case AtTest
  then show ?thesis
    using assms wake_step.test [OF AtTest] by (simp add: loop_next.simps)
next
  case InWait
  then show ?thesis
    using assms wake_step.wait_return [OF InWait, of True] by (simp add: loop_next.simps split: if_splits)
next
  case BeforeSwap
  then show ?thesis
    using assms wake_step.swap [OF BeforeSwap] by (simp add: loop_next.simps)
qed (use assms in \<open>simp_all add: loop_next.simps\<close>)

lemma loop_run_reach: "loop_run n w = Some w' \<Longrightarrow> wake_reach w0 w \<Longrightarrow> wake_reach w0 w'"
proof (induction n arbitrary: w)
  case (Suc n)
  obtain v where v: "loop_next w = Some v" "loop_run n v = Some w'"
    using Suc.prems(1) by (cases "loop_next w") simp_all
  show ?case
    using Suc.IH [OF v(2) reach_step [OF Suc.prems(2) loop_next_step [OF v(1)]]] .
qed simp

lemma loop_run_add: "loop_run (m + n) w = Option.bind (loop_run m w) (loop_run n)"
proof (induction m arbitrary: w)
  case (Suc m)
  then show ?case
    by (cases "loop_next w") simp_all
qed simp

lemma loop_run_trans: "loop_run m w = Some w1 \<Longrightarrow> loop_run n w1 = Some w2 \<Longrightarrow> loop_run (m + n) w = Some w2"
  by (simp add: loop_run_add)

lemma loop_run_fns:
  "wk_pc w = RunningFns fs \<Longrightarrow>
    loop_run (length fs) w = Some (w\<lparr>wk_pc := RunningFns [], wk_executed := wk_executed w @ fs\<rparr>)"
proof (induction fs arbitrary: w)
  case Nil
  then show ?case
    by (cases w) simp
next
  case (Cons f fs)
  let ?v = "w\<lparr>wk_pc := RunningFns fs, wk_executed := wk_executed w @ [f]\<rparr>"
  have "loop_next w = Some ?v"
    using Cons.prems by (simp add: loop_next.simps)
  then show ?case
    using Cons.IH [of ?v] by simp
qed

text \<open>The loop finishes what is asked of it within \<open>n\<close> steps: it returns when a stop was requested,
  otherwise it executes everything that was queued.\<close>

definition finishes :: "nat \<Rightarrow> 'f wake_state \<Rightarrow> bool" where
  "finishes n w \<longleftrightarrow> (\<exists>m w'. m \<le> n \<and> loop_run m w = Some w'
     \<and> (if wk_quitting w then wk_pc w' = AfterStart else wk_executed w' = wk_queued w))"

definition fifo :: "'f wake_state \<Rightarrow> bool" where
  "fifo w \<longleftrightarrow> wk_queued w = wk_executed w @ taken_fns (wk_pc w) @ wk_pendings w"

lemma finishes_after:
  assumes "loop_run k w = Some v" "finishes n v" "wk_quitting v = wk_quitting w" "wk_queued v = wk_queued w"
  shows "finishes (k + n) w"
proof -
  obtain m w' where m: "m \<le> n" "loop_run m v = Some w'"
    "if wk_quitting w then wk_pc w' = AfterStart else wk_executed w' = wk_queued w"
    using assms(2-4) unfolding finishes_def by auto
  then show ?thesis
    using loop_run_trans [OF assms(1) m(2)] unfolding finishes_def by (intro exI [of _ "k + m"] exI [of _ w']) simp
qed

lemma finishes_next:
  assumes "loop_next w = Some v" "finishes n v" "wk_quitting v = wk_quitting w" "wk_queued v = wk_queued w"
  shows "finishes (Suc n) w"
proof -
  have "loop_run 1 w = Some v"
    using assms(1) by simp
  from finishes_after [OF this assms(2-4)] show ?thesis
    by simp
qed

lemma finishes_mono: "finishes m w \<Longrightarrow> m \<le> n \<Longrightarrow> finishes n w"
  unfolding finishes_def by (meson le_trans)

lemma finishes_empty:
  assumes "wk_pc w = AtTest" "fifo w" "wk_pendings w = []"
  shows "finishes 1 w"
proof (cases "wk_quitting w")
  case True
  then show ?thesis
    using assms(1) unfolding finishes_def
    by (intro exI [of _ 1] exI [of _ "w\<lparr>wk_pc := AfterStart\<rparr>"]) (simp add: loop_next.simps)
next
  case False
  then show ?thesis
    using assms unfolding finishes_def by (intro exI [of _ 0] exI [of _ w]) (simp add: fifo_def)
qed

lemma finishes_running:
  assumes "wk_pc w = RunningFns fs" "fifo w"
    and next_ok: "finishes n (w\<lparr>wk_pc := AtTest, wk_calling := False, wk_executed := wk_executed w @ fs\<rparr>)"
  shows "finishes (length fs + Suc n) w"
proof -
  let ?v = "w\<lparr>wk_pc := RunningFns [], wk_executed := wk_executed w @ fs\<rparr>"
  have "loop_next ?v = Some (w\<lparr>wk_pc := AtTest, wk_calling := False, wk_executed := wk_executed w @ fs\<rparr>)"
    by (simp add: loop_next.simps)
  then have "finishes (Suc n) ?v"
    using next_ok by (rule finishes_next) simp_all
  then show ?thesis
    by (rule finishes_after [OF loop_run_fns [OF assms(1)]]) simp_all
qed

lemma finishes_swap:
  assumes "wk_pc w = BeforeSwap" "fifo w"
  shows "finishes (length (wk_pendings w) + 3) w"
proof -
  let ?v = "w\<lparr>wk_pc := RunningFns (wk_pendings w), wk_pendings := []\<rparr>"
  let ?u = "?v\<lparr>wk_pc := AtTest, wk_calling := False, wk_executed := wk_executed ?v @ wk_pendings w\<rparr>"
  have "finishes 1 ?u"
    by (rule finishes_empty) (use assms in \<open>simp_all add: fifo_def\<close>)
  then have "finishes (length (wk_pendings w) + Suc 1) ?v"
    by (intro finishes_running) (use assms in \<open>simp_all add: fifo_def\<close>)
  then have "finishes (Suc (length (wk_pendings w) + Suc 1)) w"
    by (rule finishes_next [rotated]) (use assms(1) in \<open>simp_all add: loop_next.simps\<close>)
  then show ?thesis
    by (rule finishes_mono) simp
qed

lemma finishes_handling:
  assumes "wk_pc w = Handling b" "fifo w"
  shows "finishes (length (wk_pendings w) + 5) w"
proof -
  have quiet: "finishes (Suc (length (wk_pendings v) + 3)) v" if "wk_pc v = Handling False" "fifo v" for v :: "'a wake_state"
  proof -
    let ?u = "v\<lparr>wk_pc := BeforeSwap, wk_calling := True\<rparr>"
    have "finishes (length (wk_pendings ?u) + 3) ?u"
      by (rule finishes_swap) (use that in \<open>simp_all add: fifo_def\<close>)
    then have "finishes (length (wk_pendings v) + 3) ?u"
      by simp
    then show ?thesis
      by (rule finishes_next [rotated]) (use that(1) in \<open>simp_all add: loop_next.simps\<close>)
  qed
  show ?thesis
  proof (cases b)
    case True
    let ?u = "w\<lparr>wk_pc := Handling False, wk_counter := 0\<rparr>"
    have "finishes (Suc (length (wk_pendings ?u) + 3)) ?u"
      by (rule quiet) (use assms in \<open>simp_all add: fifo_def\<close>)
    then have "finishes (Suc (Suc (length (wk_pendings ?u) + 3))) w"
      by (rule finishes_next [rotated]) (use assms(1) True in \<open>simp_all add: loop_next.simps\<close>)
    then show ?thesis
      by (rule finishes_mono) simp
  next
    case False
    then show ?thesis
      using finishes_mono [OF quiet [of w]] assms by simp
  qed
qed

lemma finishes_wait:
  assumes "wk_pc w = InWait" "fifo w" "wk_pendings w \<noteq> [] \<or> wk_quitting w \<longrightarrow> 0 < wk_counter w"
  shows "finishes (length (wk_pendings w) + 6) w"
proof (cases "0 < wk_counter w")
  case True
  let ?u = "w\<lparr>wk_pc := Handling True\<rparr>"
  have "finishes (length (wk_pendings ?u) + 5) ?u"
    by (rule finishes_handling) (use assms in \<open>simp_all add: fifo_def\<close>)
  then have "finishes (Suc (length (wk_pendings ?u) + 5)) w"
    by (rule finishes_next [rotated]) (use assms(1) True in \<open>simp_all add: loop_next.simps\<close>)
  then show ?thesis
    by (rule finishes_mono) simp
next
  case False
  then show ?thesis
    using assms unfolding finishes_def by (intro exI [of _ 0] exI [of _ w]) (simp add: fifo_def)
qed

lemma finishes_test:
  assumes "wk_pc w = AtTest" "fifo w" "wk_pendings w \<noteq> [] \<longrightarrow> 0 < wk_counter w"
  shows "finishes (length (wk_pendings w) + 7) w"
proof (cases "wk_quitting w")
  case True
  then show ?thesis
    using assms(1) unfolding finishes_def
    by (intro exI [of _ 1] exI [of _ "w\<lparr>wk_pc := AfterStart\<rparr>"]) (simp add: loop_next.simps)
next
  case False
  let ?u = "w\<lparr>wk_pc := InWait\<rparr>"
  have "finishes (length (wk_pendings ?u) + 6) ?u"
    by (rule finishes_wait) (use assms False in \<open>simp_all add: fifo_def\<close>)
  then have "finishes (Suc (length (wk_pendings ?u) + 6)) w"
    by (rule finishes_next [rotated]) (use assms(1) False in \<open>simp_all add: loop_next.simps\<close>)
  then show ?thesis
    by (rule finishes_mono) simp
qed

text \<open>C8: once every other thread has finished its calls, the loop alone, without a time-out, does
  what is asked within a number of steps that is linear in the queue: without a request to stop it
  executes every functor queued so far, with one it returns from \<open>Start\<close>.\<close>

theorem loop_progress:
  assumes reach: "quiet_reach wake_init w" and idle: "\<forall>t. wk_remote w t = RIdle"
    and pc: "wk_pc w \<noteq> AfterStart" "wk_pc w \<noteq> AssertionFailed" "wk_pc w = BeforeStart \<longrightarrow> \<not> wk_quitting w"
  shows "\<exists>n w'. n \<le> length (wk_queued w) + 9 \<and> loop_run n w = Some w' \<and> wake_reach wake_init w'
    \<and> (if wk_quitting w then wk_pc w' = AfterStart else wk_executed w' = wk_queued w)"
proof -
  have fifo: "wk_queued w = wk_executed w @ taken_fns (wk_pc w) @ wk_pendings w"
    using quiet_reach_reach [OF reach] by (induction rule: wake_reach.induct) (auto simp: wake_init_def intro: fifo_step)
  have inv: "awake_at (wk_pc w) w" and coming: "wake_coming w \<longleftrightarrow> 0 < wk_counter w"
    using quiet_reach_inv [OF reach] idle by (simp_all add: wake_inv_def wake_coming_def)
  have "finishes (length (wk_queued w) + 9) w"
  proof (cases "wk_pc w")
    case BeforeStart
    let ?u = "w\<lparr>wk_pc := AtTest\<rparr>"
    have "finishes (length (wk_pendings ?u) + 7) ?u"
      by (rule finishes_test) (use BeforeStart fifo inv coming in \<open>simp_all add: fifo_def\<close>)
    then have "finishes (Suc (length (wk_pendings ?u) + 7)) w"
      by (rule finishes_next [rotated]) (use BeforeStart pc(3) in \<open>simp_all add: loop_next.simps\<close>)
    then show ?thesis
      by (rule finishes_mono) (simp add: fifo)
  next
    case (RunningFns fs)
    let ?u = "w\<lparr>wk_pc := AtTest, wk_calling := False, wk_executed := wk_executed w @ fs\<rparr>"
    have "finishes (length (wk_pendings ?u) + 7) ?u"
      by (rule finishes_test) (use RunningFns fifo inv coming in \<open>simp_all add: fifo_def\<close>)
    then have "finishes (length fs + Suc (length (wk_pendings ?u) + 7)) w"
      by (rule finishes_running [OF RunningFns, rotated]) (simp add: fifo_def fifo)
    then show ?thesis
      by (rule finishes_mono) (simp add: fifo RunningFns)
  next
    case AtTest
    show ?thesis
      by (rule finishes_mono [OF finishes_test]) (use AtTest fifo inv coming in \<open>simp_all add: fifo_def\<close>)
  next
    case InWait
    show ?thesis
      by (rule finishes_mono [OF finishes_wait]) (use InWait fifo inv coming in \<open>simp_all add: fifo_def\<close>)
  next
    case (Handling b)
    show ?thesis
      by (rule finishes_mono [OF finishes_handling]) (use Handling fifo in \<open>simp_all add: fifo_def\<close>)
  next
    case BeforeSwap
    show ?thesis
      by (rule finishes_mono [OF finishes_swap]) (use BeforeSwap fifo in \<open>simp_all add: fifo_def\<close>)
  qed (use pc in simp_all)
  then show ?thesis
    using loop_run_reach quiet_reach_reach [OF reach] unfolding finishes_def by blast
qed

definition ex_signalled :: "nat wake_state" where
  "ex_signalled = (signal ex_pushed)\<lparr>wk_remote := (wk_remote ex_pushed)(3 := RIdle)\<rparr>"

theorem loop_progress_witness:
  "\<exists>n w'. n \<le> 10 \<and> loop_run n ex_signalled = Some w' \<and> wk_executed w' = [5]"
proof -
  have "wake_step ex_pushed ex_signalled"
    unfolding ex_signalled_def by (rule wake_step.remote_wake) (simp add: ex_pushed_fields)
  then have reach: "quiet_reach wake_init ex_signalled"
    by (intro quiet_next [OF ex_pushed_reach]) (simp add: quiet_step_def ex_pushed_fields)
  have fields: "wk_pc ex_signalled = InWait" "wk_queued ex_signalled = [5]" "\<not> wk_quitting ex_signalled"
    by (simp_all add: ex_signalled_def wake_defs ex_pushed_fields)
  have idle: "\<forall>t. wk_remote ex_signalled t = RIdle"
    by (simp add: ex_signalled_def ex_pushed_def ex_waiting_def wake_init_def)
  from loop_progress [OF reach idle] show ?thesis
    by (simp add: fields) blast
qed

end
