(* ===== verification/LoopThread.thy ===== *)
theory LoopThread
  imports Benet_Prelude
begin

text \<open>
  \<open>EventLoopThread\<close> of \<open>src/eventloop_thread.cpp\<close>: the thread function and the owner, who calls
  \<open>Start\<close> and later destroys the object, as a step relation. The loop is a variable of the thread
  function; \<open>loop_\<close> points to it between the two locked sections. The loop itself is reduced to
  what matters here: \<open>EventLoop::Start\<close> asserts that no stop was requested, and returns after one.
\<close>

datatype thread_pc = NotStarted | Constructing | RunningInit | Publishing | EnteringLoop | InLoop | Unpublishing | Leaving | Finished | ThreadAborted

datatype owner_pc = Outside | WaitingForLoop | HasLoop | DtorReads | DtorStops | DtorJoins | Destroyed | UsedFreedLoop

record loop_thread =
  thr_pc :: thread_pc
  own_pc :: owner_pc
  loop_ptr :: bool
  loop_alive :: bool
  loop_quitting :: bool
  user_stopped :: bool

definition EventLoopThread_ctor :: loop_thread where
  "EventLoopThread_ctor = \<lparr>thr_pc = NotStarted, own_pc = Outside, loop_ptr = False, loop_alive = False,
     loop_quitting = False, user_stopped = False\<rparr>"

text \<open>The steps of the thread function, of \<open>Start\<close>, of the destructor, and a call of
  \<open>EventLoop::Stop\<close> by whoever got the pointer.\<close>

inductive thread_step :: "loop_thread \<Rightarrow> loop_thread \<Rightarrow> bool" where
  construct: "thr_pc w = Constructing \<Longrightarrow> thread_step w (w\<lparr>thr_pc := RunningInit, loop_alive := True\<rparr>)"
| init_cb: "thr_pc w = RunningInit \<Longrightarrow> thread_step w (w\<lparr>thr_pc := Publishing\<rparr>)"
| publish: "thr_pc w = Publishing \<Longrightarrow> thread_step w (w\<lparr>thr_pc := EnteringLoop, loop_ptr := True\<rparr>)"
| enter: "thr_pc w = EnteringLoop \<Longrightarrow> thread_step w (w\<lparr>thr_pc := (if loop_quitting w then ThreadAborted else InLoop)\<rparr>)"
| leave: "thr_pc w = InLoop \<Longrightarrow> loop_quitting w \<Longrightarrow> thread_step w (w\<lparr>thr_pc := Unpublishing\<rparr>)"
| unpublish: "thr_pc w = Unpublishing \<Longrightarrow> thread_step w (w\<lparr>thr_pc := Leaving, loop_ptr := False\<rparr>)"
| finish: "thr_pc w = Leaving \<Longrightarrow> thread_step w (w\<lparr>thr_pc := Finished, loop_alive := False\<rparr>)"

inductive owner_step :: "loop_thread \<Rightarrow> loop_thread \<Rightarrow> bool" where
  start: "own_pc w = Outside \<Longrightarrow> thr_pc w = NotStarted \<Longrightarrow> owner_step w (w\<lparr>own_pc := WaitingForLoop, thr_pc := Constructing\<rparr>)"
| got_loop: "own_pc w = WaitingForLoop \<Longrightarrow> loop_ptr w \<Longrightarrow> owner_step w (w\<lparr>own_pc := HasLoop\<rparr>)"
| user_stop: "own_pc w = HasLoop \<Longrightarrow> loop_alive w \<Longrightarrow> owner_step w (w\<lparr>loop_quitting := True, user_stopped := True\<rparr>)"
| dtor: "own_pc w = Outside \<or> own_pc w = HasLoop \<Longrightarrow> owner_step w (w\<lparr>own_pc := DtorReads\<rparr>)"
| dtor_read: "own_pc w = DtorReads \<Longrightarrow> owner_step w (w\<lparr>own_pc := (if loop_ptr w then DtorStops else DtorJoins)\<rparr>)"
| dtor_stop: "own_pc w = DtorStops \<Longrightarrow> loop_alive w \<Longrightarrow> owner_step w (w\<lparr>own_pc := DtorJoins, loop_quitting := True\<rparr>)"
| dtor_stop_freed: "own_pc w = DtorStops \<Longrightarrow> \<not> loop_alive w \<Longrightarrow> owner_step w (w\<lparr>own_pc := UsedFreedLoop\<rparr>)"
| dtor_join: "own_pc w = DtorJoins \<Longrightarrow> thr_pc w = Finished \<or> thr_pc w = NotStarted \<Longrightarrow> owner_step w (w\<lparr>own_pc := Destroyed\<rparr>)"

inductive thread_reach :: "loop_thread \<Rightarrow> bool" where
  created: "thread_reach EventLoopThread_ctor"
| by_thread: "thread_reach w \<Longrightarrow> thread_step w w' \<Longrightarrow> thread_reach w'"
| by_owner: "thread_reach w \<Longrightarrow> owner_step w w' \<Longrightarrow> thread_reach w'"

subsection \<open>Invariant\<close>

text \<open>Which values of \<open>loop_\<close> and of the life time of the loop go with each place of the thread
  function, and which places go with each place of the owner.\<close>

fun published :: "thread_pc \<Rightarrow> bool" where
  "published EnteringLoop = True"
| "published InLoop = True"
| "published Unpublishing = True"
| "published ThreadAborted = True"
| "published _ = False"

fun constructed :: "thread_pc \<Rightarrow> bool" where
  "constructed NotStarted = False"
| "constructed Constructing = False"
| "constructed Finished = False"
| "constructed _ = True"

fun early :: "thread_pc \<Rightarrow> bool" where
  "early NotStarted = True"
| "early Constructing = True"
| "early RunningInit = True"
| "early Publishing = True"
| "early _ = False"

fun late :: "thread_pc \<Rightarrow> bool" where
  "late Unpublishing = True"
| "late Leaving = True"
| "late Finished = True"
| "late ThreadAborted = True"
| "late _ = False"

definition ptr_inv :: "loop_thread \<Rightarrow> bool" where
  "ptr_inv w \<longleftrightarrow> loop_ptr w = published (thr_pc w) \<and> loop_alive w = constructed (thr_pc w)
     \<and> (late (thr_pc w) \<longrightarrow> loop_quitting w) \<and> (early (thr_pc w) \<longrightarrow> \<not> loop_quitting w)"

fun owner_at :: "owner_pc \<Rightarrow> loop_thread \<Rightarrow> bool" where
  "owner_at Outside w = (thr_pc w = NotStarted \<and> \<not> user_stopped w)"
| "owner_at WaitingForLoop w = (thr_pc w \<noteq> NotStarted \<and> \<not> loop_quitting w \<and> \<not> user_stopped w)"
| "owner_at HasLoop w = (\<not> early (thr_pc w) \<and> loop_quitting w = user_stopped w)"
| "owner_at DtorReads w = ((thr_pc w = NotStarted \<or> \<not> early (thr_pc w)) \<and> loop_quitting w = user_stopped w)"
| "owner_at DtorStops w = (\<not> early (thr_pc w) \<and> loop_quitting w = user_stopped w)"
| "owner_at DtorJoins w = (thr_pc w = NotStarted \<or> \<not> early (thr_pc w) \<and> loop_quitting w)"
| "owner_at Destroyed w = (thr_pc w = Finished \<or> thr_pc w = NotStarted)"
| "owner_at UsedFreedLoop w = (thr_pc w = Finished \<and> user_stopped w)"

definition owner_inv :: "loop_thread \<Rightarrow> bool" where
  "owner_inv w \<longleftrightarrow> owner_at (own_pc w) w"

lemma thread_step_inv:
  assumes "thread_step w w'" "ptr_inv w" "owner_inv w"
  shows "ptr_inv w' \<and> owner_inv w'"
  using assms
proof (induction rule: thread_step.induct)
  case (construct w)
  then show ?case
    by (cases "own_pc w") (simp_all add: ptr_inv_def owner_inv_def)
next
  case (init_cb w)
  then show ?case
    by (cases "own_pc w") (simp_all add: ptr_inv_def owner_inv_def)
next
  case (publish w)
  then show ?case
    by (cases "own_pc w") (simp_all add: ptr_inv_def owner_inv_def)
next
  case (enter w)
  then show ?case
    by (cases "own_pc w") (simp_all add: ptr_inv_def owner_inv_def)
next
  case (leave w)
  then show ?case
    by (cases "own_pc w") (simp_all add: ptr_inv_def owner_inv_def)
next
  case (unpublish w)
  then show ?case
    by (cases "own_pc w") (simp_all add: ptr_inv_def owner_inv_def)
next
  case (finish w)
  then show ?case
    by (cases "own_pc w") (simp_all add: ptr_inv_def owner_inv_def)
qed

lemma owner_step_inv:
  assumes "owner_step w w'" "ptr_inv w" "owner_inv w"
  shows "ptr_inv w' \<and> owner_inv w'"
  using assms
proof (induction rule: owner_step.induct)
  case (start w)
  then show ?case
    by (simp add: ptr_inv_def owner_inv_def)
next
  case (got_loop w)
  then show ?case
    by (cases "thr_pc w") (simp_all add: ptr_inv_def owner_inv_def)
next
  case (user_stop w)
  then show ?case
    by (cases "thr_pc w") (simp_all add: ptr_inv_def owner_inv_def)
next
  case (dtor w)
  then show ?case
    by (elim disjE) (simp_all add: ptr_inv_def owner_inv_def)
next
  case (dtor_read w)
  then show ?case
    by (cases "thr_pc w") (simp_all add: ptr_inv_def owner_inv_def)
next
  case (dtor_stop w)
  then show ?case
    by (cases "thr_pc w") (simp_all add: ptr_inv_def owner_inv_def)
next
  case (dtor_stop_freed w)
  then show ?case
    by (cases "thr_pc w") (simp_all add: ptr_inv_def owner_inv_def)
next
  case (dtor_join w)
  then show ?case
    by (elim disjE) (simp_all add: ptr_inv_def owner_inv_def)
qed

lemma thread_reach_inv: "thread_reach w \<Longrightarrow> ptr_inv w \<and> owner_inv w"
proof (induction rule: thread_reach.induct)
  case created
  show ?case
    by (simp add: EventLoopThread_ctor_def ptr_inv_def owner_inv_def)
next
  case (by_thread w w')
  then show ?case
    using thread_step_inv by blast
next
  case (by_owner w w')
  then show ?case
    using owner_step_inv by blast
qed


text \<open>The run up to the return of \<open>Start\<close>.\<close>

lemma started_reach:
  "thread_reach \<lparr>thr_pc = EnteringLoop, own_pc = HasLoop, loop_ptr = True, loop_alive = True, loop_quitting = False, user_stopped = False\<rparr>"
proof -
  have c: "thread_reach \<lparr>thr_pc = Constructing, own_pc = WaitingForLoop, loop_ptr = False, loop_alive = False, loop_quitting = False, user_stopped = False\<rparr>"
    using by_owner [OF created owner_step.start] by (simp add: EventLoopThread_ctor_def)
  have r: "thread_reach \<lparr>thr_pc = RunningInit, own_pc = WaitingForLoop, loop_ptr = False, loop_alive = True, loop_quitting = False, user_stopped = False\<rparr>"
    using by_thread [OF c construct] by simp
  have b: "thread_reach \<lparr>thr_pc = Publishing, own_pc = WaitingForLoop, loop_ptr = False, loop_alive = True, loop_quitting = False, user_stopped = False\<rparr>"
    using by_thread [OF r init_cb] by simp
  have e: "thread_reach \<lparr>thr_pc = EnteringLoop, own_pc = WaitingForLoop, loop_ptr = True, loop_alive = True, loop_quitting = False, user_stopped = False\<rparr>"
    using by_thread [OF b publish] by simp
  show "thread_reach \<lparr>thr_pc = EnteringLoop, own_pc = HasLoop, loop_ptr = True, loop_alive = True, loop_quitting = False, user_stopped = False\<rparr>"
    using by_owner [OF e got_loop] by simp
qed

text \<open>C39: destroying the object right after \<open>Start\<close> returned can abort the program: the stop request
  of the destructor may come before the thread enters \<open>EventLoop::Start\<close>, whose assertion that no
  stop was requested then fails. Otherwise the thread finishes, so that \<open>join\<close> returns.\<close>

theorem early_destruction_aborts:
  "(\<exists>w. thread_reach w \<and> thr_pc w = ThreadAborted \<and> \<not> user_stopped w)
   \<and> (\<exists>w. thread_reach w \<and> own_pc w = Destroyed \<and> thr_pc w = Finished)"
proof -
  note h = started_reach
  have stop: "thread_reach \<lparr>thr_pc = p, own_pc = DtorJoins, loop_ptr = True, loop_alive = True, loop_quitting = True, user_stopped = False\<rparr>"
    if p: "thread_reach \<lparr>thr_pc = p, own_pc = HasLoop, loop_ptr = True, loop_alive = True, loop_quitting = False, user_stopped = False\<rparr>" for p
  proof -
    have "thread_reach \<lparr>thr_pc = p, own_pc = DtorReads, loop_ptr = True, loop_alive = True, loop_quitting = False, user_stopped = False\<rparr>"
      using by_owner [OF p dtor] by simp
    then have "thread_reach \<lparr>thr_pc = p, own_pc = DtorStops, loop_ptr = True, loop_alive = True, loop_quitting = False, user_stopped = False\<rparr>"
      using by_owner [OF _ dtor_read] by fastforce
    then show ?thesis
      using by_owner [OF _ dtor_stop] by fastforce
  qed
  have "thread_reach \<lparr>thr_pc = ThreadAborted, own_pc = DtorJoins, loop_ptr = True, loop_alive = True, loop_quitting = True, user_stopped = False\<rparr>"
    using by_thread [OF stop [OF h] enter] by simp
  moreover have l: "thread_reach \<lparr>thr_pc = InLoop, own_pc = HasLoop, loop_ptr = True, loop_alive = True, loop_quitting = False, user_stopped = False\<rparr>"
    using by_thread [OF h enter] by simp
  have u: "thread_reach \<lparr>thr_pc = Unpublishing, own_pc = DtorJoins, loop_ptr = True, loop_alive = True, loop_quitting = True, user_stopped = False\<rparr>"
    using by_thread [OF stop [OF l] leave] by simp
  have v: "thread_reach \<lparr>thr_pc = Leaving, own_pc = DtorJoins, loop_ptr = False, loop_alive = True, loop_quitting = True, user_stopped = False\<rparr>"
    using by_thread [OF u unpublish] by simp
  have f: "thread_reach \<lparr>thr_pc = Finished, own_pc = DtorJoins, loop_ptr = False, loop_alive = False, loop_quitting = True, user_stopped = False\<rparr>"
    using by_thread [OF v finish] by simp
  have "thread_reach \<lparr>thr_pc = Finished, own_pc = Destroyed, loop_ptr = False, loop_alive = False, loop_quitting = True, user_stopped = False\<rparr>"
    using by_owner [OF f dtor_join] by simp
  ultimately show ?thesis
    by (intro conjI exI) (assumption | simp)+
qed


end
