(* ===== verification/Connection_Drain.thy ===== *)
theory Connection_Drain
  imports Connection_Props
begin

text \<open>
  Buffered output leaves the process: while the kernel reports the socket writable, \<open>handle_write\<close> of
  \<open>src/tcp_connection.cpp\<close> sends what \<open>send_in_loop\<close> left in the output buffer, and completes a
  \<open>Shutdown\<close> that had to wait for it.
\<close>

text \<open>The writable events of the socket of a connection, one after the other.\<close>

primrec write_events :: "'k conn_sys \<Rightarrow> ('k, 'u, 'z) user_fun \<Rightarrow> errno \<Rightarrow> thread_id \<Rightarrow> ptr \<Rightarrow> nat \<Rightarrow> ('k, 'u, 'z) tcp_state \<Rightarrow>
    ('k, 'u, 'z) tcp_state res" where
  "write_events s user e me c 0 w = Inr w"
| "write_events s user e me c (Suc m) w = andthen (handle_write s user e me c w) (write_events s user e me c m)"

text \<open>What \<open>epoll(7)\<close> documents of a writable socket: \<open>send\<close> takes at least one byte.\<close>

definition send_progress :: "'k conn_sys \<Rightarrow> fd \<Rightarrow> bool" where
  "send_progress s fd \<longleftrightarrow> (\<forall>msg k. msg \<noteq> [] \<longrightarrow> (\<exists>n k'. sys_send s fd msg k = (SysOk n, k') \<and> 0 < n))"

text \<open>Without buffered output nothing happens.\<close>

lemma write_events_idle:
  assumes "tcp_inv interest w" "conns w c = Some x" "content (output_buffer x) = []" "IsInLoopThread me w"
  shows "write_events s user e me c m w = Inr w"
proof (induction m)
  case (Suc m)
  obtain ch where ch: "channel_heap w (conn_channel x) = Some ch" "conn_ok ch x"
    using tcp_invD(2) [OF assms(1,2)] by blast
  then have "\<not> IsWriteEvent ch"
    using assms(3) by (cases "open_state (state x)") (simp_all add: conn_ok_def)
  then show ?case
    using Suc assms(2,4) ch(1) by (simp add: handle_write_def with_conn_def AssertInLoopThread_def with_channel_def)
qed simp

lemma write_events_drain:
  assumes sys: "conn_sys_ok s interest" "epoll_accepts (sys_ctl (loop_part s)) interest" and user: "user_ok interest user"
  shows "tcp_inv interest w \<Longrightarrow> conns w c = Some x \<Longrightarrow> state x = Connected \<or> state x = Disconnecting \<Longrightarrow> IsInLoopThread me w \<Longrightarrow>
    send_progress s (sockfd x) \<Longrightarrow> length (content (output_buffer x)) \<le> m \<Longrightarrow> content (output_buffer x) \<noteq> [] \<Longrightarrow>
    \<exists>w' y. write_events s user e me c m w = Inr w' \<and> tcp_inv interest w' \<and> conns w' c = Some y \<and> state y = state x
      \<and> accepted y = accepted x \<and> sent y = sent x @ content (output_buffer x) \<and> content (output_buffer y) = []
      \<and> (shut_wr y \<longleftrightarrow> state x = Disconnecting) \<and> pendings w' = pendings w @ bound_fn (on_write_complete x) (ConnArg c)"
proof (induction m arbitrary: w x)
  case (Suc m)
  let ?data = "content (output_buffer x)"
  obtain n k where send: "sys_send s (sockfd x) ?data (epoll w) = (SysOk n, k)" "0 < n"
    using Suc.prems(5,7) unfolding send_progress_def by blast
  obtain w' buf b ch where run: "handle_write s user e me c w = Inr w'"
    and y: "conns w' c = Some (x\<lparr>output_buffer := buf, sent := sent x @ take n ?data, shut_wr := b\<rparr>)" (is "_ = Some ?y")
    and buf: "content buf = drop n ?data" "n \<le> length ?data" and b: "b \<longleftrightarrow> \<not> n < length ?data \<and> state x = Disconnecting"
    and pend: "pendings w' = pendings w @ (if n < length ?data then [] else bound_fn (on_write_complete x) (ConnArg c))"
    and me: "IsInLoopThread me w'"
    using handle_write_takes [OF sys Suc.prems(1,2,7,3,4) send, of user e] by metis
  have inv: "tcp_inv interest w'"
    using tcp_stepD(1) [OF handle_write_step [OF sys(1) user Suc.prems(1) run]] .
  show ?case
  proof (cases "n < length ?data")
    case True
    have "state ?y = Connected \<or> state ?y = Disconnecting" "send_progress s (sockfd ?y)" "length (content (output_buffer ?y)) \<le> m"
        "content (output_buffer ?y) \<noteq> []"
      using Suc.prems(3,5,6) send(2) buf True by simp_all
    from Suc.IH [OF inv y this(1) me this(2-4)] show ?thesis
      using run pend True buf by fastforce
  next
    case False
    then show ?thesis
      using run y buf b pend inv write_events_idle [OF inv y _ me, of s user e m]
      by (intro exI [of _ w'] exI [of _ ?y]) simp
  qed
qed simp

text \<open>C9: buffered output is sent: after as many writable events as there are bytes in the output buffer,
  at the latest, everything that was accepted has been given to the kernel in order, the
  write-complete callback is queued once, and if \<open>Shutdown\<close> was called the sending direction is
  closed, after the last byte and not without it.\<close>

theorem output_drains:
  assumes "conn_sys_ok s interest" "epoll_accepts (sys_ctl (loop_part s)) interest" "user_ok interest user" "tcp_inv interest w"
    and "conns w c = Some x" "state x = Connected \<or> state x = Disconnecting" "IsInLoopThread me w"
    and "send_progress s (sockfd x)" "content (output_buffer x) \<noteq> []" "length (content (output_buffer x)) \<le> m"
  shows "\<exists>w' y. write_events s user e me c m w = Inr w' \<and> conns w' c = Some y \<and> sent y = accepted x \<and> accepted y = accepted x
    \<and> content (output_buffer y) = [] \<and> state y = state x \<and> (shut_wr y \<longleftrightarrow> state x = Disconnecting)
    \<and> pendings w' = pendings w @ bound_fn (on_write_complete x) (ConnArg c)"
proof -
  obtain ch where "conn_ok ch x"
    using tcp_invD(2) [OF assms(4,5)] by blast
  then have "sent x @ content (output_buffer x) = accepted x"
    using assms(6) by (auto simp: conn_ok_def open_state_def)
  then show ?thesis
    using write_events_drain [OF assms(1-8,10,9), of e] by metis
qed

theorem output_drains_witness:
  "\<exists>w' y. write_events ex_csys ex_user EINTR 7 20 2 (ex_tcp Disconnecting ex_two_bytes 7) = Inr w' \<and> conns w' 20 = Some y
    \<and> sent y = [5, 6] \<and> content (output_buffer y) = [] \<and> shut_wr y \<and> pendings w' = [CallFn 5 (ConnArg 20)]"
proof -
  let ?w = "ex_tcp Disconnecting ex_two_bytes 7" and ?x = "ex_conn Disconnecting ex_two_bytes"
  have inv: "tcp_inv (\<lambda>k. k) ?w"
    by (rule ex_tcp_inv) (simp_all add: ex_two_bytes)
  have x: "conns ?w 20 = Some ?x" "state ?x = Connected \<or> state ?x = Disconnecting" "IsInLoopThread 7 ?w"
      "send_progress ex_csys (sockfd ?x)" "content (output_buffer ?x) \<noteq> []" "length (content (output_buffer ?x)) \<le> 2"
    by (simp_all add: ex_two_bytes send_progress_def ex_csys_def)
  from output_drains [OF ex_csys_ok ex_user_ok(1) inv x, where e = EINTR] show ?thesis
    by (auto simp: ex_two_bytes bound_fn_def) (auto simp: ex_conn_def)
qed

end
