(* ===== verification/StreamSpec.thy ===== *)
theory StreamSpec
  imports Connection_Props
begin

text \<open>
  What a \<open>TcpConnection\<close> promises, as an abstract machine: a stream of bytes that accepts data while
  it is connected, hands it to the kernel in order, and closes its sending direction after the last
  byte. Every run of the connection's operations, in any order and by any thread, is a run of
  this machine.
\<close>

subsection \<open>The abstract machine\<close>

record stream =
  phase :: conn_state
  taken :: "byte list"
  given :: "byte list"
  finished :: bool

text \<open>\<open>taken\<close> is what the connection took from its user, \<open>given\<close> what it gave to the kernel. A
  connection that is torn down forgets the rest, and its sending direction may be closed then.\<close>

inductive stream_step :: "stream \<Rightarrow> stream \<Rightarrow> bool" where
  establish: "phase S = Connecting \<Longrightarrow> stream_step S (S\<lparr>phase := Connected\<rparr>)"
| accept_data: "phase S = Connected \<Longrightarrow> stream_step S (S\<lparr>taken := taken S @ bs\<rparr>)"
| transmit: "phase S = Connected \<or> phase S = Disconnecting \<Longrightarrow> \<not> finished S \<Longrightarrow> taken S = given S @ bs @ rest \<Longrightarrow>
    stream_step S (S\<lparr>given := given S @ bs\<rparr>)"
| half_close: "phase S = Connected \<Longrightarrow> stream_step S (S\<lparr>phase := Disconnecting\<rparr>)"
| finish: "phase S = Disconnecting \<and> given S = taken S \<or> phase S = Disconnected \<Longrightarrow> stream_step S (S\<lparr>finished := True\<rparr>)"
| close_down: "phase S = Connected \<or> phase S = Disconnecting \<Longrightarrow> stream_step S (S\<lparr>phase := Disconnected\<rparr>)"

definition stream_ok :: "stream \<Rightarrow> bool" where
  "stream_ok S \<longleftrightarrow> (\<exists>rest. taken S = given S @ rest) \<and> (finished S \<and> phase S \<noteq> Disconnected \<longrightarrow> phase S = Disconnecting \<and> given S = taken S)"

text \<open>The machine loses, repeats and reorders nothing, and sends nothing after the end.\<close>

lemma stream_step_ok: "stream_step S T \<Longrightarrow> stream_ok S \<Longrightarrow> stream_ok T"
  by (induction rule: stream_step.induct) (auto simp: stream_ok_def)

lemma stream_steps_ok: "stream_step\<^sup>*\<^sup>* S T \<Longrightarrow> stream_ok S \<Longrightarrow> stream_ok T"
  by (induction rule: rtranclp_induct) (auto intro: stream_step_ok)

lemma stream_step_after_end: "stream_step S T \<Longrightarrow> stream_ok S \<Longrightarrow> finished S \<Longrightarrow> finished T \<and> given T = given S \<and> taken T = taken S"
  by (induction rule: stream_step.induct) (auto simp: stream_ok_def)

lemma stream_steps_after_end:
  assumes "stream_step\<^sup>*\<^sup>* S T" "stream_ok S" "finished S"
  shows "finished T \<and> given T = given S \<and> taken T = taken S"
  using assms(1)
proof (induction rule: rtranclp_induct)
  case (step T U)
  then show ?case
    using stream_step_after_end [OF step(2) stream_steps_ok [OF step(1) assms(2)]] by simp
qed (use assms(3) in simp)

subsection \<open>The connection refines it\<close>

definition abs_conn :: "'u connection \<Rightarrow> stream" where
  "abs_conn x = \<lparr>phase = state x, taken = accepted x, given = sent x, finished = shut_wr x\<rparr>"

lemma abs_conn_simps [simp]:
  "phase (abs_conn x) = state x" "taken (abs_conn x) = accepted x" "given (abs_conn x) = sent x" "finished (abs_conn x) = shut_wr x"
  by (simp_all add: abs_conn_def)

lemma abs_conn_ok: "conn_ok ch x \<Longrightarrow> stream_ok (abs_conn x)"
  by (auto simp: conn_ok_def stream_ok_def open_state_def)

text \<open>An open stream can reach every later one: it accepts, transmits, changes its phase and finishes.\<close>

lemma stream_phase:
  assumes "phase S = Connected \<or> phase S = Disconnecting" "rank (phase S) \<le> rank q"
  shows "stream_step\<^sup>*\<^sup>* S (S\<lparr>phase := q\<rparr>)"
proof (cases "q = phase S")
  case False
  then have "stream_step S (S\<lparr>phase := q\<rparr>)"
    using assms half_close [of S] close_down [of S] by (cases q) auto
  then show ?thesis by blast
qed simp

lemma stream_finish:
  assumes "phase S = Disconnecting \<and> given S = taken S \<or> phase S = Disconnected \<or> b = finished S" "finished S \<longrightarrow> b"
  shows "stream_step\<^sup>*\<^sup>* S (S\<lparr>finished := b\<rparr>)"
proof (cases "b = finished S")
  case False
  then have "stream_step S (S\<lparr>finished := b\<rparr>)"
    using assms finish [of S] by auto
  then show ?thesis by blast
qed simp

lemma open_stream_run:
  assumes S: "phase S = Connected \<or> phase S = Disconnecting \<and> a = []" "\<not> finished S" "rank (phase S) \<le> rank (phase T)"
    and T: "taken T = taken S @ a" "given T = given S @ g" "taken T = given T @ rest"
      "finished T \<longrightarrow> phase T = Disconnecting \<and> given T = taken T \<or> phase T = Disconnected"
  shows "stream_step\<^sup>*\<^sup>* S T"
proof -
  let ?S1 = "S\<lparr>taken := taken T\<rparr>" and ?S2 = "S\<lparr>taken := taken T, given := given T\<rparr>"
  let ?S3 = "S\<lparr>taken := taken T, given := given T, phase := phase T\<rparr>"
  have "stream_step\<^sup>*\<^sup>* S ?S1"
    using S(1) T(1) accept_data [of S a] by (cases "a = []") auto
  also have "stream_step ?S1 ?S2"
    using transmit [of ?S1 g rest] S T(2,3) by auto
  also have "stream_step\<^sup>*\<^sup>* ?S2 ?S3"
    using stream_phase [of ?S2 "phase T"] S by auto
  also have "stream_step\<^sup>*\<^sup>* ?S3 (?S3\<lparr>finished := finished T\<rparr>)"
    by (rule stream_finish) (use S(2) T(4) in auto)
  also have "?S3\<lparr>finished := finished T\<rparr> = T"
    by simp
  finally show ?thesis .
qed

text \<open>So can a connection whose sending direction is open.\<close>

lemma conn_ok_finished: "conn_ok ch x \<Longrightarrow> shut_wr x \<Longrightarrow> state x = Disconnecting \<and> sent x = accepted x \<or> state x = Disconnected"
  by (auto simp: conn_ok_def open_state_def)

lemma open_conn_run:
  assumes fwd: "conn_forward x y" and ok: "conn_ok ch y"
    and S: "taken S = accepted x" "given S = sent x" "\<not> finished S" "phase S = Connected \<or> phase S = Disconnecting \<and> accepted y = accepted x"
      "rank (phase S) \<le> rank (state y)"
  shows "stream_step\<^sup>*\<^sup>* S (abs_conn y)"
proof -
  obtain a g where "accepted y = accepted x @ a" "sent y = sent x @ g"
    using fwd by (auto simp: conn_forward_def)
  moreover obtain rest where "accepted y = sent y @ rest"
    using ok by (auto simp: conn_ok_def)
  ultimately show ?thesis
    using S conn_ok_finished [OF ok] by (intro open_stream_run [of S a "abs_conn y" g rest]) auto
qed

lemma conn_forward_run:
  assumes fwd: "conn_forward x y" and ok: "conn_ok ch x" "conn_ok ch' y"
  shows "stream_step\<^sup>*\<^sup>* (abs_conn x) (abs_conn y)"
proof (cases "state x")
  case Connecting
  then have new: "sent x = []" "accepted x = []" "\<not> shut_wr x"
    using ok(1) by (simp_all add: conn_ok_def)
  show ?thesis
  proof (cases "state y = Connecting")
    case True
    then show ?thesis
      using ok(2) new Connecting by (simp add: abs_conn_def conn_ok_def)
  next
    case False
    then have "stream_step\<^sup>*\<^sup>* ((abs_conn x)\<lparr>phase := Connected\<rparr>) (abs_conn y)"
      using new by (intro open_conn_run [OF fwd ok(2)]) (simp_all, cases "state y", simp_all)
    then show ?thesis
      using establish [of "abs_conn x"] Connecting by (simp add: converse_rtranclp_into_rtranclp)
  qed
next
  case Connected
  then show ?thesis
    using fwd conn_ok_finished [OF ok(1)] by (intro open_conn_run [OF fwd ok(2)]) (auto simp: conn_forward_def)
next
  case Disconnecting
  show ?thesis
  proof (cases "shut_wr x")
    case True
    then have "sent x = accepted x" "accepted y = accepted x" "shut_wr y"
      using fwd conn_ok_finished [OF ok(1)] Disconnecting by (simp_all add: conn_forward_def)
    moreover obtain g rest where "sent y = sent x @ g" "accepted y = sent y @ rest"
      using fwd ok(2) unfolding conn_forward_def conn_ok_def by blast
    ultimately have "abs_conn y = (abs_conn x)\<lparr>phase := state y\<rparr>"
      using True by (simp add: abs_conn_def)
    then show ?thesis
      using stream_phase [of "abs_conn x" "state y"] Disconnecting fwd by (simp add: conn_forward_def)
  next
    case False
    then show ?thesis
      using fwd Disconnecting by (intro open_conn_run [OF fwd ok(2)]) (auto simp: conn_forward_def)
  qed
next
  case Disconnected
  then have "abs_conn y = (abs_conn x)\<lparr>finished := shut_wr y\<rparr>"
    using fwd by (cases "state y") (simp_all add: abs_conn_def conn_forward_def)
  then show ?thesis
    using stream_finish [of "abs_conn x" "shut_wr y"] Disconnected fwd by (simp add: conn_forward_def)
qed

lemma tcp_step_run:
  assumes "tcp_inv interest w" "tcp_step interest w w'" "conns w c = Some x"
  obtains y where "conns w' c = Some y" "stream_step\<^sup>*\<^sup>* (abs_conn x) (abs_conn y)"
proof -
  obtain y where y: "conns w' c = Some y" "conn_forward x y"
    using tcp_stepD(3) [OF assms(2,3)] by blast
  then show thesis
    using that conn_forward_run tcp_invD(2) [OF assms(1,3)] tcp_invD(2) [OF tcp_stepD(1) [OF assms(2)] y(1)] by blast
qed

text \<open>C2: the connection implements the abstract stream: whatever iterations of the loop and calls by any
  thread are executed, what a connection has accepted, sent and closed changes only in steps of the
  stream machine. So the kernel always has a prefix of what was accepted, and once the sending
  direction of a connection is closed nothing more is accepted or sent.\<close>

theorem connection_refines_stream:
  assumes "conn_sys_ok s interest" "user_ok interest user" "other_ok interest other" "tcp_inv interest w" "pend_ok w"
    and "list_all op_ok ops" "tcp_exec_list s user e other ops w = Inr w'" "conns w c = Some x"
  shows "\<exists>y. conns w' c = Some y \<and> stream_step\<^sup>*\<^sup>* (abs_conn x) (abs_conn y) \<and> stream_ok (abs_conn y)
    \<and> (shut_wr x \<longrightarrow> sent y = sent x \<and> accepted y = accepted x)"
proof -
  have step: "tcp_step interest w w'"
    using tcp_exec_list_step [OF assms(1-3)] assms(4-7) by blast
  obtain y where y: "conns w' c = Some y" "stream_step\<^sup>*\<^sup>* (abs_conn x) (abs_conn y)"
    by (rule tcp_step_run [OF assms(4) step assms(8)])
  have ok: "stream_ok (abs_conn x)" "stream_ok (abs_conn y)"
    using abs_conn_ok tcp_invD(2) [OF assms(4,8)] tcp_invD(2) [OF tcp_stepD(1) [OF step] y(1)] by blast+
  then show ?thesis
    using y stream_steps_after_end [OF y(2) ok(1)] by auto
qed

theorem connection_refines_stream_witness:
  "\<exists>w' y. tcp_exec_list ex_csys ex_user EINTR ex_other [SendOp 7 20 [1, 2], ShutdownOp 8 20, LoopIter (tcp_ex_input [])]
      (ex_tcp Connected fresh_buffer 3) = Inr w'
    \<and> conns w' 20 = Some y
    \<and> stream_step\<^sup>*\<^sup>* \<lparr>phase = Connected, taken = [], given = [], finished = False\<rparr>
        \<lparr>phase = Disconnecting, taken = [1, 2], given = [1, 2], finished = True\<rparr>"
proof -
  let ?ops = "[SendOp 7 20 [1, 2], ShutdownOp 8 20, LoopIter (tcp_ex_input [])]"
  obtain w' y where w': "tcp_exec_list ex_csys ex_user EINTR ex_other ?ops (ex_tcp Connected fresh_buffer 3) = Inr w'"
      "conns w' 20 = Some y" "abs_conn y = \<lparr>phase = Disconnecting, taken = [1, 2], given = [1, 2], finished = True\<rparr>"
    by (simp add: tcp_eval ex_tcp_def Shutdown_def loop_iter_def Poll_def tcp_ex_input_def shutdown_in_loop_def IsWriteEvent_def
        has_event_def event_bits ShutdownWrite_def Let_def fresh_buffer_def buffer_eval abs_conn_def cong: andthen_weak_cong)
  have "list_all op_ok ?ops"
    by (simp add: tcp_ex_input_def vector_max_def)
  from connection_refines_stream [OF ex_csys_ok(1) ex_user_ok ex_tcp_inv this w'(1) ex_tcp_simps(1)] w' show ?thesis
    by (auto simp: abs_conn_def ex_conn_def fresh_buffer_inv fresh_buffer_content)
qed

end
