(* ===== verification/Spec2Isabelle.thy ===== *)
theory Spec2Isabelle
  imports DelayedClose EchoMain EchoClient Wakeup LoopThread Connection_Drain StreamSpec
begin

text \<open>
  Verification of benet, a multi-threaded non-blocking TCP library on the reactor pattern
  (\<open>include/benet\<close>, \<open>src\<close>, \<open>example\<close>). A \<open>TcpServer\<close> accepts connections in its own loop and
  hands them to the loops of a thread pool. A loop waits in \<open>epoll\<close>, dispatches the events of its
  channels, and runs the functors that other threads queued. A connection reads into and writes
  from byte buffers in its loop; timers fire through a timer descriptor in the same loop.

  \<^bold>\<open>How the code is modelled.\<close> A class is a record, an operation a function from state to
  \<open>err + state\<close>: an assertion, a fatal log message (which exits), an exception or an undefined
  behaviour is a value of \<open>err\<close> (theory \<open>Benet_Prelude\<close>). Objects live at addresses of finite
  maps. The poller's state is extended to that of the loop and then of a loop with connections by
  record extension. Code that is not part of the repository is a parameter with its documented
  behaviour as a named hypothesis: the kernel (\<open>epoll_ok\<close>, \<open>wait_ok\<close>, \<open>conn_sys_ok\<close>, \<open>fds_ok\<close>,
  \<open>readv_ok\<close>, \<open>settime_ok\<close>, \<open>life_ok\<close>, \<open>close_ok\<close>, \<open>acc_ok\<close>, \<open>send_progress\<close>), the allocator (\<open>alloc_ok\<close>),
  \<open>inet_pton\<close> and \<open>inet_ntop\<close>, spdlog (\<open>spdlog_ok\<close>), and the callbacks of the user (\<open>user_ok\<close>, \<open>other_ok\<close>). \<open>size_t\<close> wraps around, event masks and ports are
  machine words, time points are signed 64-bit nanoseconds.

  \<^bold>\<open>Buffer\<close> (\<open>buffer.h\<close>): every operation with the vector and the two indices. Any sequence of
  calls behaves as a queue of bytes, no call leaves the vector, integers come back as they were
  appended, and \<open>FindCRLF\<close> finds the first line end. The interface that the connection uses is the
  locale \<open>byte_queue\<close>.

  \<^bold>\<open>Ordered_Set, Timer, TimerQueue, LoopTimers\<close> (\<open>timer.cpp\<close>, \<open>timer_queue.cpp\<close>, the timer interface
  of \<open>eventloop.cpp\<close>): the ordered set is the locale \<open>ordered_set\<close>. When the descriptor fires, exactly
  the expired timers run, in order; repeating ones are queued again and the descriptor is armed
  for the earliest. An expiration equal to the current time fails an assertion.

  \<^bold>\<open>Channel, Poller, EventLoop\<close> (\<open>channel.cpp\<close>, \<open>poller.cpp\<close>, \<open>eventloop.cpp\<close>): the dispatcher is
  equal to the list of callbacks its mask asks for; the store of channels is the locale
  \<open>channel_store\<close>. Any sequence of channel operations keeps the poller's table, the indices and the
  interest list of the kernel in agreement. A stopped loop returns. \<^bold>\<open>LoopLifetime\<close>: the constructors
  and destructors of the loop with its three descriptors (\<open>epoll\<close>, event, timer) and the
  thread-local pointer to it. A new loop watches two of them, a destroyed one has closed all
  three, and a thread never has two loops at once.

  \<^bold>\<open>Wakeup\<close> (\<open>Start\<close>, \<open>QueueInLoop\<close>, \<open>Stop\<close> of \<open>eventloop.cpp\<close> as interleaved steps of any number of
  threads): each functor runs once and in order, the loop never sleeps over pending work, and it
  makes progress without a time-out. \<^bold>\<open>LoopThread\<close> (\<open>eventloop_thread.cpp\<close>): the pointer that \<open>Start\<close>
  returns is valid until the loop is stopped. \<^bold>\<open>ThreadPool\<close> (\<open>eventloop_threadpool.cpp\<close>): round-robin,
  and its failure when two pools share the counter; the client's view is the locale \<open>loop_chooser\<close>.

  \<^bold>\<open>InetAddress, Sockets\<close> (\<open>inet_address.cpp\<close>, \<open>socket_ops.cpp\<close>, \<open>socket.cpp\<close>): addresses as the bytes
  of \<open>sockaddr_storage\<close>, what is passed to each system call, and how its errors are handled.

  \<^bold>\<open>TcpConnection, Connection_Inv, Connection_Runs, Connection_Props\<close> (\<open>tcp_connection.cpp\<close>): the
  operations; the invariant of all connections of a loop and one preservation lemma per operation;
  runs of loop iterations mixed with calls by any thread; the properties. The kernel gets a prefix
  of the accepted bytes, the rest is buffered, FIN follows the last byte, states only move
  forward, a closed connection can be deleted. \<^bold>\<open>Connection_Drain\<close>: as long as the kernel takes bytes, the
  buffered output is sent completely within as many write events as it has bytes, and a pending
  shutdown is then carried out. \<^bold>\<open>StreamSpec\<close>: an abstract stream (what was taken, what was given on,
  whether it was finished) as a step relation, which every run of the loop with any calls of other
  threads refines. \<^bold>\<open>DelayedClose\<close>: \<open>ForceCloseDelay\<close>, where connections and timers meet.

  \<^bold>\<open>Acceptor, TcpServer\<close> (\<open>acceptor.cpp\<close>, \<open>tcp_server.cpp\<close>): accepted descriptors are handed over or
  closed, the spare descriptor survives the exhaustion of descriptors; a new connection gets a
  fresh name and a loop, its removal goes through the server's loop, and the destructor of the
  server queues the destruction of every connection in the loop that owns it. \<^bold>\<open>ServerRuns\<close>: in every
  order of accepts, loop iterations, calls of any thread, removals and deletions the map of the
  server leads to live connections only, each under its own name. \<^bold>\<open>ServerStart\<close>: the constructors of
  the acceptor and of the server, \<open>Listen\<close> and \<open>Start\<close> lead to a state from which these runs begin.

  \<^bold>\<open>EchoServer, EchoClient\<close> (\<open>example\<close>): the echo server composes buffer, channel, loop, connection
  and server: what it sends is a prefix of what it received, complete while the connection is up.
  \<^bold>\<open>EchoMain\<close> is its \<open>main\<close>: from the initialisation of the library through the constructors of loop and
  server to a server that listens and whose map, loops and poller satisfy their invariants.
  The client is a state machine over the completions of ASIO, which is not part of the repository.

  \<^bold>\<open>Logger\<close> (\<open>logger.h\<close>, \<open>logger.cpp\<close>, \<open>benet.cpp\<close>): the logger that is created at its first use, the
  levels compiled in, \<open>InitLogLevel\<close> and \<open>IgnoreSigpipe\<close>. The level that was set stays in force, and
  exactly the messages that reach it and the level of the build are written.

  \<^bold>\<open>Bounds.\<close> Vectors have at most \<open>2 ^ 63 - 1\<close> bytes. The only fuel is the number of steps
  granted to the loop in \<open>loop_progress\<close> and of write events in \<open>output_drains\<close>, where the bound is part of the
  statement; all other loops are
  recursive functions with a termination proof, and the endless loop of \<open>Start\<close> is driven by the
  list of its inputs.

  \<^bold>\<open>Not modelled.\<close> Log calls inside the other operations change nothing but the output and are left
  out there, except the fatal ones, which are errors; the texts of \<open>errmsg.h\<close> appear in them only.
  \<open>callbacks.h\<close>, \<open>types.h\<close> and \<open>copy_move_policy.h\<close> hold types only, and the class declarations of the headers
  are the records and the signatures of the model. The readiness of the timer descriptor, which
  \<open>reset_timerfd\<close> clears, is part of the kernel; the socket error read by \<open>handle_error_with_code\<close> is logged
  only; \<open>main\<close> of the echo client constructs the objects of ASIO and runs them. Log calls are assumed
  not to change \<open>errno\<close>. Memory ordering is sequentially consistent, as the atomics of the code are;
  infinities and NaN of \<open>double\<close> intervals are left out.
\<close>

end
